(* ===== verification/Prelude.thy ===== *)
theory Prelude
  imports Main "HOL-Library.Word" "HOL-Library.List_Lexorder" "HOL-Library.Sublist"
begin

unbundle bit_operations_syntax

text \<open>
  What every component of the development shares: the machine types of the Rust sources, the
  byte-level primitives of its standard library (\<open>to_le_bytes\<close>, \<open>from_be_bytes\<close>,
  \<open>split_at_checked\<close>, \<open>get(a..b)\<close>, \<open>first_chunk\<close>, \<open>chunks\<close>, \<open>div_ceil\<close>,
  \<open>next_multiple_of\<close>, saturating arithmetic), the \<open>Result\<close> type as a sum with the error on the
  left, and the lemma collections \<open>byte_simps\<close>, \<open>layout_simps\<close> and \<open>result_simps\<close>.
\<close>

section \<open>Machine types\<close>

type_synonym byte = "8 word"
type_synonym bytes = "8 word list"
type_synonym u16 = "16 word"
type_synonym u32 = "32 word"
type_synonym u64 = "64 word"
type_synonym u128 = "128 word"

text \<open>An \<open>i64\<close> is its two's complement word, read with \<^const>\<open>sint\<close>.\<close>

type_synonym i64 = "64 word"

named_theorems byte_simps \<open>lengths and round trips of byte encodings\<close>
named_theorems layout_simps \<open>arithmetic of rounding and alignment\<close>
named_theorems result_simps \<open>equations of the error monad\<close>

section \<open>Results\<close>

type_synonym ('e, 'a) result = "'e + 'a"

abbreviation Ok :: "'a \<Rightarrow> ('e, 'a) result" where "Ok \<equiv> Inr"
abbreviation Err :: "'e \<Rightarrow> ('e, 'a) result" where "Err \<equiv> Inl"

text \<open>The question-mark operator: an early return of the error.\<close>

definition and_then :: "('e, 'a) result \<Rightarrow> ('a \<Rightarrow> ('e, 'b) result) \<Rightarrow> ('e, 'b) result" where
  "and_then r f = (case r of Inl e \<Rightarrow> Inl e | Inr x \<Rightarrow> f x)"

definition map_err :: "('e \<Rightarrow> 'f) \<Rightarrow> ('e, 'a) result \<Rightarrow> ('f, 'a) result" where
  "map_err g r = (case r of Inl e \<Rightarrow> Inl (g e) | Inr x \<Rightarrow> Inr x)"

definition ok_or :: "'e \<Rightarrow> 'a option \<Rightarrow> ('e, 'a) result" where
  "ok_or e x = (case x of None \<Rightarrow> Inl e | Some y \<Rightarrow> Inr y)"

lemma and_then_simps [simp]:
  "and_then (Inl e) f = Inl e"
  "and_then (Inr x) f = f x"
  by (simp_all add: and_then_def)

lemma map_err_simps [simp]:
  "map_err g (Inl e) = Inl (g e)"
  "map_err g (Inr x) = Inr x"
  by (simp_all add: map_err_def)

lemma ok_or_simps [simp]:
  "ok_or e None = Inl e"
  "ok_or e (Some x) = Inr x"
  by (simp_all add: ok_or_def)

lemma and_then_eq_Ok [result_simps]:
  "and_then r f = Inr y \<longleftrightarrow> (\<exists>x. r = Inr x \<and> f x = Inr y)"
  by (cases r) auto

lemma and_then_eq_Err [result_simps]:
  "and_then r f = Inl e \<longleftrightarrow> r = Inl e \<or> (\<exists>x. r = Inr x \<and> f x = Inl e)"
  by (cases r) auto

lemma map_err_eq_Ok [result_simps]: "map_err g r = Inr y \<longleftrightarrow> r = Inr y"
  by (cases r) auto

lemma map_err_eq_Err [result_simps]: "map_err g r = Inl e \<longleftrightarrow> (\<exists>e'. r = Inl e' \<and> e = g e')"
  by (cases r) auto

lemma ok_or_eq_Ok [result_simps]: "ok_or e x = Inr y \<longleftrightarrow> x = Some y"
  by (cases x) auto

lemma ok_or_eq_Err [result_simps]: "ok_or e x = Inl e' \<longleftrightarrow> x = None \<and> e = e'"
  by (cases x) auto

text \<open>Collecting an iterator of results stops at the first error.\<close>

fun collect_results :: "('e, 'a) result list \<Rightarrow> ('e, 'a list) result" where
  "collect_results [] = Inr []"
| "collect_results (r # rs) =
     and_then r (\<lambda>x. and_then (collect_results rs) (\<lambda>xs. Inr (x # xs)))"

lemma collect_results_Ok [simp]: "collect_results (map Inr xs) = Inr xs"
  by (induction xs) auto

lemma collect_results_eq_Ok: "collect_results rs = Inr xs \<longleftrightarrow> rs = map Inr xs"
  by (induction rs arbitrary: xs) (auto simp: result_simps)

section \<open>Sequences\<close>

text \<open>\<open>buf.get(a..b)\<close> on a slice: absent when the range leaves the buffer.\<close>

definition get_range :: "'a list \<Rightarrow> nat \<Rightarrow> nat \<Rightarrow> 'a list option" where
  "get_range xs a b = (if a \<le> b \<and> b \<le> length xs then Some (take (b - a) (drop a xs)) else None)"

text \<open>\<open>buf.first_chunk::<N>()\<close>: the leading \<open>N\<close> elements, absent when there are fewer.\<close>

definition first_chunk :: "nat \<Rightarrow> 'a list \<Rightarrow> 'a list option" where
  "first_chunk n xs = (if n \<le> length xs then Some (take n xs) else None)"

text \<open>\<open>split_at_checked(n)\<close>.\<close>

definition split_at_checked :: "nat \<Rightarrow> 'a list \<Rightarrow> ('a list \<times> 'a list) option" where
  "split_at_checked n xs = (if n \<le> length xs then Some (take n xs, drop n xs) else None)"

text \<open>
  \<open>read_array::<N>(buf, off)\<close>, the fixed-offset field read of the codecs. The sources call it
  only inside a buffer whose length was checked before, where it is total.
\<close>

definition read_array :: "nat \<Rightarrow> 'a list \<Rightarrow> nat \<Rightarrow> 'a list" where
  "read_array n buf off = take n (drop off buf)"

text \<open>\<open>slice.chunks(n)\<close>: pieces of length \<open>n\<close>, the last one possibly shorter.\<close>

function chunks :: "nat \<Rightarrow> 'a list \<Rightarrow> 'a list list" where
  "chunks n xs = (if xs = [] \<or> n = 0 then [] else take n xs # chunks n (drop n xs))"
  by pat_completeness auto
termination
  by (relation "measure (\<lambda>(n, xs). length xs)") auto

declare chunks.simps [simp del]

lemma first_chunk_append [simp]: "length xs = n \<Longrightarrow> first_chunk n (xs @ ys) = Some xs"
  by (simp add: first_chunk_def)

lemma first_chunk_self [simp]: "length xs = n \<Longrightarrow> first_chunk n xs = Some xs"
  by (simp add: first_chunk_def)

lemma first_chunk_Some: "first_chunk n xs = Some ys \<longleftrightarrow> n \<le> length xs \<and> ys = take n xs"
  by (auto simp: first_chunk_def)

lemma first_chunk_None: "first_chunk n xs = None \<longleftrightarrow> length xs < n"
  by (auto simp: first_chunk_def)

lemma get_range_full [simp]: "length xs = n \<Longrightarrow> get_range (ys @ xs @ zs) (length ys) (length ys + n) = Some xs"
  by (simp add: get_range_def)

lemma get_range_Some:
  "get_range xs a b = Some ys \<longleftrightarrow> a \<le> b \<and> b \<le> length xs \<and> ys = take (b - a) (drop a xs)"
  by (auto simp: get_range_def)

lemma length_get_range: "get_range xs a b = Some ys \<Longrightarrow> length ys = b - a"
  by (auto simp: get_range_Some)

lemma chunks_Nil [simp]: "chunks n [] = []"
  by (simp add: chunks.simps)

lemma chunks_append:
  assumes "length xs = n" and "0 < n"
  shows "chunks n (xs @ ys) = xs # chunks n ys"
  using assms by (subst chunks.simps) auto

lemma concat_chunks: "0 < n \<Longrightarrow> concat (chunks n xs) = xs"
proof (induction n xs rule: chunks.induct)
  case (1 n xs)
  then show ?case by (subst chunks.simps) auto
qed

lemma chunks_bounded: "c \<in> set (chunks n xs) \<Longrightarrow> c \<noteq> [] \<and> length c \<le> n"
proof (induction n xs rule: chunks.induct)
  case (1 n xs)
  show ?case
  proof (cases "xs = [] \<or> n = 0")
    case True
    with "1.prems" show ?thesis by (simp add: chunks.simps [of n xs] split: if_splits)
  next
    case False
    with "1.prems" consider "c = take n xs" | "c \<in> set (chunks n (drop n xs))"
      by (auto simp: chunks.simps [of n xs])
    then show ?thesis using False "1.IH" by cases auto
  qed
qed

lemma chunks_exact_concat:
  assumes "0 < n" and "\<forall>c\<in>set cs. length c = n"
  shows "chunks n (concat cs) = cs"
  using assms(2)
proof (induction cs)
  case Nil
  then show ?case by simp
next
  case (Cons c cs)
  then show ?case using assms(1) by (simp add: chunks_append)
qed

section \<open>Byte encodings of machine words\<close>

text \<open>\<open>to_le_bytes\<close> and \<open>to_be_bytes\<close> of an integer that occupies \<open>n\<close> bytes.\<close>

definition to_le_bytes :: "nat \<Rightarrow> 'a::len word \<Rightarrow> bytes" where
  "to_le_bytes n w = map (\<lambda>i. ucast (drop_bit (8 * i) w)) [0..<n]"

definition to_be_bytes :: "nat \<Rightarrow> 'a::len word \<Rightarrow> bytes" where
  "to_be_bytes n w = rev (to_le_bytes n w)"

fun from_le_bytes :: "bytes \<Rightarrow> 'a::len word" where
  "from_le_bytes [] = 0"
| "from_le_bytes (b # bs) = ucast b OR push_bit 8 (from_le_bytes bs)"

definition from_be_bytes :: "bytes \<Rightarrow> 'a::len word" where
  "from_be_bytes bs = from_le_bytes (rev bs)"

lemma length_to_le_bytes [simp, byte_simps]: "length (to_le_bytes n w) = n"
  by (simp add: to_le_bytes_def)

lemma length_to_be_bytes [simp, byte_simps]: "length (to_be_bytes n w) = n"
  by (simp add: to_be_bytes_def)

lemma bit_from_le_bytes:
  "bit (from_le_bytes bs :: 'a::len word) i \<longleftrightarrow>
     i < LENGTH('a) \<and> i div 8 < length bs \<and> bit (bs ! (i div 8)) (i mod 8)"
proof (induction bs arbitrary: i)
  case Nil
  then show ?case by simp
next
  case (Cons b bs)
  show ?case
  proof (cases "i < 8")
    case True
    then show ?thesis by (auto simp: bit_simps)
  next
    case False
    then obtain j where i: "i = 8 + j" by (metis le_Suc_ex not_less)
    have "\<not> bit b i" using False by (simp add: bit_word.rep_eq impossible_bit)
    moreover have "i div 8 = Suc (j div 8)" and "i mod 8 = j mod 8" using i by simp_all
    moreover have "i < LENGTH('a) \<Longrightarrow> j < LENGTH('a)" using i by simp
    ultimately show ?thesis using i Cons.IH [of j] False
      by (auto simp: bit_simps)
  qed
qed

lemma nth_to_le_bytes: "i < n \<Longrightarrow> to_le_bytes n w ! i = ucast (drop_bit (8 * i) w)"
  by (simp add: to_le_bytes_def)

lemma from_to_le_bytes:
  fixes w :: "'a::len word"
  assumes "LENGTH('a) \<le> 8 * n"
  shows "from_le_bytes (to_le_bytes n w) = w"
proof (rule bit_word_eqI)
  fix i assume i: "i < LENGTH('a)"
  then have d: "i div 8 < n" using assms by linarith
  have "8 * (i div 8) + i mod 8 = i" by simp
  with i d show "bit (from_le_bytes (to_le_bytes n w) :: 'a word) i = bit w i"
    by (simp add: bit_from_le_bytes nth_to_le_bytes bit_simps)
qed

lemma to_from_le_bytes:
  assumes "length bs = n" and "8 * n \<le> LENGTH('a::len)"
  shows "to_le_bytes n (from_le_bytes bs :: 'a word) = bs"
proof (rule nth_equalityI)
  show "length (to_le_bytes n (from_le_bytes bs :: 'a word)) = length bs" using assms by simp
next
  fix i assume "i < length (to_le_bytes n (from_le_bytes bs :: 'a word))"
  then have i: "i < n" by simp
  show "to_le_bytes n (from_le_bytes bs :: 'a word) ! i = bs ! i"
  proof (rule bit_word_eqI)
    fix j assume "j < LENGTH(8)"
    then have j: "j < 8" by simp
    then have "(8 * i + j) div 8 = i" and "(8 * i + j) mod 8 = j" by simp_all
    moreover have "8 * i + j < LENGTH('a)" using i j assms(2) by linarith
    ultimately show "bit (to_le_bytes n (from_le_bytes bs :: 'a word) ! i) j = bit (bs ! i) j"
      using i j assms(1) by (simp add: nth_to_le_bytes bit_simps bit_from_le_bytes)
  qed
qed

lemma from_to_be_bytes:
  "LENGTH('a::len) \<le> 8 * n \<Longrightarrow> from_be_bytes (to_be_bytes n (w :: 'a word)) = w"
  by (simp add: from_be_bytes_def to_be_bytes_def from_to_le_bytes)

lemma to_from_be_bytes:
  "length bs = n \<Longrightarrow> 8 * n \<le> LENGTH('a::len) \<Longrightarrow> to_be_bytes n (from_be_bytes bs :: 'a word) = bs"
  by (simp add: from_be_bytes_def to_be_bytes_def to_from_le_bytes)

lemma le_bytes_roundtrip [simp, byte_simps]:
  "from_le_bytes (to_le_bytes 2 (x :: u16)) = x"
  "from_le_bytes (to_le_bytes 4 (y :: u32)) = y"
  "from_le_bytes (to_le_bytes 8 (z :: u64)) = z"
  "from_le_bytes (to_le_bytes 16 (v :: u128)) = v"
  by (simp_all add: from_to_le_bytes)

lemma be_bytes_roundtrip [simp, byte_simps]:
  "from_be_bytes (to_be_bytes 4 (y :: u32)) = y"
  "from_be_bytes (to_be_bytes 8 (z :: u64)) = z"
  "from_be_bytes (to_be_bytes 16 (v :: u128)) = v"
  by (simp_all add: from_to_be_bytes)

section \<open>Byte order\<close>

lemma unat_ucast_up:
  fixes w :: "'a::len word"
  assumes "LENGTH('a) \<le> LENGTH('b::len)"
  shows "unat (ucast w :: 'b word) = unat w"
proof -
  have "unat w < 2 ^ LENGTH('a)" by (rule unsigned_less)
  also have "(2 :: nat) ^ LENGTH('a) \<le> 2 ^ LENGTH('b)" using assms by (rule power_increasing) simp
  finally show ?thesis by (simp only: unsigned_ucast_eq take_bit_nat_eq_self)
qed

text \<open>
  Big-endian keys sort as the integers they encode: the lexicographic order of the encodings is the
  unsigned order of the words. Index and metadata keys rely on this.
\<close>

lemma from_be_bytes_Cons:
  "(from_be_bytes (b # bs) :: 'a::len word) =
     from_be_bytes bs OR push_bit (8 * length bs) (ucast b)"
proof -
  have "(from_le_bytes (xs @ [b]) :: 'a word) = from_le_bytes xs OR push_bit (8 * length xs) (ucast b)"
    for xs
    by (induction xs) (simp_all add: push_bit_or or.assoc flip: push_bit_push_bit)
  from this [of "rev bs"] show ?thesis by (simp add: from_be_bytes_def)
qed

fun be_value :: "bytes \<Rightarrow> nat" where
  "be_value [] = 0"
| "be_value (b # bs) = unat b * 256 ^ length bs + be_value bs"

lemma be_value_less: "be_value bs < 256 ^ length bs"
proof (induction bs)
  case Nil
  then show ?case by simp
next
  case (Cons b bs)
  have "unat b \<le> 255" using unsigned_less [of b, where 'a = nat] by simp
  then have "unat b * 256 ^ length bs \<le> 255 * 256 ^ length bs" by (rule mult_le_mono1)
  with Cons have "unat b * 256 ^ length bs + be_value bs < 255 * 256 ^ length bs + 256 ^ length bs"
    by linarith
  then show ?case by simp
qed

lemma be_value_order:
  "length xs = length ys \<Longrightarrow> xs < ys \<longleftrightarrow> be_value xs < be_value ys"
proof (induction xs ys rule: list_induct2)
  case Nil
  then show ?case by simp
next
  case (Cons x xs y ys)
  let ?n = "256 ^ length ys :: nat"
  have bx: "be_value xs < ?n" and by_: "be_value ys < ?n"
    using be_value_less [of xs] be_value_less [of ys] Cons.hyps by simp_all
  consider "x < y" | "x = y" | "y < x" by (rule linorder_cases)
  then show ?case
  proof cases
    case 1
    then have "Suc (unat x) \<le> unat y" by (simp add: word_less_nat_alt)
    then have "Suc (unat x) * ?n \<le> unat y * ?n" by (rule mult_le_mono1)
    with 1 bx Cons.hyps show ?thesis by simp
  next
    case 2
    with Cons show ?thesis by simp
  next
    case 3
    then have "Suc (unat y) \<le> unat x" by (simp add: word_less_nat_alt)
    then have "Suc (unat y) * ?n \<le> unat x * ?n" by (rule mult_le_mono1)
    moreover have "\<not> x < y" and "x \<noteq> y" using 3 by (simp_all add: not_less less_imp_le)
    ultimately show ?thesis using by_ Cons.hyps by simp
  qed
qed

lemma unat_from_be_bytes:
  "8 * length bs \<le> LENGTH('a::len) \<Longrightarrow> unat (from_be_bytes bs :: 'a word) = be_value bs"
proof (induction bs)
  case Nil
  then show ?case by (simp add: from_be_bytes_def)
next
  case (Cons b bs)
  let ?lo = "from_be_bytes bs :: 'a word" and ?hi = "push_bit (8 * length bs) (ucast b :: 'a word)"
  have lo: "unat ?lo = be_value bs" using Cons by simp
  have small: "be_value (b # bs) < 2 ^ LENGTH('a)"
  proof -
    have "be_value (b # bs) < 256 ^ length (b # bs)" by (rule be_value_less)
    also have "(256 :: nat) ^ length (b # bs) = 2 ^ (8 * length (b # bs))"
      by (simp add: power_mult power_add)
    also have "\<dots> \<le> 2 ^ LENGTH('a)" using Cons.prems by (intro power_increasing) simp_all
    finally show ?thesis .
  qed
  have b: "unat (ucast b :: 'a word) = unat b"
    using Cons.prems by (intro unat_ucast_up) simp
  have hi: "unat ?hi = unat b * 256 ^ length bs"
  proof -
    have "unat ?hi = unat b * 2 ^ (8 * length bs) mod 2 ^ LENGTH('a)"
      by (simp only: unsigned_push_bit_eq b take_bit_nat_def push_bit_nat_def)
    also have "\<dots> = unat b * 256 ^ length bs"
      using small by (simp add: power_mult)
    finally show ?thesis .
  qed
  have "?lo AND ?hi = 0"
    by (rule bit_word_eqI)
       (auto simp: bit_simps from_be_bytes_def bit_from_le_bytes)
  then have "from_be_bytes (b # bs) = ?lo + ?hi"
    by (simp add: from_be_bytes_Cons disjunctive_add_eq_or)
  then show ?case using lo hi small by (simp add: unat_word_ariths)
qed

theorem to_be_bytes_order:
  fixes v w :: "'a::len word"
  assumes "LENGTH('a) = 8 * n"
  shows "to_be_bytes n v < to_be_bytes n w \<longleftrightarrow> v < w"
proof -
  have "be_value (to_be_bytes n u) = unat u" for u :: "'a word"
    using unat_from_be_bytes [of "to_be_bytes n u", where 'a = 'a] assms
    by (simp add: from_to_be_bytes)
  then show ?thesis by (simp add: be_value_order word_less_nat_alt)
qed

lemma to_be_bytes_inject:
  "LENGTH('a::len) \<le> 8 * n \<Longrightarrow> to_be_bytes n (v :: 'a word) = to_be_bytes n w \<longleftrightarrow> v = w"
  by (metis from_to_be_bytes)

section \<open>Rounding\<close>

text \<open>\<open>usize::div_ceil\<close> and \<open>usize::next_multiple_of\<close>.\<close>

definition div_ceil :: "nat \<Rightarrow> nat \<Rightarrow> nat" where
  "div_ceil a b = (if a mod b = 0 then a div b else a div b + 1)"

definition next_multiple_of :: "nat \<Rightarrow> nat \<Rightarrow> nat" where
  "next_multiple_of a b = (if a mod b = 0 then a else a + (b - a mod b))"

lemma div_ceil_0 [simp]: "div_ceil 0 b = 0"
  by (simp add: div_ceil_def)

lemma div_ceil_upper: "0 < b \<Longrightarrow> a \<le> div_ceil a b * b"
proof -
  assume "0 < b"
  then have "a mod b < b" by simp
  moreover have "a div b * b + a mod b = a" by (rule div_mult_mod_eq)
  ultimately have "a \<le> a div b * b + b" by linarith
  then show ?thesis by (auto simp: div_ceil_def)
qed

lemma div_ceil_lower: "0 < a \<Longrightarrow> 0 < b \<Longrightarrow> (div_ceil a b - 1) * b < a"
proof -
  assume a: "0 < a" and b: "0 < b"
  have e: "a div b * b + a mod b = a" by (rule div_mult_mod_eq)
  show "(div_ceil a b - 1) * b < a"
  proof (cases "a mod b = 0")
    case True
    then have "a div b * b = a" using e by simp
    then have "0 < a div b" using a by (metis gr0I mult_0)
    then have "(a div b - 1) * b + b = a div b * b"
      by (metis Suc_diff_1 add.commute mult_Suc)
    with True b \<open>a div b * b = a\<close> show ?thesis by (simp add: div_ceil_def)
  next
    case False
    then have "a div b * b < a" using e by linarith
    with False show ?thesis by (simp add: div_ceil_def)
  qed
qed

lemma div_ceil_pos: "0 < a \<Longrightarrow> 0 < b \<Longrightarrow> 0 < div_ceil a b"
  using div_ceil_upper [of b a] by (cases "div_ceil a b") auto

lemma div_ceil_eq_0 [simp]: "0 < b \<Longrightarrow> div_ceil a b = 0 \<longleftrightarrow> a = 0"
  using div_ceil_pos [of a b] by (cases "a = 0") auto

lemma div_ceil_unique:
  assumes "0 < b" and "a \<le> k * b" and "(k - 1) * b < a"
  shows "div_ceil a b = k"
proof -
  have a: "0 < a" using assms(3) by simp
  have "(div_ceil a b - 1) * b < k * b" using div_ceil_lower [OF a assms(1)] assms(2) by linarith
  then have 1: "div_ceil a b - 1 < k" using assms(1) by simp
  have "(k - 1) * b < div_ceil a b * b" using div_ceil_upper [OF assms(1), of a] assms(3) by linarith
  then have 2: "k - 1 < div_ceil a b" using assms(1) by simp
  from 1 2 show ?thesis by linarith
qed

lemma next_multiple_of_0 [simp]: "next_multiple_of 0 b = 0"
  by (simp add: next_multiple_of_def)

lemma next_multiple_of_dvd [layout_simps]: "0 < b \<Longrightarrow> b dvd next_multiple_of a b"
proof (cases "b = 0 \<or> a mod b = 0")
  case True
  then show "0 < b \<Longrightarrow> ?thesis" by (auto simp: next_multiple_of_def)
next
  case False
  then have "a mod b \<le> b" by (simp add: less_imp_le)
  then have "a + (b - a mod b) = a div b * b + b"
    using div_mult_mod_eq [of a b] by linarith
  then show ?thesis using False by (simp add: next_multiple_of_def)
qed

lemma next_multiple_of_ge [layout_simps]: "a \<le> next_multiple_of a b"
  by (simp add: next_multiple_of_def)

lemma next_multiple_of_less: "0 < b \<Longrightarrow> next_multiple_of a b < a + b"
  by (auto simp: next_multiple_of_def)

lemma next_multiple_of_pos: "0 < a \<Longrightarrow> 0 < next_multiple_of a b"
  using next_multiple_of_ge [of a b] by linarith

lemma next_multiple_of_mono: "a \<le> c \<Longrightarrow> next_multiple_of a b \<le> next_multiple_of c b"
proof (cases "b = 0")
  case True
  then show "a \<le> c \<Longrightarrow> ?thesis" by (simp add: next_multiple_of_def)
next
  case False
  assume "a \<le> c"
  obtain m where m: "next_multiple_of a b = b * m" using next_multiple_of_dvd [of b] False by (metis dvdE gr0I)
  obtain n where n: "next_multiple_of c b = b * n" using next_multiple_of_dvd [of b] False by (metis dvdE gr0I)
  have "b * m < b * n + b"
    using next_multiple_of_less [of b a] next_multiple_of_ge [of c b] \<open>a \<le> c\<close> False m n by simp
  then have "b * m < b * Suc n" by simp
  then have "m < Suc n" by (metis mult_less_cancel1)
  then show ?thesis using m n by simp
qed

lemma div_ceil_mono: "0 < b \<Longrightarrow> a \<le> c \<Longrightarrow> div_ceil a b \<le> div_ceil c b"
proof -
  assume b: "0 < b" and "a \<le> c"
  then have le: "a div b \<le> c div b" by (simp add: div_le_mono)
  show ?thesis
  proof (cases "a div b = c div b")
    case True
    have "c div b * b + a mod b = a" and "c div b * b + c mod b = c"
      using True div_mult_mod_eq [of a b] by simp_all
    then have "a mod b \<le> c mod b" using \<open>a \<le> c\<close> by linarith
    with True show ?thesis by (auto simp: div_ceil_def)
  next
    case False
    with le show ?thesis by (auto simp: div_ceil_def)
  qed
qed

section \<open>Saturating arithmetic\<close>

definition saturating_add :: "'a::len word \<Rightarrow> 'a word \<Rightarrow> 'a word" where
  "saturating_add a b = (if unat a + unat b < 2 ^ LENGTH('a) then a + b else - 1)"

definition saturating_mul :: "'a::len word \<Rightarrow> 'a word \<Rightarrow> 'a word" where
  "saturating_mul a b = (if unat a * unat b < 2 ^ LENGTH('a) then a * b else - 1)"

definition saturating_sub :: "'a::len word \<Rightarrow> 'a word \<Rightarrow> 'a word" where
  "saturating_sub a b = (if b \<le> a then a - b else 0)"

lemma unat_saturating_add:
  "unat (saturating_add a b :: 'a::len word) = min (unat a + unat b) (2 ^ LENGTH('a) - 1)"
proof -
  have "unat (- 1 :: 'a word) = 2 ^ LENGTH('a) - 1"
    by (metis mask_eq_exp_minus_1 unsigned_minus_1_eq_mask)
  then show ?thesis by (auto simp: saturating_add_def unat_word_ariths)
qed

lemma saturating_add_assoc:
  "saturating_add (saturating_add a b) c = saturating_add a (saturating_add b c)"
  by (rule word_unat_eq_iff [THEN iffD2]) (simp add: unat_saturating_add)

lemma saturating_add_commute: "saturating_add a b = saturating_add b a"
  by (simp add: saturating_add_def add.commute)

end
