(* ===== verification/Ec_Layout.thy ===== *)
theory Ec_Layout
  imports Prelude
begin

text \<open>
  Striping arithmetic of \<open>crates/epoch-ec/src/layout.rs\<close>: stripes, units, shard lengths and frame
  offsets. \<open>usize\<close> is \<^typ>\<open>nat\<close> here; \<open>shard_physical_blob_len_bound\<close> bounds every
  intermediate value by the blob length, so none of these functions leaves the machine range on
  lengths of buffers that fit in memory. The arguments the code asserts positive
  (\<open>debug_assert!\<close>) are hypotheses of the lemmas.
\<close>

definition HASH_LEN :: nat where "HASH_LEN = 32"
definition SHARD_ALIGN :: nat where "SHARD_ALIGN = 64"

definition unit_size :: "nat \<Rightarrow> nat \<Rightarrow> nat" where
  "unit_size stripe_len data_shards = next_multiple_of (div_ceil stripe_len data_shards) SHARD_ALIGN"

definition stripe_count :: "nat \<Rightarrow> nat \<Rightarrow> nat" where
  "stripe_count blob_len stripe_size = div_ceil blob_len stripe_size"

definition last_stripe_len :: "nat \<Rightarrow> nat \<Rightarrow> nat" where
  "last_stripe_len blob_len stripe_size =
     (if blob_len = 0 then 0
      else (case blob_len mod stripe_size of 0 \<Rightarrow> stripe_size | rem \<Rightarrow> rem))"

definition shard_physical_len :: "nat \<Rightarrow> nat \<Rightarrow> nat" where
  "shard_physical_len logical_len unit =
     (if unit = 0 \<or> logical_len = 0 then 0
      else div_ceil logical_len unit * HASH_LEN + logical_len)"

definition shard_logical_len :: "nat \<Rightarrow> nat \<Rightarrow> nat \<Rightarrow> nat" where
  "shard_logical_len blob_len stripe_size data_shards =
     (let stripes = stripe_count blob_len stripe_size in
      if stripes = 0 then 0
      else (stripes - 1) * unit_size stripe_size data_shards
             + unit_size (last_stripe_len blob_len stripe_size) data_shards)"

definition shard_physical_blob_len :: "nat \<Rightarrow> nat \<Rightarrow> nat \<Rightarrow> nat" where
  "shard_physical_blob_len blob_len stripe_size data_shards =
     stripe_count blob_len stripe_size * HASH_LEN
       + shard_logical_len blob_len stripe_size data_shards"

definition frame_offset :: "nat \<Rightarrow> nat \<Rightarrow> nat" where
  "frame_offset stripe_idx unit = stripe_idx * (HASH_LEN + unit)"

definition offset_to_stripe :: "nat \<Rightarrow> nat \<Rightarrow> nat" where
  "offset_to_stripe offset stripe_size = offset div stripe_size"

section \<open>Units\<close>

lemma SHARD_ALIGN_pos [simp]: "0 < SHARD_ALIGN"
  by (simp add: SHARD_ALIGN_def)

lemma HASH_LEN_pos [simp]: "0 < HASH_LEN"
  by (simp add: HASH_LEN_def)

lemma unit_size_0 [simp]: "unit_size 0 n = 0"
  by (simp add: unit_size_def)

lemma unit_size_dvd [layout_simps]: "SHARD_ALIGN dvd unit_size l n"
  by (simp add: unit_size_def next_multiple_of_dvd)

lemma unit_size_covers [layout_simps]: "0 < n \<Longrightarrow> l \<le> n * unit_size l n"
proof -
  assume n: "0 < n"
  have "l \<le> div_ceil l n * n" using n by (rule div_ceil_upper)
  also have "\<dots> \<le> unit_size l n * n"
    unfolding unit_size_def by (intro mult_le_mono1 next_multiple_of_ge)
  finally show ?thesis by (simp add: mult.commute)
qed

lemma unit_size_pos [layout_simps]: "0 < n \<Longrightarrow> 0 < l \<Longrightarrow> 0 < unit_size l n"
  unfolding unit_size_def by (intro next_multiple_of_pos div_ceil_pos)

lemma unit_size_even [layout_simps]: "even (unit_size l n)"
proof -
  have "2 dvd SHARD_ALIGN" by (simp add: SHARD_ALIGN_def)
  then show ?thesis using unit_size_dvd by (rule dvd_trans)
qed

lemma unit_size_less: "0 < n \<Longrightarrow> unit_size l n < l + 1 + SHARD_ALIGN"
proof -
  assume n: "0 < n"
  have "div_ceil l n \<le> l div n + 1" by (simp add: div_ceil_def)
  moreover have "l div n \<le> l" by simp
  moreover have "unit_size l n < div_ceil l n + SHARD_ALIGN"
    unfolding unit_size_def by (intro next_multiple_of_less) simp
  ultimately show ?thesis by linarith
qed

lemma unit_size_mono: "0 < n \<Longrightarrow> l \<le> m \<Longrightarrow> unit_size l n \<le> unit_size m n"
  unfolding unit_size_def by (intro next_multiple_of_mono div_ceil_mono)

section \<open>Stripes\<close>

lemma last_stripe_len_eq:
  "last_stripe_len b s =
     (if b = 0 then 0 else if b mod s = 0 then s else b mod s)"
  by (simp add: last_stripe_len_def split: nat.splits)

lemma last_stripe_len_le: "0 < s \<Longrightarrow> last_stripe_len b s \<le> s"
  by (simp add: last_stripe_len_eq less_imp_le)

lemma last_stripe_len_pos: "0 < s \<Longrightarrow> 0 < b \<Longrightarrow> 0 < last_stripe_len b s"
  by (simp add: last_stripe_len_eq)

lemma stripe_count_0 [simp]: "stripe_count 0 s = 0"
  by (simp add: stripe_count_def)

lemma stripe_count_pos: "0 < s \<Longrightarrow> 0 < b \<Longrightarrow> 0 < stripe_count b s"
  by (simp add: stripe_count_def div_ceil_pos)

text \<open>The full stripes and the last one partition the blob.\<close>

lemma stripes_partition:
  assumes "0 < s" and "0 < b"
  shows "(stripe_count b s - 1) * s + last_stripe_len b s = b"
proof (cases "b mod s = 0")
  case True
  then have e: "b div s * s = b" using div_mult_mod_eq [of b s] by simp
  then have "b div s \<noteq> 0" using assms(2) by (metis mult_0 less_irrefl)
  then obtain k where k: "b div s = Suc k" by (cases "b div s") auto
  show ?thesis using True e k assms
    by (simp add: stripe_count_def div_ceil_def last_stripe_len_eq)
next
  case False
  then show ?thesis using assms div_mult_mod_eq [of b s]
    by (simp add: stripe_count_def div_ceil_def last_stripe_len_eq)
qed

lemma offset_to_stripe_spec:
  assumes "0 < s" and "offset < b"
  shows "offset_to_stripe offset s < stripe_count b s"
    and "offset_to_stripe offset s * s \<le> offset"
    and "offset < (offset_to_stripe offset s + 1) * s"
proof -
  show 1: "offset_to_stripe offset s * s \<le> offset"
    by (simp add: offset_to_stripe_def)
  show "offset < (offset_to_stripe offset s + 1) * s"
    using assms(1) dividend_less_div_times [of s offset]
    by (simp add: offset_to_stripe_def algebra_simps)
  have "offset_to_stripe offset s * s < stripe_count b s * s"
    using 1 assms div_ceil_upper [of s b] unfolding stripe_count_def by linarith
  then show "offset_to_stripe offset s < stripe_count b s" by simp
qed

section \<open>Shard lengths\<close>

lemma shard_logical_len_0 [simp]: "shard_logical_len 0 s n = 0"
  by (simp add: shard_logical_len_def)

lemma shard_logical_len_eq:
  "0 < s \<Longrightarrow> 0 < b \<Longrightarrow> shard_logical_len b s n =
     (stripe_count b s - 1) * unit_size s n + unit_size (last_stripe_len b s) n"
  using stripe_count_pos [of s b] by (simp add: shard_logical_len_def Let_def)

text \<open>A shard's logical length is what its frames are cut from: \<open>data\<close> shards hold the blob.\<close>

lemma shard_logical_len_covers:
  assumes "0 < s" and "0 < n"
  shows "b \<le> n * shard_logical_len b s n"
proof (cases "b = 0")
  case False
  have "b = (stripe_count b s - 1) * s + last_stripe_len b s"
    using stripes_partition assms(1) False by simp
  also have "\<dots> \<le> (stripe_count b s - 1) * (n * unit_size s n) + n * unit_size (last_stripe_len b s) n"
    by (intro add_mono mult_le_mono2 unit_size_covers assms(2))
  also have "\<dots> = n * shard_logical_len b s n"
    using assms(1) False by (simp add: shard_logical_len_eq algebra_simps)
  finally show ?thesis .
qed simp

lemma shard_physical_len_framed:
  assumes "0 < s" and "0 < n" and "0 < b"
  shows "shard_physical_blob_len b s n = shard_physical_len (shard_logical_len b s n) (unit_size s n)"
proof -
  let ?u = "unit_size s n" and ?l = "unit_size (last_stripe_len b s) n"
  have u: "0 < ?u" using assms by (simp add: unit_size_pos)
  have l: "0 < ?l" using assms by (simp add: unit_size_pos last_stripe_len_pos)
  have le: "?l \<le> ?u" using assms by (simp add: unit_size_mono last_stripe_len_le)
  have len: "shard_logical_len b s n = (stripe_count b s - 1) * ?u + ?l"
    using assms by (simp add: shard_logical_len_eq)
  obtain k where k: "stripe_count b s = Suc k"
    using stripe_count_pos [of s b] assms by (cases "stripe_count b s") auto
  have "div_ceil (shard_logical_len b s n) ?u = stripe_count b s"
    by (rule div_ceil_unique) (use u l le len k in simp_all)
  then show ?thesis
    using u l len by (simp add: shard_physical_blob_len_def shard_physical_len_def)
qed

text \<open>No intermediate value exceeds 96 times the blob length.\<close>

lemma div_ceil_le_self: "0 < n \<Longrightarrow> div_ceil l n \<le> l"
proof (cases "l = 0")
  case False
  assume n: "0 < n"
  have "(div_ceil l n - 1) * 1 \<le> (div_ceil l n - 1) * n" using n by (intro mult_le_mono2) simp
  also have "\<dots> < l" using div_ceil_lower [of l n] False n by simp
  finally show ?thesis by simp
qed simp

lemma unit_size_le: "0 < n \<Longrightarrow> unit_size l n \<le> l + 63"
  using next_multiple_of_less [of SHARD_ALIGN "div_ceil l n"] div_ceil_le_self [of n l]
  by (simp add: unit_size_def SHARD_ALIGN_def)

lemma shard_physical_blob_len_bound:
  assumes "0 < s" and "0 < n"
  shows "shard_physical_blob_len b s n \<le> 96 * b"
proof (cases "b = 0")
  case True
  then show ?thesis by (simp add: shard_physical_blob_len_def)
next
  case False
  let ?c = "stripe_count b s"
  have c: "0 < ?c" "?c \<le> b"
    using assms False stripe_count_pos div_ceil_le_self [of s b] by (auto simp: stripe_count_def)
  have "shard_logical_len b s n = (?c - 1) * unit_size s n + unit_size (last_stripe_len b s) n"
    using assms False by (simp add: shard_logical_len_eq)
  also have "\<dots> \<le> (?c - 1) * (s + 63) + (last_stripe_len b s + 63)"
    by (intro add_mono mult_le_mono2 unit_size_le assms(2))
  also have "\<dots> = (?c - 1) * s + last_stripe_len b s + 63 * ?c"
    using c by (cases ?c) (simp_all add: algebra_simps)
  also have "\<dots> = b + 63 * ?c"
    using stripes_partition [of s b] assms False by simp
  finally show ?thesis using c by (simp add: shard_physical_blob_len_def HASH_LEN_def)
qed

end
