(* ===== verification/Ec_Erasure.thy ===== *)
theory Ec_Erasure
  imports Ec_Layout
begin

text \<open>
  The erasure coder of \<open>crates/epoch-ec/src/erasure.rs\<close>. The backend \<open>reed_solomon_simd\<close> is a
  pair of parameters, its \<open>encode\<close> and \<open>decode\<close>; what the coder relies on is \<open>rs_contract\<close>: any
  \<open>data\<close> of the shards of a stripe give back exactly the missing original shards. A panic of the
  source (an index out of range) is the value \<open>EcPanic\<close>.
\<close>

type_synonym rs_encode = "nat \<Rightarrow> nat \<Rightarrow> bytes list \<Rightarrow> (string, bytes list) result"
type_synonym rs_decode =
  "nat \<Rightarrow> nat \<Rightarrow> (nat \<times> bytes) list \<Rightarrow> (nat \<times> bytes) list \<Rightarrow> (string, (nat \<times> bytes) list) result"
type_synonym slots = "bytes option list"

datatype ec_error =
    InvalidCodeMode nat nat
  | EcShardCount nat nat
  | ShardLen nat
  | InconsistentShardLen
  | TooFewShards nat nat
  | Backend string
  | EcPanic

definition MAX_SHARDS :: nat where "MAX_SHARDS = 32768"

record erasure =
  data_shards :: nat
  parity_shards :: nat

definition erasure_new :: "nat \<Rightarrow> nat \<Rightarrow> (ec_error, erasure) result" where
  "erasure_new data parity =
     (if data = 0 \<or> parity = 0 \<or> MAX_SHARDS < data \<or> MAX_SHARDS < parity
      then Err (InvalidCodeMode data parity)
      else Ok \<lparr>data_shards = data, parity_shards = parity\<rparr>)"

definition total_shards :: "erasure \<Rightarrow> nat" where
  "total_shards ec = data_shards ec + parity_shards ec"

definition check_uniform_len :: "erasure \<Rightarrow> bytes list \<Rightarrow> (ec_error, nat) result" where
  "check_uniform_len ec shards =
     (case shards of
        [] \<Rightarrow> Err (TooFewShards 0 (data_shards ec))
      | first # rest \<Rightarrow>
          (let len = length first in
           if len = 0 \<or> len mod 2 \<noteq> 0 then Err (ShardLen len)
           else if list_all (\<lambda>s. length s = len) rest then Ok len
           else Err InconsistentShardLen))"

definition ec_encode :: "rs_encode \<Rightarrow> erasure \<Rightarrow> bytes list \<Rightarrow> (ec_error, bytes list) result" where
  "ec_encode rs_enc ec data =
     (if length data \<noteq> data_shards ec
      then Err (EcShardCount (data_shards ec) (length data))
      else and_then (check_uniform_len ec data) (\<lambda>_.
        map_err Backend (rs_enc (data_shards ec) (parity_shards ec) data)))"

text \<open>\<open>iter().filter(is_some).count()\<close>, and the enumerated present shards of a slice of slots.\<close>

definition present_count :: "slots \<Rightarrow> nat" where
  "present_count shards = length (filter (\<lambda>s. s \<noteq> None) shards)"

definition present_pairs :: "slots \<Rightarrow> (nat \<times> bytes) list" where
  "present_pairs shards =
     map (\<lambda>i. (i, the (shards ! i))) (filter (\<lambda>i. shards ! i \<noteq> None) [0..<length shards])"

definition fill_restored :: "slots \<Rightarrow> (nat \<times> bytes) list \<Rightarrow> (ec_error, slots) result" where
  "fill_restored shards restored =
     (if list_all (\<lambda>(idx, _). idx < length shards) restored
      then Ok (foldl (\<lambda>s (idx, shard). s[idx := Some shard]) shards restored)
      else Err EcPanic)"

definition reconstruct :: "rs_decode \<Rightarrow> erasure \<Rightarrow> slots \<Rightarrow> (ec_error, slots) result" where
  "reconstruct rs_dec ec shards =
     (let n = data_shards ec; present = present_count shards in
      if length shards \<noteq> total_shards ec
      then Err (EcShardCount (total_shards ec) (length shards))
      else if present < n then Err (TooFewShards present n)
      else if list_all (\<lambda>s. s \<noteq> None) (take n shards) then Ok shards
      else and_then (check_uniform_len ec (map the (filter (\<lambda>s. s \<noteq> None) shards))) (\<lambda>_.
        and_then (map_err Backend
            (rs_dec n (parity_shards ec) (present_pairs (take n shards)) (present_pairs (drop n shards))))
          (fill_restored shards)))"

section \<open>The backend's contract\<close>

text \<open>Any \<open>k\<close> of the \<open>k + m\<close> shards decode to exactly the original shards not supplied.\<close>

definition decodes :: "rs_decode \<Rightarrow> nat \<Rightarrow> nat \<Rightarrow> bytes list \<Rightarrow> bytes list \<Rightarrow> bool" where
  "decodes rs_dec k m data parity \<longleftrightarrow>
     (\<forall>P Q. k \<le> length (filter P [0..<k]) + length (filter Q [0..<m]) \<longrightarrow>
        (\<exists>restored. rs_dec k m (map (\<lambda>i. (i, data ! i)) (filter P [0..<k]))
                             (map (\<lambda>j. (j, parity ! j)) (filter Q [0..<m])) = Ok restored \<and>
          set restored = {(i, data ! i) | i. i < k \<and> \<not> P i}))"

definition rs_contract :: "rs_encode \<Rightarrow> rs_decode \<Rightarrow> nat \<Rightarrow> nat \<Rightarrow> bool" where
  "rs_contract rs_enc rs_dec k m \<longleftrightarrow>
     (\<forall>data len. length data = k \<and> (\<forall>d \<in> set data. length d = len) \<and> 0 < len \<and> even len \<longrightarrow>
        (\<exists>parity. rs_enc k m data = Ok parity \<and> length parity = m \<and> (\<forall>p \<in> set parity. length p = len) \<and>
          decodes rs_dec k m data parity))"

text \<open>A stripe: \<open>data\<close> original shards of one even, non-zero length.\<close>

definition stripe_ok :: "erasure \<Rightarrow> nat \<Rightarrow> bytes list \<Rightarrow> bool" where
  "stripe_ok ec len data \<longleftrightarrow>
     length data = data_shards ec \<and> (\<forall>d \<in> set data. length d = len) \<and> 0 < len \<and> even len"

text \<open>Slots that hold shards of \<open>full\<close> or nothing.\<close>

definition slots_of :: "bytes list \<Rightarrow> slots \<Rightarrow> bool" where
  "slots_of full shards \<longleftrightarrow> list_all2 (\<lambda>f s. s = None \<or> s = Some f) full shards"

lemma slots_of_length: "slots_of full shards \<Longrightarrow> length shards = length full"
  by (simp add: slots_of_def list_all2_lengthD)

lemma slots_of_nth:
  "slots_of full shards \<Longrightarrow> i < length full \<Longrightarrow> shards ! i = None \<or> shards ! i = Some (full ! i)"
  by (auto simp: slots_of_def list_all2_conv_all_nth)

lemma slots_of_append:
  assumes "slots_of (xs @ ys) shards"
  shows "slots_of xs (take (length xs) shards)" and "slots_of ys (drop (length xs) shards)"
  using assms by (auto simp: slots_of_def list_all2_append1)

lemma present_count_index:
  "present_count shards = length (filter (\<lambda>i. shards ! i \<noteq> None) [0..<length shards])"
proof -
  have "filter (\<lambda>s. s \<noteq> None) shards = filter (\<lambda>s. s \<noteq> None) (map ((!) shards) [0..<length shards])"
    by (simp only: map_nth)
  then show ?thesis by (simp add: present_count_def filter_map comp_def)
qed

lemma present_count_split: "present_count shards = present_count (take n shards) + present_count (drop n shards)"
  by (metis append_take_drop_id filter_append length_append present_count_def)

lemma present_pairs_slots:
  assumes "slots_of full shards"
  shows "present_pairs shards =
    map (\<lambda>i. (i, full ! i)) (filter (\<lambda>i. shards ! i \<noteq> None) [0..<length full])"
  using slots_of_nth [OF assms] slots_of_length [OF assms]
  by (force simp: present_pairs_def intro!: map_cong)

lemma slots_of_present:
  assumes "slots_of full shards" and "\<forall>f \<in> set full. length f = len"
  shows "\<forall>s \<in> set (map the (filter (\<lambda>s. s \<noteq> None) shards)). length s = len"
proof -
  have "length (the s) = len" if "s \<in> set shards" "s \<noteq> None" for s
  proof -
    obtain i where "i < length shards" "shards ! i = s" using \<open>s \<in> set shards\<close> by (auto simp: in_set_conv_nth)
    then show ?thesis
      using slots_of_nth [OF assms(1), of i] slots_of_length [OF assms(1)] that(2) assms(2) by auto
  qed
  then show ?thesis by auto
qed

lemma check_uniform_len_Ok:
  assumes "shards \<noteq> []" and "\<forall>s \<in> set shards. length s = len" and "0 < len" and "even len"
  shows "check_uniform_len ec shards = Ok len"
  using assms by (cases shards) (auto simp: check_uniform_len_def Let_def list_all_iff)

lemma foldl_fill:
  assumes "\<forall>(i, d) \<in> set restored. i < length shards \<and> f i = d"
  shows "length (foldl (\<lambda>s (i, d). s[i := Some d]) shards restored) = length shards"
    and "j < length shards \<Longrightarrow> foldl (\<lambda>s (i, d). s[i := Some d]) shards restored ! j =
      (if \<exists>d. (j, d) \<in> set restored then Some (f j) else shards ! j)"
  using assms by (induction restored rule: rev_induct) (auto simp: nth_list_update)

lemma ec_encode_Ok:
  assumes "rs_contract rs_enc rs_dec (data_shards ec) (parity_shards ec)" and "stripe_ok ec len data"
    and "0 < data_shards ec"
  obtains parity where "ec_encode rs_enc ec data = Ok parity" and "length parity = parity_shards ec"
    and "\<forall>p \<in> set parity. length p = len"
    and "decodes rs_dec (data_shards ec) (parity_shards ec) data parity"
proof -
  obtain parity where p: "rs_enc (data_shards ec) (parity_shards ec) data = Ok parity"
    "length parity = parity_shards ec" "\<forall>p \<in> set parity. length p = len"
    "decodes rs_dec (data_shards ec) (parity_shards ec) data parity"
    using assms(1,2) unfolding rs_contract_def stripe_ok_def by blast
  have "data \<noteq> []" using assms(2,3) by (auto simp: stripe_ok_def)
  then have "check_uniform_len ec data = Ok len"
    using assms(2) by (intro check_uniform_len_Ok) (auto simp: stripe_ok_def)
  then have "ec_encode rs_enc ec data = Ok parity"
    using assms(2) p(1) by (simp add: ec_encode_def stripe_ok_def)
  then show ?thesis using that p by blast
qed

lemma decodes_slots:
  assumes "decodes rs_dec k m data parity" and "length data = k" and "length parity = m"
    and "slots_of (data @ parity) shards" and "k \<le> present_count shards"
  obtains r where "rs_dec k m (present_pairs (take k shards)) (present_pairs (drop k shards)) = Ok r"
    and "set r = {(i, data ! i) | i. i < k \<and> shards ! i = None}"
proof -
  let ?P = "\<lambda>i. take k shards ! i \<noteq> None" and ?Q = "\<lambda>j. drop k shards ! j \<noteq> None"
  have s: "slots_of data (take k shards)" "slots_of parity (drop k shards)"
    using slots_of_append [OF assms(4)] assms(2) by auto
  have len: "length shards = k + m" using slots_of_length [OF assms(4)] assms(2,3) by simp
  have "k \<le> length (filter ?P [0..<k]) + length (filter ?Q [0..<m])"
    using assms(5) present_count_split [of shards k] len
    by (simp add: present_count_index [of "take k shards"] present_count_index [of "drop k shards"])
  then obtain r where r: "rs_dec k m (map (\<lambda>i. (i, data ! i)) (filter ?P [0..<k]))
        (map (\<lambda>j. (j, parity ! j)) (filter ?Q [0..<m])) = Ok r"
      "set r = {(i, data ! i) | i. i < k \<and> \<not> ?P i}"
    using assms(1) unfolding decodes_def by blast
  moreover have "{(i, data ! i) | i. i < k \<and> \<not> ?P i} = {(i, data ! i) | i. i < k \<and> shards ! i = None}"
    by (auto simp: nth_take)
  ultimately show ?thesis
    using that present_pairs_slots [OF s(1)] present_pairs_slots [OF s(2)] assms(2,3) by simp
qed

lemma fill_restored_spec:
  assumes "set r = {(i, data ! i) | i. i < n \<and> shards ! i = None}" and "n \<le> length shards"
  obtains out where "fill_restored shards r = Ok out" and "length out = length shards"
    and "\<forall>j < length shards. out ! j = (if j < n \<and> shards ! j = None then Some (data ! j) else shards ! j)"
proof -
  have in_range: "\<forall>(i, d) \<in> set r. i < length shards \<and> data ! i = d" using assms by auto
  let ?out = "foldl (\<lambda>s (i, d). s[i := Some d]) shards r"
  have "fill_restored shards r = Ok ?out"
    using in_range by (auto simp: fill_restored_def list_all_iff)
  moreover have "\<forall>j < length shards. ?out ! j = (if j < n \<and> shards ! j = None then Some (data ! j) else shards ! j)"
    using foldl_fill(2) [OF in_range] assms(1) by simp
  ultimately show ?thesis using that foldl_fill(1) [OF in_range] by blast
qed

lemma reconstruct_correct:
  assumes con: "rs_contract rs_enc rs_dec (data_shards ec) (parity_shards ec)"
    and ok: "stripe_ok ec len data" and pos: "0 < data_shards ec"
    and enc: "ec_encode rs_enc ec data = Ok parity"
    and slots: "slots_of (data @ parity) shards" and many: "data_shards ec \<le> present_count shards"
  obtains out where "reconstruct rs_dec ec shards = Ok out" and "length out = total_shards ec"
    and "\<forall>i < data_shards ec. out ! i = Some (data ! i)"
    and "\<forall>i. data_shards ec \<le> i \<and> i < total_shards ec \<longrightarrow> out ! i = shards ! i"
proof -
  let ?n = "data_shards ec" and ?m = "parity_shards ec"
  obtain parity' where "ec_encode rs_enc ec data = Ok parity'" and p: "length parity' = ?m"
      "\<forall>p \<in> set parity'. length p = len" "decodes rs_dec ?n ?m data parity'"
    by (rule ec_encode_Ok [OF con ok pos])
  then have "parity' = parity" using enc by simp
  note p = p [unfolded this]
  have dn: "length data = ?n" and dl: "\<forall>d \<in> set data. length d = len" "0 < len" "even len"
    using ok by (auto simp: stripe_ok_def)
  have len: "length shards = total_shards ec"
    using slots_of_length [OF slots] dn p(1) by (simp add: total_shards_def)
  have slot: "shards ! i = None \<or> shards ! i = Some (data ! i)" if "i < ?n" for i
    using slots_of_nth [OF slots, of i] dn that by (simp add: nth_append)
  obtain out where 1: "reconstruct rs_dec ec shards = Ok out" and lo: "length out = length shards"
    and nth: "\<forall>j < length shards. out ! j = (if j < ?n \<and> shards ! j = None then Some (data ! j) else shards ! j)"
  proof (cases "list_all (\<lambda>s. s \<noteq> None) (take ?n shards)")
    case True
    then have "\<forall>j < ?n. shards ! j \<noteq> None" using len by (auto simp: list_all_length total_shards_def)
    moreover have "reconstruct rs_dec ec shards = Ok shards"
      using len many True by (simp add: reconstruct_def Let_def)
    ultimately show ?thesis by (intro that [of shards]) auto
  next
    case False
    obtain r where r: "rs_dec ?n ?m (present_pairs (take ?n shards)) (present_pairs (drop ?n shards)) = Ok r"
      and rs: "set r = {(i, data ! i) | i. i < ?n \<and> shards ! i = None}"
      by (rule decodes_slots [OF p(3) dn p(1) slots many])
    have ne: "filter (\<lambda>s. s \<noteq> None) shards \<noteq> []" using many pos by (auto simp: present_count_def)
    have all: "\<forall>f \<in> set (data @ parity). length f = len" using dl(1) p(2) by auto
    have "check_uniform_len ec (map the (filter (\<lambda>s. s \<noteq> None) shards)) = Ok len"
      using ne by (intro check_uniform_len_Ok slots_of_present [OF slots all] dl) simp
    then have rec: "reconstruct rs_dec ec shards = fill_restored shards r"
      using len many False r by (simp add: reconstruct_def Let_def)
    have "?n \<le> length shards" using len by (simp add: total_shards_def)
    then obtain out where "fill_restored shards r = Ok out" "length out = length shards"
      "\<forall>j < length shards. out ! j = (if j < ?n \<and> shards ! j = None then Some (data ! j) else shards ! j)"
      by (rule fill_restored_spec [OF rs])
    then show ?thesis using rec by (intro that [of out]) simp_all
  qed
  have "\<forall>i < ?n. out ! i = Some (data ! i)"
    using nth slot len by (fastforce simp: total_shards_def)
  then show ?thesis using that [OF 1] lo nth len by simp
qed

section \<open>A concrete backend\<close>

text \<open>
  The one-data-shard case (the source's Replica-3 is \<open>data = 1, parity = 2\<close>): every recovery shard
  is a copy of the original. It satisfies the contract, so the contract can hold.
\<close>

definition replica_encode :: rs_encode where
  "replica_encode k m data = Ok (replicate m (hd data))"

definition replica_decode :: rs_decode where
  "replica_decode k m originals recoveries =
     (case originals of
        [] \<Rightarrow> (case recoveries of [] \<Rightarrow> Err [] | (_, d) # _ \<Rightarrow> Ok [(0, d)])
      | _ \<Rightarrow> Ok [])"

lemma replica_contract: "rs_contract replica_encode replica_decode 1 m"
proof -
  have "decodes replica_decode 1 m [d] (replicate m d)" for d
    unfolding decodes_def
  proof (intro allI impI)
    fix P Q :: "nat \<Rightarrow> bool"
    assume many: "1 \<le> length (filter P [0..<1]) + length (filter Q [0..<m])"
    show "\<exists>r. replica_decode 1 m (map (\<lambda>i. (i, [d] ! i)) (filter P [0..<1]))
        (map (\<lambda>j. (j, replicate m d ! j)) (filter Q [0..<m])) = Ok r \<and>
        set r = {(i, [d] ! i) | i. i < 1 \<and> \<not> P i}"
    proof (cases "P 0")
      case True
      then show ?thesis by (simp add: replica_decode_def)
    next
      case False
      then obtain j js where j: "filter Q [0..<m] = j # js"
        using many by (cases "filter Q [0..<m]") auto
      then have "j \<in> set (filter Q [0..<m])" by simp
      then have "j < m" by simp
      then show ?thesis using False j by (auto simp: replica_decode_def)
    qed
  qed
  then show ?thesis
    by (auto simp: rs_contract_def replica_encode_def length_Suc_conv)
qed

section \<open>Properties\<close>

text \<open>C22: given a backend that meets its contract, \<open>reconstruct\<close> succeeds on every stripe that
  \<open>encode\<close> produced and of which at least \<open>data\<close> shards survive; afterwards every data slot holds
  the original data shard and the parity slots are unchanged.\<close>

theorem reconstruct_restores:
  assumes "rs_contract rs_enc rs_dec (data_shards ec) (parity_shards ec)"
    and "erasure_new d p = Ok ec" and "stripe_ok ec len data"
    and "ec_encode rs_enc ec data = Ok parity" and "slots_of (data @ parity) shards"
    and "data_shards ec \<le> present_count shards"
  shows "\<exists>out. reconstruct rs_dec ec shards = Ok out \<and> length out = total_shards ec \<and>
    (\<forall>i < data_shards ec. out ! i = Some (data ! i)) \<and>
    (\<forall>i. data_shards ec \<le> i \<and> i < total_shards ec \<longrightarrow> out ! i = shards ! i)"
proof -
  have pos: "0 < data_shards ec" using assms(2) by (auto simp: erasure_new_def split: if_splits)
  show ?thesis by (rule reconstruct_correct [OF assms(1,3) pos assms(4-6)]) blast
qed

theorem reconstruct_restores_witness:
  "\<exists>out. reconstruct replica_decode \<lparr>data_shards = 1, parity_shards = 2\<rparr> [None, None, Some [1, 2]] = Ok out \<and>
     out ! 0 = Some [1, 2]"
  using reconstruct_restores
      [of replica_encode replica_decode "\<lparr>data_shards = 1, parity_shards = 2\<rparr>" 1 2 2 "[[1, 2]]"
        "[[1, 2], [1, 2]]" "[None, None, Some [1, 2]]"] replica_contract [of 2]
  by (auto simp: erasure_new_def MAX_SHARDS_def stripe_ok_def ec_encode_def check_uniform_len_def
      replica_encode_def numeral_2_eq_2 slots_of_def present_count_def)

text \<open>C23: \<open>reconstruct\<close> on the right number of slots fails with \<open>TooFewShards\<close> exactly when fewer
  than \<open>data\<close> slots are filled, and then reports both counts.\<close>

theorem reconstruct_too_few:
  assumes "erasure_new d p = Ok ec" and "length shards = d + p"
  shows "reconstruct rs_dec ec shards = Err (TooFewShards have need) \<longleftrightarrow>
    present_count shards < d \<and> have = present_count shards \<and> need = d"
proof -
  have ec: "data_shards ec = d" "parity_shards ec = p" "0 < d"
    using assms(1) by (auto simp: erasure_new_def split: if_splits)
  have "check_uniform_len ec (map the (filter (\<lambda>s. s \<noteq> None) shards)) \<noteq> Err (TooFewShards have need)"
    if "d \<le> present_count shards"
    using that ec(3) by (cases "filter (\<lambda>s. s \<noteq> None) shards")
      (auto simp: check_uniform_len_def Let_def present_count_def)
  then show ?thesis
    using assms(2) ec by (auto simp: reconstruct_def Let_def total_shards_def result_simps
        fill_restored_def split: if_splits)
qed

theorem reconstruct_too_few_witness:
  "reconstruct replica_decode \<lparr>data_shards = 1, parity_shards = 2\<rparr> [None, None, None] = Err (TooFewShards 0 1)"
  by (subst reconstruct_too_few [of 1 2])
    (simp_all add: erasure_new_def MAX_SHARDS_def present_count_def)

end
