(* ===== verification/Ids.thy ===== *)
theory Ids
  imports Prelude
begin

text \<open>
  The identity vocabulary of the workspace, \<open>crates/epoch-proto\<close>: the newtype ids and their bit
  layouts (\<open>id.rs\<close>), code-mode parameters (\<open>code_mode.rs\<close>), inode composition
  (\<open>consts.rs\<close>) and the cross-component error codes (\<open>error.rs\<close>).

  A newtype over an integer is a one-constructor datatype over the word of that width. \<open>ExtentId\<close>
  wraps \<open>[u8; 16]\<close>; the model wraps the 128-bit word with those big-endian bytes, which is the same
  set of values in the same order (\<open>extent_id_order_bytes\<close>).
\<close>

section \<open>Error codes (error.rs)\<close>

datatype epoch_error =
    E_Sealed | E_ChunkFull | E_DiskBroken | E_ShardNotFound | E_NotLeader | E_PartitionMoved
  | E_Rebuilding | E_AlreadyExists | E_Busy | E_OutOfSpace | E_Internal

fun wire_code :: "epoch_error \<Rightarrow> u16" where
  "wire_code E_Sealed = 1"
| "wire_code E_ChunkFull = 2"
| "wire_code E_DiskBroken = 3"
| "wire_code E_ShardNotFound = 4"
| "wire_code E_NotLeader = 5"
| "wire_code E_PartitionMoved = 6"
| "wire_code E_Rebuilding = 7"
| "wire_code E_AlreadyExists = 8"
| "wire_code E_Busy = 10"
| "wire_code E_OutOfSpace = 11"
| "wire_code E_Internal = 9"

definition from_wire_code :: "u16 \<Rightarrow> epoch_error" where
  "from_wire_code code =
     (if code = 1 then E_Sealed
      else if code = 2 then E_ChunkFull
      else if code = 3 then E_DiskBroken
      else if code = 4 then E_ShardNotFound
      else if code = 5 then E_NotLeader
      else if code = 6 then E_PartitionMoved
      else if code = 7 then E_Rebuilding
      else if code = 8 then E_AlreadyExists
      else if code = 10 then E_Busy
      else if code = 11 then E_OutOfSpace
      else E_Internal)"

section \<open>Newtype ids (id.rs)\<close>

definition SHARD_INDEX_BITS :: nat where "SHARD_INDEX_BITS = 8"
definition SHARD_EPOCH_BITS :: nat where "SHARD_EPOCH_BITS = 24"
definition MAX_SHARD_EPOCH :: u32 where "MAX_SHARD_EPOCH = push_bit SHARD_EPOCH_BITS 1 - 1"

datatype chunk_id = ChunkId (chunk_get: u32)
datatype writer_token = WriterToken (token_get: u32)
datatype disk_id = DiskId (disk_get: u32)
datatype node_id = NodeId (node_get: u32)
datatype partition_id = PartitionId (partition_get: u64)
datatype bucket_id = BucketId (bucket_get: u64)

subsection \<open>BlobId\<close>

datatype blob_id = BlobId (blob_as_u64: u64)

definition blob_new :: "writer_token \<Rightarrow> u32 \<Rightarrow> blob_id" where
  "blob_new token seq = BlobId (push_bit 32 (ucast (token_get token)) OR ucast seq)"

definition blob_writer_token :: "blob_id \<Rightarrow> writer_token" where
  "blob_writer_token b = WriterToken (ucast (drop_bit 32 (blob_as_u64 b)))"

definition blob_seq :: "blob_id \<Rightarrow> u32" where
  "blob_seq b = ucast (blob_as_u64 b)"

definition blob_to_be_bytes :: "blob_id \<Rightarrow> bytes" where
  "blob_to_be_bytes b = to_be_bytes 8 (blob_as_u64 b)"

subsection \<open>ShardId\<close>

datatype shard_id = ShardId (shard_as_u64: u64)

definition shard_try_new :: "chunk_id \<Rightarrow> byte \<Rightarrow> u32 \<Rightarrow> (epoch_error, shard_id) result" where
  "shard_try_new chunk index epoch =
     (if epoch > MAX_SHARD_EPOCH then Err E_Internal
      else Ok (ShardId (push_bit 32 (ucast (chunk_get chunk))
                        OR push_bit SHARD_EPOCH_BITS (ucast index)
                        OR ucast epoch)))"

text \<open>\<open>ShardId::new\<close> panics where \<open>try_new\<close> fails: \<^const>\<open>None\<close> is the panic.\<close>

definition shard_new :: "chunk_id \<Rightarrow> byte \<Rightarrow> u32 \<Rightarrow> shard_id option" where
  "shard_new chunk index epoch =
     (case shard_try_new chunk index epoch of Inl _ \<Rightarrow> None | Inr s \<Rightarrow> Some s)"

definition shard_chunk_id :: "shard_id \<Rightarrow> chunk_id" where
  "shard_chunk_id s = ChunkId (ucast (drop_bit 32 (shard_as_u64 s)))"

definition shard_index :: "shard_id \<Rightarrow> byte" where
  "shard_index s = ucast (drop_bit SHARD_EPOCH_BITS (shard_as_u64 s) AND 0xFF)"

definition shard_epoch :: "shard_id \<Rightarrow> u32" where
  "shard_epoch s = ucast (shard_as_u64 s AND ucast MAX_SHARD_EPOCH)"

definition shard_prefix :: "shard_id \<Rightarrow> u64" where
  "shard_prefix s = shard_as_u64 s AND NOT (ucast MAX_SHARD_EPOCH)"

definition shard_to_be_bytes :: "shard_id \<Rightarrow> bytes" where
  "shard_to_be_bytes s = to_be_bytes 8 (shard_as_u64 s)"

subsection \<open>ExtentId\<close>

datatype extent_id = ExtentId (extent_raw: u128)

definition extent_from_bytes :: "bytes \<Rightarrow> extent_id" where
  "extent_from_bytes bs = ExtentId (from_be_bytes bs)"

definition extent_as_bytes :: "extent_id \<Rightarrow> bytes" where
  "extent_as_bytes e = to_be_bytes 16 (extent_raw e)"

definition extent_new :: "shard_id \<Rightarrow> i64 \<Rightarrow> extent_id" where
  "extent_new shard create_ts =
     extent_from_bytes (shard_to_be_bytes shard @ to_be_bytes 8 create_ts)"

definition extent_shard_id :: "extent_id \<Rightarrow> shard_id" where
  "extent_shard_id e = ShardId (from_be_bytes (take 8 (extent_as_bytes e)))"

definition extent_create_ts :: "extent_id \<Rightarrow> i64" where
  "extent_create_ts e = from_be_bytes (drop 8 (extent_as_bytes e))"

section \<open>Code modes (code_mode.rs)\<close>

datatype code_mode_id = CodeModeId (code_mode_get: u16)

record code_mode =
  cm_id :: code_mode_id
  cm_data :: byte
  cm_parity :: byte
  cm_stripe_size :: u32
  cm_blob_size :: u64

definition shards_total :: "code_mode \<Rightarrow> u16" where
  "shards_total m = ucast (cm_data m) + ucast (cm_parity m)"

section \<open>Inode composition (consts.rs)\<close>

definition ROOT_INO :: u64 where "ROOT_INO = 1"
definition HIER_BUCKET_BIT :: u64 where "HIER_BUCKET_BIT = push_bit 63 1"
definition INO_PARTITION_TAG_BITS :: nat where "INO_PARTITION_TAG_BITS = 16"
definition INO_COUNTER_BITS :: nat where "INO_COUNTER_BITS = 64 - INO_PARTITION_TAG_BITS"

definition compose_ino :: "u32 \<Rightarrow> u64 \<Rightarrow> u64 option" where
  "compose_ino partition_tag counter =
     (if (ucast partition_tag :: u64) \<ge> push_bit INO_PARTITION_TAG_BITS 1
         \<or> counter \<ge> push_bit INO_COUNTER_BITS 1
      then None
      else Some (push_bit INO_COUNTER_BITS (ucast partition_tag) OR counter))"

definition ino_partition_tag :: "u64 \<Rightarrow> u32" where
  "ino_partition_tag ino = ucast (drop_bit INO_COUNTER_BITS ino)"

section \<open>Orders\<close>

text \<open>The derived \<open>Ord\<close> of the newtypes compares the wrapped value.\<close>

instantiation blob_id :: linorder
begin
definition less_eq_blob_id :: "blob_id \<Rightarrow> blob_id \<Rightarrow> bool" where
  "less_eq_blob_id a b \<longleftrightarrow> blob_as_u64 a \<le> blob_as_u64 b"
definition less_blob_id :: "blob_id \<Rightarrow> blob_id \<Rightarrow> bool" where
  "less_blob_id a b \<longleftrightarrow> blob_as_u64 a < blob_as_u64 b"
instance
  by standard (auto simp: less_eq_blob_id_def less_blob_id_def blob_id.expand)
end

instantiation extent_id :: linorder
begin
definition less_eq_extent_id :: "extent_id \<Rightarrow> extent_id \<Rightarrow> bool" where
  "less_eq_extent_id a b \<longleftrightarrow> extent_raw a \<le> extent_raw b"
definition less_extent_id :: "extent_id \<Rightarrow> extent_id \<Rightarrow> bool" where
  "less_extent_id a b \<longleftrightarrow> extent_raw a < extent_raw b"
instance
  by standard (auto simp: less_eq_extent_id_def less_extent_id_def extent_id.expand)
end

section \<open>Properties\<close>

subsection \<open>Helper lemmas\<close>

lemma bit_of_small:
  fixes e :: "'a::len word"
  assumes "unat e < 2 ^ n" and "bit e i"
  shows "i < n"
proof (rule ccontr)
  assume "\<not> i < n"
  moreover have "take_bit n e = e"
    using assms(1) by (simp add: word_unat_eq_iff unsigned_take_bit_eq take_bit_nat_eq_self)
  ultimately have "\<not> bit e i" by (metis bit_take_bit_iff)
  with assms(2) show False by simp
qed

lemma MAX_SHARD_EPOCH_mask: "MAX_SHARD_EPOCH = mask 24"
  by (simp add: MAX_SHARD_EPOCH_def SHARD_EPOCH_BITS_def mask_eq_exp_minus_1 push_bit_eq_mult)

lemma bit_MAX_SHARD_EPOCH: "bit MAX_SHARD_EPOCH i \<longleftrightarrow> i < 24"
  by (auto simp: MAX_SHARD_EPOCH_mask bit_simps)

lemma and_0xFF: "(w :: u64) AND 0xFF = take_bit 8 w"
  by (simp add: take_bit_eq_mask mask_eq_exp_minus_1)

lemma u32_le_mask24: "e \<le> (mask 24 :: u32) \<longleftrightarrow> unat e < 2 ^ 24"
  by (auto simp: word_le_nat_alt mask_eq_exp_minus_1)

lemma shard_try_new_Ok:
  "shard_try_new c i e = Inr s \<longleftrightarrow>
     e \<le> mask 24 \<and> s = ShardId (push_bit 32 (ucast (chunk_get c)) OR push_bit 24 (ucast i) OR ucast e)"
  by (auto simp: shard_try_new_def MAX_SHARD_EPOCH_mask SHARD_EPOCH_BITS_def)

lemma bit_byte: "bit (b :: byte) i \<Longrightarrow> i < 8"
  using bit_imp_le_length by force

lemma bit_u32: "bit (x :: u32) i \<Longrightarrow> i < 32"
  using bit_imp_le_length by force

lemma shard_fields:
  assumes "shard_try_new c i e = Inr s"
  shows "shard_chunk_id s = c" and "shard_index s = i" and "shard_epoch s = e"
    and "shard_prefix s = push_bit 32 (ucast (chunk_get c)) OR push_bit 24 (ucast i)"
proof -
  have e: "e \<le> mask 24"
    and s: "shard_as_u64 s = push_bit 32 (ucast (chunk_get c)) OR push_bit 24 (ucast i) OR ucast e"
    using assms by (auto simp: shard_try_new_Ok)
  have be: "bit e n \<Longrightarrow> n < 24" for n using e [unfolded u32_le_mask24] by (rule bit_of_small)
  have "ucast (drop_bit 32 (shard_as_u64 s)) = chunk_get c"
    by (rule bit_word_eqI) (auto simp: s bit_simps dest: be bit_byte)
  then show "shard_chunk_id s = c" by (simp add: shard_chunk_id_def)
  show "shard_index s = i" unfolding shard_index_def SHARD_EPOCH_BITS_def
    by (rule bit_word_eqI) (auto simp: s bit_simps and_0xFF dest: be)
  show "shard_epoch s = e" unfolding shard_epoch_def
    by (rule bit_word_eqI) (auto simp: s bit_simps bit_MAX_SHARD_EPOCH dest: be)
  show "shard_prefix s = push_bit 32 (ucast (chunk_get c)) OR push_bit 24 (ucast i)"
    unfolding shard_prefix_def
    by (rule bit_word_eqI) (auto simp: s bit_simps bit_MAX_SHARD_EPOCH dest: be)
qed

lemma blob_fields [simp]:
  "blob_writer_token (blob_new t q) = t"
  "blob_seq (blob_new t q) = q"
proof -
  have "ucast (drop_bit 32 (push_bit 32 (ucast (token_get t)) OR ucast q :: u64)) = token_get t"
    by (rule bit_word_eqI) (auto simp: bit_simps dest: bit_u32)
  then show "blob_writer_token (blob_new t q) = t"
    by (simp add: blob_writer_token_def blob_new_def)
  show "blob_seq (blob_new t q) = q" unfolding blob_seq_def blob_new_def
    by (rule bit_word_eqI) (auto simp: bit_simps)
qed

lemma blob_new_inject: "blob_new t q = blob_new t' q' \<longleftrightarrow> t = t' \<and> q = q'"
  by (metis blob_fields)

lemma length_extent_as_bytes [simp, byte_simps]: "length (extent_as_bytes e) = 16"
  by (simp add: extent_as_bytes_def)

lemma extent_from_as_bytes [simp, byte_simps]: "extent_from_bytes (extent_as_bytes e) = e"
  by (cases e) (simp add: extent_from_bytes_def extent_as_bytes_def)

lemma extent_as_from_bytes [byte_simps]: "length bs = 16 \<Longrightarrow> extent_as_bytes (extent_from_bytes bs) = bs"
  by (simp add: extent_from_bytes_def extent_as_bytes_def to_from_be_bytes)

lemma extent_as_bytes_inject: "extent_as_bytes a = extent_as_bytes b \<longleftrightarrow> a = b"
  by (metis extent_from_as_bytes)

lemma extent_as_bytes_new:
  "extent_as_bytes (extent_new s t) = shard_to_be_bytes s @ to_be_bytes 8 t"
  by (simp add: extent_new_def shard_to_be_bytes_def extent_as_from_bytes)

lemma extent_fields [simp]:
  "extent_shard_id (extent_new s t) = s"
  "extent_create_ts (extent_new s t) = t"
  by (simp_all add: extent_shard_id_def extent_create_ts_def extent_as_bytes_new shard_to_be_bytes_def)

lemma extent_new_inject: "extent_new s t = extent_new s' t' \<longleftrightarrow> s = s' \<and> t = t'"
  by (metis extent_fields)

lemma extent_id_order_bytes: "a < b \<longleftrightarrow> extent_as_bytes a < extent_as_bytes b"
  by (simp add: less_extent_id_def extent_as_bytes_def to_be_bytes_order)

lemma blob_id_order_bytes: "a < b \<longleftrightarrow> blob_to_be_bytes a < blob_to_be_bytes b"
  by (simp add: less_blob_id_def blob_to_be_bytes_def to_be_bytes_order)

lemma append_less_iff:
  "length xs = length ys \<Longrightarrow> xs @ us < ys @ vs \<longleftrightarrow> xs < ys \<or> xs = ys \<and> us < (vs :: 'a::linorder list)"
  by (induction xs ys rule: list_induct2) auto

lemma extent_new_order:
  "extent_new s t < extent_new s' t' \<longleftrightarrow>
     shard_as_u64 s < shard_as_u64 s' \<or> s = s' \<and> t < t'"
proof -
  have "shard_to_be_bytes s = shard_to_be_bytes s' \<longleftrightarrow> s = s'"
    by (cases s; cases s') (simp add: shard_to_be_bytes_def to_be_bytes_inject)
  then show ?thesis
    by (auto simp: extent_id_order_bytes extent_as_bytes_new append_less_iff
        shard_to_be_bytes_def to_be_bytes_order)
qed

lemma from_wire_code_wire_code [simp]: "from_wire_code (wire_code e) = e"
  by (cases e) (simp_all add: from_wire_code_def)

lemma INO_bits: "INO_PARTITION_TAG_BITS = 16" "INO_COUNTER_BITS = 48"
  by (simp_all add: INO_PARTITION_TAG_BITS_def INO_COUNTER_BITS_def)

lemma compose_ino_Some:
  "compose_ino tag c = Some ino \<longleftrightarrow>
     tag < push_bit 16 1 \<and> c < push_bit 48 1 \<and> ino = push_bit 48 (ucast tag) OR c"
proof -
  have "(ucast tag :: u64) < push_bit 16 1 \<longleftrightarrow> tag < push_bit 16 1"
    by (simp add: push_bit_eq_mult word_less_nat_alt unat_ucast_up)
  then show ?thesis by (auto simp: compose_ino_def INO_bits not_le)
qed

section \<open>Properties\<close>

text \<open>\<open>ShardId::try_new\<close> accepts exactly the epochs up to \<open>MAX_SHARD_EPOCH\<close> (a larger one is an
  \<open>Internal\<close> error, on which \<open>new\<close> panics), the accessors read back the three fields, and two shard
  ids have the same \<open>shard_prefix\<close> exactly when they agree on chunk and index, whatever their epochs.\<close>

theorem shard_id_fields:
  "(MAX_SHARD_EPOCH < e \<longleftrightarrow> shard_try_new c i e = Err E_Internal) \<and>
   (shard_new c i e = None \<longleftrightarrow> MAX_SHARD_EPOCH < e) \<and>
   (\<forall>s. shard_new c i e = Some s \<longrightarrow>
      shard_chunk_id s = c \<and> shard_index s = i \<and> shard_epoch s = e \<and>
      (\<forall>c' i' e' s'. shard_new c' i' e' = Some s' \<longrightarrow>
         (shard_prefix s = shard_prefix s' \<longleftrightarrow> c = c' \<and> i = i')))"
proof (intro conjI allI impI)
  show "MAX_SHARD_EPOCH < e \<longleftrightarrow> shard_try_new c i e = Err E_Internal"
    by (simp add: shard_try_new_def)
  show "shard_new c i e = None \<longleftrightarrow> MAX_SHARD_EPOCH < e"
    by (simp add: shard_new_def shard_try_new_def)
next
  fix s assume "shard_new c i e = Some s"
  then have s: "shard_try_new c i e = Ok s" by (simp add: shard_new_def split: sum.splits)
  then show "shard_chunk_id s = c" "shard_index s = i" "shard_epoch s = e" by (rule shard_fields)+
  fix c' i' e' s' assume "shard_new c' i' e' = Some s'"
  then have s': "shard_try_new c' i' e' = Ok s'" by (simp add: shard_new_def split: sum.splits)
  have zero: "shard_try_new x y 0 = Ok (ShardId (push_bit 32 (ucast (chunk_get x)) OR push_bit 24 (ucast y)))" for x y
    by (simp add: shard_try_new_Ok)
  show "shard_prefix s = shard_prefix s' \<longleftrightarrow> c = c' \<and> i = i'"
    using shard_fields [OF s] shard_fields [OF s'] shard_fields(1,2) [OF zero [of c i]]
      shard_fields(1,2) [OF zero [of c' i']] by metis
qed

theorem shard_id_fields_witness:
  "\<exists>s. shard_new (ChunkId 7) 3 5 = Some s \<and> shard_chunk_id s = ChunkId 7 \<and> shard_index s = 3 \<and> shard_epoch s = 5"
proof -
  obtain s where s: "shard_new (ChunkId 7) 3 5 = Some s"
    by (simp add: shard_new_def shard_try_new_def MAX_SHARD_EPOCH_def SHARD_EPOCH_BITS_def)
  then show ?thesis using shard_id_fields [of 5 "ChunkId 7" 3] by blast
qed

lemma sint_nonneg_uint: "0 \<le> sint (w :: 64 word) \<Longrightarrow> sint w = uint w"
proof -
  assume nn: "0 \<le> sint w"
  have "take_bit 64 (uint w) = uint w" using uint_lt2p [of w] by (simp add: take_bit_int_eq_self)
  then have e: "sint w = uint w - 2 ^ 64 * of_bool (bit (uint w) 63)"
    by (simp add: sint_uint signed_take_bit_eq_take_bit_minus)
  have "uint w < 2 ^ 64" using uint_lt2p [of w] by simp
  then show ?thesis using e nn by (cases "bit (uint w) 63") auto
qed

text \<open>extent ids, as index keys, are ordered first by shard and then by creation time: the
  byte-wise key order is the order of the ids, and on one shard a later non-negative timestamp
  always gives the greater id, so the current extent of a shard is the last one of its key range.\<close>

theorem extent_id_order:
  "(a < b \<longleftrightarrow> extent_as_bytes a < extent_as_bytes b) \<and>
   (0 \<le> sint t \<and> 0 \<le> sint t' \<longrightarrow>
      (extent_new s t < extent_new s' t' \<longleftrightarrow>
         shard_as_u64 s < shard_as_u64 s' \<or> s = s' \<and> sint t < sint t'))"
proof -
  have "sint t < sint t' \<longleftrightarrow> t < t'" if "0 \<le> sint t" "0 \<le> sint t'"
    using that sint_nonneg_uint by (simp add: word_less_def)
  then show ?thesis
    using extent_id_order_bytes [of a b] extent_new_order [of s t s' t'] by blast
qed

theorem extent_id_order_witness:
  "extent_new (ShardId 9) 4 < extent_new (ShardId 9) 5"
  using conjunct2 [OF extent_id_order [of "ExtentId 0" "ExtentId 1" 4 5 "ShardId 9" "ShardId 9"]]
  by simp

end
