(* ===== verification/Gateway_Code.thy ===== *)
theory Gateway_Code
  imports Ec_Erasure Ids
begin

text \<open>
  Object-coding metadata of \<open>crates/epoch-gateway/src/code.rs\<close> and the gateway's error type with
  its S3 mapping, \<open>crates/epoch-gateway/src/error.rs\<close>. \<open>GW_Panic\<close> stands for a panic of the
  source (a slice index out of range, or an \<open>expect\<close>).
\<close>

datatype gateway_error =
    GW_Ec ec_error
  | InvalidSizing nat nat
  | GW_ShardCount nat nat
  | QuorumNotMet nat nat
  | NoWritableChunk
  | GW_Writer string
  | GW_Pd string
  | GW_Meta string
  | DirFileConflict
  | AdmissionTooLarge nat nat
  | OutOfSpace
  | RangeNotSatisfiable u64
  | LengthMismatch nat nat
  | GW_Panic

datatype s3_code =
  EntityTooLarge | InvalidArgument | ServiceUnavailable | InsufficientStorage | InvalidRange | InternalError

fun to_s3_error :: "gateway_error \<Rightarrow> s3_code" where
  "to_s3_error (AdmissionTooLarge _ _) = EntityTooLarge"
| "to_s3_error DirFileConflict = InvalidArgument"
| "to_s3_error NoWritableChunk = ServiceUnavailable"
| "to_s3_error OutOfSpace = InsufficientStorage"
| "to_s3_error (RangeNotSatisfiable _) = InvalidRange"
| "to_s3_error (GW_Meta _) = ServiceUnavailable"
| "to_s3_error _ = InternalError"

text \<open>The gateway's own \<open>CodeMode\<close> (not the registry entry of \<open>epoch-proto\<close>).\<close>

record gw_code_mode =
  gw_data :: nat
  gw_parity :: nat
  gw_stripe_size :: nat
  gw_blob_size :: nat

definition code_mode_new :: "nat \<Rightarrow> nat \<Rightarrow> nat \<Rightarrow> nat \<Rightarrow> (gateway_error, gw_code_mode) result" where
  "code_mode_new data parity stripe_size blob_size =
     and_then (map_err GW_Ec (erasure_new data parity)) (\<lambda>_.
       if stripe_size = 0 \<or> blob_size < stripe_size
       then Err (InvalidSizing stripe_size blob_size)
       else Ok \<lparr>gw_data = data, gw_parity = parity, gw_stripe_size = stripe_size, gw_blob_size = blob_size\<rparr>)"

definition cm_total :: "gw_code_mode \<Rightarrow> nat" where
  "cm_total c = gw_data c + gw_parity c"

definition code_mode_erasure :: "gw_code_mode \<Rightarrow> (gateway_error, erasure) result" where
  "code_mode_erasure c = map_err GW_Ec (erasure_new (gw_data c) (gw_parity c))"

definition write_quorum :: "gw_code_mode \<Rightarrow> nat" where
  "write_quorum c = (let tolerate = max (gw_parity c div 2) 1 in cm_total c - tolerate)"

record chunk_placement =
  pl_chunk_id :: chunk_id
  pl_shards :: "(shard_id \<times> node_id) list"

record blob_desc =
  bd_blob_id :: blob_id
  bd_len :: nat
  bd_chunk :: chunk_placement

record object_layout =
  ol_size :: u64
  ol_code :: gw_code_mode
  ol_blobs :: "blob_desc list"

definition code_mode_ok :: "gw_code_mode \<Rightarrow> bool" where
  "code_mode_ok c \<longleftrightarrow>
     0 < gw_data c \<and> gw_data c \<le> MAX_SHARDS \<and> 0 < gw_parity c \<and> gw_parity c \<le> MAX_SHARDS \<and>
     0 < gw_stripe_size c \<and> gw_stripe_size c \<le> gw_blob_size c"

lemma code_mode_new_Ok:
  "code_mode_new d p s b = Ok c \<longleftrightarrow>
     code_mode_ok c \<and> c = \<lparr>gw_data = d, gw_parity = p, gw_stripe_size = s, gw_blob_size = b\<rparr>"
  by (auto simp: code_mode_new_def erasure_new_def code_mode_ok_def)

lemma code_mode_erasure_Ok:
  "code_mode_ok c \<Longrightarrow>
     code_mode_erasure c = Ok \<lparr>data_shards = gw_data c, parity_shards = gw_parity c\<rparr>"
  by (simp add: code_mode_erasure_def erasure_new_def code_mode_ok_def)

text \<open>C25: every code mode the constructor accepts has a usable erasure coder, and its write quorum
  leaves enough shards to decode: at least \<open>data\<close> shards must commit, fewer than all of them, and
  losing a further \<open>parity - tolerate\<close> of the committed shards leaves exactly \<open>data\<close> of them.\<close>

theorem write_quorum_decodable:
  assumes "code_mode_new d p s b = Ok c"
  shows "code_mode_erasure c = Ok \<lparr>data_shards = d, parity_shards = p\<rparr> \<and>
    d \<le> write_quorum c \<and> write_quorum c < cm_total c \<and> write_quorum c - (p - max (p div 2) 1) = d"
  using assms
  by (auto simp: code_mode_new_Ok code_mode_erasure_Ok write_quorum_def cm_total_def Let_def
      code_mode_ok_def)

theorem write_quorum_decodable_witness:
  "\<exists>c. code_mode_new 8 4 1048576 33554432 = Ok c \<and> 8 \<le> write_quorum c \<and> write_quorum c < cm_total c"
proof -
  obtain c where c: "code_mode_new 8 4 1048576 33554432 = Ok c"
    by (simp add: code_mode_new_def erasure_new_def MAX_SHARDS_def)
  then show ?thesis using write_quorum_decodable [OF c] by blast
qed

end
