(* ===== verification/Ec_Frame.thy ===== *)
theory Ec_Frame
  imports Ec_Layout
begin

text \<open>
  Bitrot frames of \<open>crates/epoch-ec/src/frame.rs\<close> and the contiguous shard slots of
  \<open>crates/epoch-ec/src/buffer.rs\<close>. The BLAKE3 hash is a parameter \<open>hash\<close>; the code relies on
  its digest having 32 bytes (\<open>hash_ok\<close>).
\<close>

type_synonym hasher = "bytes \<Rightarrow> bytes"

definition hash_ok :: "hasher \<Rightarrow> bool" where
  "hash_ok hash \<longleftrightarrow> (\<forall>data. length (hash data) = HASH_LEN)"

datatype frame_error = HashMismatch nat | FrameTruncated nat

definition frame_len :: "nat \<Rightarrow> nat" where
  "frame_len data_len = HASH_LEN + data_len"

definition write_frame :: "hasher \<Rightarrow> bytes \<Rightarrow> bytes \<Rightarrow> bytes" where
  "write_frame hash data out = out @ hash data @ data"

definition frame_data :: "hasher \<Rightarrow> bytes \<Rightarrow> bytes option" where
  "frame_data hash frame =
     (case split_at_checked HASH_LEN frame of
        None \<Rightarrow> None
      | Some (h, data) \<Rightarrow> if hash data = h then Some data else None)"

definition verify_frame :: "hasher \<Rightarrow> bytes \<Rightarrow> (frame_error, bytes) result" where
  "verify_frame hash frame =
     (if length frame < HASH_LEN then Err (FrameTruncated 0)
      else ok_or (HashMismatch 0) (frame_data hash frame))"

text \<open>
  The loop of \<open>verify_shard_body\<close>, on the unread rest of the body. With a zero \<open>unit\<close> (excluded
  by the code's assertion) it still advances by a hash per round.
\<close>

function verify_loop :: "hasher \<Rightarrow> nat \<Rightarrow> bytes \<Rightarrow> nat \<Rightarrow> nat \<Rightarrow> nat \<Rightarrow> (frame_error, nat) result" where
  "verify_loop hash unit body pos data_total index =
     (if pos < length body then
        let remaining = length body - pos in
        if remaining \<le> HASH_LEN then Err (FrameTruncated pos)
        else
          let data_len = min unit (remaining - HASH_LEN);
              frame = take (HASH_LEN + data_len) (drop pos body) in
          case frame_data hash frame of
            None \<Rightarrow> Err (HashMismatch index)
          | Some _ \<Rightarrow> verify_loop hash unit body (pos + (HASH_LEN + data_len))
                        (data_total + data_len) (index + 1)
      else Ok data_total)"
  by pat_completeness auto
termination
  by (relation "measure (\<lambda>(hash, unit, body, pos, t, i). length body - pos)")
    (auto simp: HASH_LEN_def)

declare verify_loop.simps [simp del]

definition verify_shard_body :: "hasher \<Rightarrow> bytes \<Rightarrow> nat \<Rightarrow> (frame_error, nat) result" where
  "verify_shard_body hash body unit =
     (if body = [] then Ok 0 else verify_loop hash unit body 0 0 0)"

record shard_buffers =
  backing :: bytes
  shard_len :: nat
  buf_count :: nat

definition shard_buffers_new :: "nat \<Rightarrow> nat \<Rightarrow> shard_buffers" where
  "shard_buffers_new count len =
     \<lparr>backing = replicate (count * len) 0, shard_len = len, buf_count = count\<rparr>"

text \<open>The slice \<open>backing[start..start + shard_len]\<close>; out of range it panics, here \<open>None\<close>.\<close>

definition shard :: "shard_buffers \<Rightarrow> nat \<Rightarrow> bytes option" where
  "shard b i = (let start = i * shard_len b in get_range (backing b) start (start + shard_len b))"

text \<open>Overwriting the slot that \<open>shard_mut\<close> borrows with a value of the slot's length.\<close>

definition shard_mut :: "shard_buffers \<Rightarrow> nat \<Rightarrow> bytes \<Rightarrow> shard_buffers option" where
  "shard_mut b i v =
     (let start = i * shard_len b in
      if start + shard_len b \<le> length (backing b) \<and> length v = shard_len b
      then Some (b\<lparr>backing := take start (backing b) @ v @ drop (start + shard_len b) (backing b)\<rparr>)
      else None)"

definition shard_iter :: "shard_buffers \<Rightarrow> bytes list" where
  "shard_iter b = filter (\<lambda>c. length c = shard_len b) (chunks (shard_len b) (backing b))"

definition shard_clear :: "shard_buffers \<Rightarrow> shard_buffers" where
  "shard_clear b = b\<lparr>backing := replicate (length (backing b)) 0\<rparr>"

section \<open>Frames\<close>

lemma length_hash [simp]: "hash_ok hash \<Longrightarrow> length (hash d) = HASH_LEN"
  by (simp add: hash_ok_def)

lemma length_write_frame [simp]:
  "hash_ok hash \<Longrightarrow> length (write_frame hash d out) = length out + frame_len (length d)"
  by (simp add: write_frame_def frame_len_def)

lemma frame_data_frame [simp]:
  "hash_ok hash \<Longrightarrow> frame_data hash (hash d @ d) = Some d"
  by (simp add: frame_data_def split_at_checked_def)

lemma verify_frame_frame [simp]:
  "hash_ok hash \<Longrightarrow> verify_frame hash (hash d @ d) = Ok d"
  by (simp add: verify_frame_def)

lemma verify_frame_eq_Ok:
  assumes "hash_ok hash"
  shows "verify_frame hash f = Ok d \<longleftrightarrow> f = hash d @ d"
proof
  assume "verify_frame hash f = Ok d"
  then show "f = hash d @ d"
    by (auto simp: verify_frame_def frame_data_def split_at_checked_def result_simps
        split: if_splits option.splits)
next
  assume "f = hash d @ d"
  then show "verify_frame hash f = Ok d" using assms by simp
qed

lemma verify_frame_length: "verify_frame hash f = Ok d \<Longrightarrow> length f = HASH_LEN + length d"
  by (auto simp: verify_frame_def frame_data_def split_at_checked_def result_simps
      split: if_splits option.splits)

section \<open>Shard bodies\<close>

text \<open>A shard body made of the frames of some units, in order.\<close>

definition body_of :: "hasher \<Rightarrow> bytes list \<Rightarrow> bytes" where
  "body_of hash units = foldl (\<lambda>out u. write_frame hash u out) [] units"

lemma foldl_write_frame:
  "foldl (\<lambda>out u. write_frame hash u out) out units = out @ concat (map (\<lambda>u. hash u @ u) units)"
  by (induction units arbitrary: out) (simp_all add: write_frame_def)

lemma body_of_concat: "body_of hash units = concat (map (\<lambda>u. hash u @ u) units)"
  by (simp add: body_of_def foldl_write_frame)

lemma body_of_Nil [simp]: "body_of hash [] = []"
  and body_of_Cons: "body_of hash (u # us) = hash u @ u @ body_of hash us"
  and body_of_append: "body_of hash (us @ vs) = body_of hash us @ body_of hash vs"
  and body_of_snoc: "body_of hash (us @ [u]) = write_frame hash u (body_of hash us)"
  by (simp_all add: body_of_concat write_frame_def)

lemma length_body_of:
  "hash_ok hash \<Longrightarrow> length (body_of hash units) = sum_list (map (\<lambda>u. frame_len (length u)) units)"
  by (induction units) (simp_all add: body_of_Cons frame_len_def)

text \<open>The framing at \<open>unit\<close>: full units, then a last one that is shorter but not empty.\<close>

fun framed_at :: "nat \<Rightarrow> bytes list \<Rightarrow> bool" where
  "framed_at unit [] \<longleftrightarrow> True"
| "framed_at unit [u] \<longleftrightarrow> 0 < length u \<and> length u \<le> unit"
| "framed_at unit (u # us) \<longleftrightarrow> length u = unit \<and> framed_at unit us"

lemma framed_at_Cons:
  "0 < unit \<Longrightarrow> framed_at unit (u # us) \<longleftrightarrow>
     (if us = [] then 0 < length u \<and> length u \<le> unit else length u = unit \<and> framed_at unit us)"
  by (cases us) auto

lemma framed_body_pos:
  "hash_ok hash \<Longrightarrow> us \<noteq> [] \<Longrightarrow> 0 < length (body_of hash us)"
  by (cases us) (auto simp: body_of_Cons)

lemma verify_loop_complete:
  assumes "hash_ok hash" and "0 < unit" and "framed_at unit units"
  shows "verify_loop hash unit (pre @ body_of hash units) (length pre) t i
           = Ok (t + sum_list (map length units))"
  using assms(3)
proof (induction units arbitrary: pre t i)
  case Nil
  then show ?case by (simp add: verify_loop.simps [of hash unit])
next
  case (Cons u us)
  let ?pre = "pre @ hash u @ u"
  have u: "0 < length u" "length u \<le> unit" and us: "framed_at unit us"
    and full: "us \<noteq> [] \<Longrightarrow> length u = unit"
    using Cons.prems assms(2) by (auto simp: framed_at_Cons split: if_splits)
  have dl: "min unit (length u + length (body_of hash us)) = length u"
    using u full by (cases "us = []") auto
  have ih: "verify_loop hash unit (?pre @ body_of hash us) (length ?pre) (t + length u) (i + 1)
      = Ok (t + length u + sum_list (map length us))"
    using Cons.IH us by blast
  have tk: "take (HASH_LEN + length u) (hash u @ u @ body_of hash us) = hash u @ u"
    using assms(1) by simp
  show ?case
    using assms(1) u ih dl tk
    by (subst verify_loop.simps)
      (simp add: body_of_Cons Let_def add.assoc add.commute [of "length pre"] add.left_commute)
qed

lemma verify_loop_sound:
  "hash_ok hash \<Longrightarrow> 0 < unit \<Longrightarrow> verify_loop hash unit body pos t i = Ok n \<Longrightarrow> pos \<le> length body \<Longrightarrow>
     \<exists>units. drop pos body = body_of hash units \<and> framed_at unit units \<and>
             n = t + sum_list (map length units)"
proof (induction hash unit body pos t i rule: verify_loop.induct)
  case (1 hash unit body pos t i)
  let ?rem = "length body - pos"
  let ?dl = "min unit (?rem - HASH_LEN)"
  let ?f = "take (HASH_LEN + ?dl) (drop pos body)"
  note ok = "1.prems"(3) [unfolded verify_loop.simps [of hash unit body pos t i]]
  show ?case
  proof (cases "pos < length body")
    case False
    then show ?thesis using ok by (intro exI [of _ "[]"]) simp
  next
    case True
    with ok obtain d where r: "\<not> ?rem \<le> HASH_LEN" and d: "frame_data hash ?f = Some d"
      and rec: "verify_loop hash unit body (pos + (HASH_LEN + ?dl)) (t + ?dl) (i + 1) = Ok n"
      by (auto simp: Let_def split: if_splits option.splits)
    have le: "pos + (HASH_LEN + ?dl) \<le> length body" using r by simp
    obtain us where us: "drop (pos + (HASH_LEN + ?dl)) body = body_of hash us" "framed_at unit us"
      and n: "n = t + ?dl + sum_list (map length us)"
      using "1.IH" [OF True refl r refl refl d "1.prems"(1,2) rec le] by blast
    have "verify_frame hash ?f = Ok d" using d le r by (simp add: verify_frame_def)
    note v = this
    have f: "?f = hash d @ d" using v verify_frame_eq_Ok [OF "1.prems"(1)] by blast
    have "length ?f = HASH_LEN + ?dl" using le by (simp only: length_take length_drop) simp
    then have len: "length d = ?dl" using verify_frame_length [OF v] by linarith
    have body: "drop pos body = body_of hash (d # us)"
      using f us(1) append_take_drop_id [of "HASH_LEN + ?dl" "drop pos body"]
      by (simp add: body_of_Cons add.commute [of pos])
    have "?dl = unit" if "us \<noteq> []"
    proof (rule ccontr)
      assume "?dl \<noteq> unit"
      then have "pos + (HASH_LEN + ?dl) = length body" using r by (auto simp: min_def split: if_splits)
      then show False using framed_body_pos [OF "1.prems"(1) that] us(1) by simp
    qed
    then have "framed_at unit (d # us)"
      using us(2) len r "1.prems"(2) by (auto simp: framed_at_Cons)
    then show ?thesis using body n len by (intro exI [of _ "d # us"]) simp
  qed
qed

text \<open>
  A corrupt frame is reported at its own index, whatever follows it: \<open>bad\<close> is a frame position's
  bytes that do not verify.
\<close>

lemma verify_loop_mismatch:
  assumes "hash_ok hash" and "0 < unit" and "\<forall>u \<in> set us. length u = unit"
    and "frame_data hash bad = None" and "HASH_LEN < length bad" and "length bad \<le> HASH_LEN + unit"
    and "rest = [] \<or> length bad = HASH_LEN + unit"
  shows "verify_loop hash unit (pre @ body_of hash us @ bad @ rest) (length pre) t i
           = Err (HashMismatch (i + length us))"
  using assms(3)
proof (induction us arbitrary: pre t i)
  case Nil
  have "min unit (length bad + length rest - HASH_LEN) = length bad - HASH_LEN"
    using assms(5-7) by auto
  moreover have "take (HASH_LEN + (length bad - HASH_LEN)) (bad @ rest) = bad"
    using assms(5) by simp
  moreover have "bad \<noteq> []" using assms(5) by auto
  ultimately show ?case using assms(4,5) by (subst verify_loop.simps) (simp add: Let_def)
next
  case (Cons u us)
  let ?pre = "pre @ hash u @ u"
  have u: "length u = unit" using Cons.prems by simp
  have ih: "verify_loop hash unit (?pre @ body_of hash us @ bad @ rest) (length ?pre) (t + unit) (i + 1)
      = Err (HashMismatch (i + 1 + length us))"
    by (rule Cons.IH) (use Cons.prems in simp)
  have dl: "min unit (length u + (length (body_of hash us) + (length bad + length rest))) = length u"
    using u by simp
  have tk: "take (HASH_LEN + length u) (hash u @ u @ body_of hash us @ bad @ rest) = hash u @ u"
    using assms(1) by simp
  show ?case
    using assms(1,2) u ih dl tk
    by (subst verify_loop.simps)
      (simp add: body_of_Cons Let_def add.assoc add.commute [of "length pre"] add.left_commute)
qed

section \<open>Shard slots\<close>

definition buffers_ok :: "shard_buffers \<Rightarrow> bool" where
  "buffers_ok b \<longleftrightarrow> length (backing b) = buf_count b * shard_len b"

lemma slot_in_range: "i < c \<Longrightarrow> i * l + l \<le> c * (l::nat)"
  by (metis Suc_leI add.commute mult_Suc mult_le_mono1)

lemma buffers_ok_new: "buffers_ok (shard_buffers_new c l)"
  by (simp add: buffers_ok_def shard_buffers_new_def)

lemma buffers_ok_mut: "buffers_ok b \<Longrightarrow> shard_mut b i v = Some b' \<Longrightarrow> buffers_ok b'"
  by (auto simp: buffers_ok_def shard_mut_def Let_def split: if_splits)

lemma buffers_ok_clear: "buffers_ok b \<Longrightarrow> buffers_ok (shard_clear b)"
  by (simp add: buffers_ok_def shard_clear_def)

lemma shard_mut_Some:
  assumes "buffers_ok b" and "i < buf_count b" and "length v = shard_len b"
  shows "\<exists>b'. shard_mut b i v = Some b'"
  using assms slot_in_range [of i "buf_count b" "shard_len b"]
  by (simp add: shard_mut_def Let_def buffers_ok_def)

lemma take_drop_splice:
  assumes "length v = l" and "a + l \<le> length xs" and "c + l \<le> a \<or> a + l \<le> c \<or> l = 0"
  shows "take l (drop c (take a xs @ v @ drop (a + l) xs)) = take l (drop c xs)"
  using assms by (auto simp: drop_take min_def add.commute)

lemma shard_after_mut:
  assumes "buffers_ok b" and "shard_mut b i v = Some b'" and "j < buf_count b"
  shows "shard b' j = (if j = i then Some v else shard b j)"
proof -
  let ?l = "shard_len b"
  have v: "length v = ?l" and i: "i * ?l + ?l \<le> length (backing b)"
    and b': "b' = b\<lparr>backing := take (i * ?l) (backing b) @ v @ drop (i * ?l + ?l) (backing b)\<rparr>"
    using assms(2) by (auto simp: shard_mut_def Let_def split: if_splits)
  have j: "j * ?l + ?l \<le> length (backing b)"
    using assms(1,3) slot_in_range by (simp add: buffers_ok_def)
  have "j * ?l + ?l \<le> i * ?l \<or> i * ?l + ?l \<le> j * ?l" if "j \<noteq> i"
    using that slot_in_range [of i j ?l] slot_in_range [of j i ?l] by linarith
  then have "j \<noteq> i \<Longrightarrow> take ?l (drop (j * ?l) (backing b')) = take ?l (drop (j * ?l) (backing b))"
    using take_drop_splice [of v ?l "i * ?l" "backing b" "j * ?l"] v i b' by auto
  then show ?thesis using i j v b' by (auto simp: shard_def Let_def get_range_def)
qed

section \<open>Properties\<close>

text \<open>A hasher for the concrete inputs: the first 32 bytes of the zero-padded data.\<close>

definition sample_hash :: hasher where
  "sample_hash d = take 32 (d @ replicate 32 0)"

lemma sample_hash_ok: "hash_ok sample_hash"
  by (auto simp: hash_ok_def sample_hash_def HASH_LEN_def min_def)

text \<open>C24: \<open>verify_shard_body\<close> accepts exactly the bodies that are a sequence of intact bitrot
  frames cut at \<open>unit\<close> (every frame full except a shorter, non-empty last one), and returns the
  number of data bytes in them.\<close>

theorem verify_shard_body_spec:
  assumes "hash_ok hash" and "0 < unit"
  shows "verify_shard_body hash body unit = Ok n \<longleftrightarrow>
    (\<exists>units. body = body_of hash units \<and> framed_at unit units \<and> n = sum_list (map length units))"
proof
  assume "verify_shard_body hash body unit = Ok n"
  then show "\<exists>units. body = body_of hash units \<and> framed_at unit units \<and> n = sum_list (map length units)"
    using verify_loop_sound [OF assms, of body 0 0 0 n]
    by (cases "body = []") (auto simp: verify_shard_body_def intro: exI [of _ "[]"])
next
  assume "\<exists>units. body = body_of hash units \<and> framed_at unit units \<and> n = sum_list (map length units)"
  then obtain units where u: "body = body_of hash units" "framed_at unit units"
    and n: "n = sum_list (map length units)" by blast
  have "units = []" if "body = []" using that u framed_body_pos [OF assms(1), of units] by auto
  then show "verify_shard_body hash body unit = Ok n"
    using verify_loop_complete [OF assms u(2), of "[]" 0 0] u(1) n
    by (auto simp: verify_shard_body_def)
qed

theorem verify_shard_body_spec_witness:
  "verify_shard_body sample_hash (body_of sample_hash [[1, 2], [3]]) 2 = Ok 3"
  by (subst verify_shard_body_spec) (auto simp: sample_hash_ok intro!: exI [of _ "[[1, 2], [3]]"])

text \<open>when the frames before it are intact, a corrupt frame is reported as
  \<open>HashMismatch\<close> at its own zero-based index, whatever bytes follow it.\<close>

theorem verify_shard_body_mismatch:
  assumes "hash_ok hash" and "0 < unit" and "\<forall>u \<in> set us. length u = unit"
    and "frame_data hash bad = None" and "HASH_LEN < length bad" and "length bad \<le> HASH_LEN + unit"
    and "rest = [] \<or> length bad = HASH_LEN + unit"
  shows "verify_shard_body hash (body_of hash us @ bad @ rest) unit = Err (HashMismatch (length us))"
proof -
  have "body_of hash us @ bad @ rest \<noteq> []" using assms(5) by auto
  then show ?thesis using verify_loop_mismatch [OF assms, of "[]" 0 0]
    by (simp add: verify_shard_body_def)
qed

theorem verify_shard_body_mismatch_witness:
  "verify_shard_body sample_hash (body_of sample_hash [[7]] @ (replicate 32 0 @ [9]) @ [1]) 1
     = Err (HashMismatch 1)"
proof -
  have "hd (9 # replicate 31 0) \<noteq> hd (replicate 32 (0::byte))" by simp
  then have "9 # replicate 31 0 \<noteq> replicate 32 (0::byte)" by metis
  then have "frame_data sample_hash (replicate 32 0 @ [9]) = None"
    by (simp add: frame_data_def split_at_checked_def HASH_LEN_def sample_hash_def)
  then show ?thesis
    using verify_shard_body_mismatch [of sample_hash 1 "[[7]]" "replicate 32 0 @ [9]" "[1]"]
    by (simp add: sample_hash_ok HASH_LEN_def)
qed

end
