(* ===== verification/Gateway_Pipeline.thy ===== *)
theory Gateway_Pipeline
  imports Gateway_Code Ec_Frame
begin

text \<open>
  The EC pipeline of \<open>crates/epoch-gateway/src/pipeline.rs\<close>: \<open>encode_blob\<close> stripes a blob, codes
  each stripe and frames every unit into the shard bodies; \<open>decode_blob\<close> reverses it from the
  bodies that were read, dropping missing and corrupt frames, and reports the healed shards.
\<close>

definition stripe_frame_lens :: "nat \<Rightarrow> nat \<Rightarrow> nat \<Rightarrow> nat list" where
  "stripe_frame_lens blob_len stripe_size n =
     (let stripes = stripe_count blob_len stripe_size in
      if stripes = 0 then []
      else
        let unit_full = unit_size stripe_size n in
        map (\<lambda>s. HASH_LEN +
               (if s = stripes - 1 then unit_size (last_stripe_len blob_len stripe_size) n
                else unit_full)) [0..<stripes])"

text \<open>The \<open>data\<close> zero-padded units of one stripe.\<close>

definition data_units :: "nat \<Rightarrow> bytes \<Rightarrow> bytes list" where
  "data_units n stripe =
     (let unit = unit_size (length stripe) n in
      map (\<lambda>i. let ds = i * unit in
             if ds < length stripe then
               (let de = min (ds + unit) (length stripe) in
                take (de - ds) (drop ds stripe) @ replicate (unit - (de - ds)) 0)
             else replicate unit 0) [0..<n])"

text \<open>\<open>write_frame(u, &mut bodies[i])\<close> for consecutive \<open>i\<close>; an index past the bodies panics.\<close>

fun append_frames :: "hasher \<Rightarrow> nat \<Rightarrow> bytes list \<Rightarrow> bytes list \<Rightarrow> (gateway_error, bytes list) result" where
  "append_frames hash i [] bodies = Ok bodies"
| "append_frames hash i (u # us) bodies =
     (if i < length bodies
      then append_frames hash (Suc i) us (bodies[i := write_frame hash u (bodies ! i)])
      else Err GW_Panic)"

definition encode_stripe ::
  "rs_encode \<Rightarrow> hasher \<Rightarrow> erasure \<Rightarrow> nat \<Rightarrow> bytes \<Rightarrow> nat \<Rightarrow> bytes list \<Rightarrow> (gateway_error, bytes list) result" where
  "encode_stripe rs_enc hash ec stripe_size blob s bodies =
     (let n = data_shards ec;
          start = s * stripe_size;
          stop = min (start + stripe_size) (length blob);
          stripe = take (stop - start) (drop start blob);
          units = data_units n stripe in
      and_then (map_err GW_Ec (ec_encode rs_enc ec units)) (\<lambda>parity.
        and_then (append_frames hash 0 units bodies) (append_frames hash n parity)))"

fun encode_stripes ::
  "rs_encode \<Rightarrow> hasher \<Rightarrow> erasure \<Rightarrow> nat \<Rightarrow> bytes \<Rightarrow> nat list \<Rightarrow> bytes list \<Rightarrow> (gateway_error, bytes list) result" where
  "encode_stripes rs_enc hash ec stripe_size blob [] bodies = Ok bodies"
| "encode_stripes rs_enc hash ec stripe_size blob (s # ss) bodies =
     and_then (encode_stripe rs_enc hash ec stripe_size blob s bodies)
       (encode_stripes rs_enc hash ec stripe_size blob ss)"

definition encode_blob ::
  "rs_encode \<Rightarrow> hasher \<Rightarrow> erasure \<Rightarrow> nat \<Rightarrow> bytes \<Rightarrow> (gateway_error, bytes list) result" where
  "encode_blob rs_enc hash ec stripe_size blob =
     encode_stripes rs_enc hash ec stripe_size blob [0..<stripe_count (length blob) stripe_size]
       (replicate (total_shards ec) [])"

record decoded_blob =
  db_bytes :: bytes
  db_healed :: "nat list"

text \<open>The verified unit a shard contributes to a stripe, if any.\<close>

definition frame_unit :: "hasher \<Rightarrow> nat \<Rightarrow> nat \<Rightarrow> bytes option \<Rightarrow> bytes option" where
  "frame_unit hash frame_off flen body =
     (case Option.bind body (\<lambda>b. get_range b frame_off (frame_off + flen)) of
        None \<Rightarrow> None
      | Some frame \<Rightarrow> (case verify_frame hash frame of Inr data \<Rightarrow> Some data | Inl _ \<Rightarrow> None))"

definition decode_stripe ::
  "rs_decode \<Rightarrow> hasher \<Rightarrow> erasure \<Rightarrow> nat \<Rightarrow> nat \<Rightarrow> slots \<Rightarrow> nat \<Rightarrow> bytes \<times> bool list
     \<Rightarrow> (gateway_error, bytes \<times> bool list) result" where
  "decode_stripe rs_dec hash ec stripe_size blob_len bodies s = (\<lambda>(out, bad).
     let n = data_shards ec;
         is_last = (s = stripe_count blob_len stripe_size - 1);
         this_len = (if is_last then last_stripe_len blob_len stripe_size else stripe_size);
         unit_full = unit_size stripe_size n;
         unit = (if is_last then unit_size this_len n else unit_full);
         units = map (frame_unit hash (frame_offset s unit_full) (HASH_LEN + unit)) bodies;
         bad' = map2 (\<lambda>b u. b \<or> u = None) bad units in
     and_then (map_err GW_Ec (reconstruct rs_dec ec units)) (\<lambda>units'.
       if list_all (\<lambda>u. u \<noteq> None) (take n units') then
         (let stripe_data = concat (map the (take n units')) in
          if this_len \<le> length stripe_data then Ok (out @ take this_len stripe_data, bad')
          else Err GW_Panic)
       else Err GW_Panic))"

fun decode_stripes ::
  "rs_decode \<Rightarrow> hasher \<Rightarrow> erasure \<Rightarrow> nat \<Rightarrow> nat \<Rightarrow> slots \<Rightarrow> nat list \<Rightarrow> bytes \<times> bool list
     \<Rightarrow> (gateway_error, bytes \<times> bool list) result" where
  "decode_stripes rs_dec hash ec stripe_size blob_len bodies [] acc = Ok acc"
| "decode_stripes rs_dec hash ec stripe_size blob_len bodies (s # ss) acc =
     and_then (decode_stripe rs_dec hash ec stripe_size blob_len bodies s acc)
       (decode_stripes rs_dec hash ec stripe_size blob_len bodies ss)"

definition decode_blob ::
  "rs_decode \<Rightarrow> hasher \<Rightarrow> erasure \<Rightarrow> nat \<Rightarrow> nat \<Rightarrow> slots \<Rightarrow> (gateway_error, decoded_blob) result" where
  "decode_blob rs_dec hash ec stripe_size blob_len bodies =
     (let total = total_shards ec in
      if length bodies \<noteq> total then Err (GW_ShardCount total (length bodies))
      else if blob_len = 0 then Ok \<lparr>db_bytes = [], db_healed = []\<rparr>
      else and_then (decode_stripes rs_dec hash ec stripe_size blob_len bodies
              [0..<stripe_count blob_len stripe_size] ([], replicate total False)) (\<lambda>(out, bad).
        if length out \<noteq> blob_len then Err (LengthMismatch blob_len (length out))
        else Ok \<lparr>db_bytes = out, db_healed = filter (\<lambda>j. bad ! j) [0..<total]\<rparr>))"

section \<open>Cutting a sequence at a fixed width\<close>

lemma concat_windows:
  "concat (map (\<lambda>i. take u (drop (i * u) xs)) [0..<n]) = take (n * u) xs"
proof (induction n)
  case (Suc n)
  then show ?case by (simp add: take_add [symmetric] add.commute)
qed simp

definition stripe_at :: "nat \<Rightarrow> bytes \<Rightarrow> nat \<Rightarrow> bytes" where
  "stripe_at stripe_size blob s = take stripe_size (drop (s * stripe_size) blob)"

lemma concat_stripes:
  assumes "0 < ss"
  shows "concat (map (stripe_at ss blob) [0..<stripe_count (length blob) ss]) = blob"
  using concat_windows [of ss blob "stripe_count (length blob) ss"] div_ceil_upper [OF assms]
  by (simp add: stripe_at_def [abs_def] stripe_count_def)

lemma stripe_start:
  assumes "0 < ss" and "s < stripe_count b ss"
  shows "s * ss < b"
proof -
  have "0 < b" using assms(2) by (cases b) auto
  then have "(stripe_count b ss - 1) * ss < b"
    using div_ceil_lower [of b ss] assms(1) by (simp add: stripe_count_def)
  moreover have "s * ss \<le> (stripe_count b ss - 1) * ss" using assms(2) by (intro mult_le_mono1) simp
  ultimately show ?thesis by linarith
qed

lemma stripe_slice:
  assumes "0 < ss" and "s < stripe_count (length blob) ss"
  shows "take (min (s * ss + ss) (length blob) - s * ss) (drop (s * ss) blob) = stripe_at ss blob s"
  using stripe_start [OF assms] by (auto simp: stripe_at_def min_def)

lemma length_stripe_at:
  assumes "0 < ss" and "s < stripe_count (length blob) ss"
  shows "length (stripe_at ss blob s) =
    (if s = stripe_count (length blob) ss - 1 then last_stripe_len (length blob) ss else ss)"
proof -
  let ?c = "stripe_count (length blob) ss"
  have b: "0 < length blob" using assms(2) by (cases blob) auto
  have part: "(?c - 1) * ss + last_stripe_len (length blob) ss = length blob"
    using stripes_partition [OF assms(1) b] .
  show ?thesis
  proof (cases "s = ?c - 1")
    case True
    have "length blob - s * ss = last_stripe_len (length blob) ss" using True part by simp
    then show ?thesis
      using True last_stripe_len_le [OF assms(1), of "length blob"] by (simp add: stripe_at_def)
  next
    case False
    then have "s * ss + ss \<le> (?c - 1) * ss"
      using assms(2) by (metis Suc_leI add.commute less_Suc_eq_le mult_Suc mult_le_mono1
          Suc_pred' le_neq_implies_less order.strict_trans1 zero_le)
    then show ?thesis using False part by (simp add: stripe_at_def)
  qed
qed

section \<open>Units of a stripe\<close>

lemma data_units_windows:
  assumes "0 < n"
  shows "data_units n stripe =
    (let u = unit_size (length stripe) n in
     map (\<lambda>i. take u (drop (i * u) (stripe @ replicate (n * u - length stripe) 0))) [0..<n])"
proof -
  let ?u = "unit_size (length stripe) n"
  have cov: "length stripe \<le> n * ?u" using assms by (rule unit_size_covers)
  have "(let ds = i * ?u in
           if ds < length stripe then
             (let de = min (ds + ?u) (length stripe) in
              take (de - ds) (drop ds stripe) @ replicate (?u - (de - ds)) 0)
           else replicate ?u 0)
        = take ?u (drop (i * ?u) (stripe @ replicate (n * ?u - length stripe) 0))"
    if "i < n" for i
    using slot_in_range [OF that, of ?u] cov
    by (auto simp: Let_def min_def)
  then show ?thesis by (auto simp: data_units_def Let_def intro!: map_cong)
qed

lemma length_data_units [simp]: "length (data_units n stripe) = n"
  by (simp add: data_units_def Let_def)

lemma data_units_length:
  assumes "0 < n" and "u \<in> set (data_units n stripe)"
  shows "length u = unit_size (length stripe) n"
  using assms(2) by (auto simp: data_units_def Let_def min_def)

lemma data_units_concat:
  assumes "0 < n"
  shows "take (length stripe) (concat (data_units n stripe)) = stripe"
    and "length stripe \<le> length (concat (data_units n stripe))"
proof -
  let ?u = "unit_size (length stripe) n"
  have cov: "length stripe \<le> n * ?u" using assms by (rule unit_size_covers)
  have "concat (data_units n stripe) = take (n * ?u) (stripe @ replicate (n * ?u - length stripe) 0)"
    unfolding data_units_windows [OF assms] Let_def by (rule concat_windows)
  then show "take (length stripe) (concat (data_units n stripe)) = stripe"
    and "length stripe \<le> length (concat (data_units n stripe))" using cov by auto
qed

lemma data_units_stripe_ok:
  assumes "0 < data_shards ec" and "stripe \<noteq> []"
  shows "stripe_ok ec (unit_size (length stripe) (data_shards ec)) (data_units (data_shards ec) stripe)"
  using assms data_units_length [OF assms(1)] by (auto simp: stripe_ok_def layout_simps)

section \<open>Encoding\<close>

text \<open>All \<open>data + parity\<close> units of a stripe, in shard order.\<close>

definition stripe_shards :: "rs_encode \<Rightarrow> erasure \<Rightarrow> bytes \<Rightarrow> bytes list" where
  "stripe_shards rs_enc ec stripe =
     (let units = data_units (data_shards ec) stripe in
      case ec_encode rs_enc ec units of Inr parity \<Rightarrow> units @ parity | Inl _ \<Rightarrow> [])"

lemma stripe_shards_obtain:
  assumes "rs_contract rs_enc rs_dec (data_shards ec) (parity_shards ec)" and "0 < data_shards ec"
    and "stripe \<noteq> []"
  obtains parity where "ec_encode rs_enc ec (data_units (data_shards ec) stripe) = Ok parity"
    and "stripe_shards rs_enc ec stripe = data_units (data_shards ec) stripe @ parity"
    and "length (stripe_shards rs_enc ec stripe) = total_shards ec"
    and "\<forall>u \<in> set (stripe_shards rs_enc ec stripe). length u = unit_size (length stripe) (data_shards ec)"
proof -
  let ?d = "data_units (data_shards ec) stripe"
  have ok: "stripe_ok ec (unit_size (length stripe) (data_shards ec)) ?d"
    using data_units_stripe_ok assms(2,3) by blast
  obtain parity where p: "ec_encode rs_enc ec ?d = Ok parity" "length parity = parity_shards ec"
    "\<forall>p \<in> set parity. length p = unit_size (length stripe) (data_shards ec)"
    by (rule ec_encode_Ok [OF assms(1) ok assms(2)])
  then show ?thesis
    using that data_units_length [OF assms(2)] by (auto simp: stripe_shards_def Let_def total_shards_def)
qed

lemma append_frames_append:
  "and_then (append_frames hash i us bodies) (append_frames hash (i + length us) vs)
     = append_frames hash i (us @ vs) bodies"
proof (induction us arbitrary: i bodies)
  case (Cons u us)
  then show ?case using Cons.IH [of "Suc i"] by simp
qed simp

lemma append_frames_all:
  assumes "length us = length bs"
  shows "append_frames hash (length pre) us (pre @ bs) = Ok (pre @ map2 (write_frame hash) us bs)"
  using assms
proof (induction us bs arbitrary: pre rule: list_induct2)
  case (Cons u us b bs)
  then show ?case using Cons.IH [of "pre @ [write_frame hash u b]"] by simp
qed simp

lemma encode_stripe_Ok:
  assumes "rs_contract rs_enc rs_dec (data_shards ec) (parity_shards ec)" and "0 < data_shards ec"
    and "0 < ss" and "s < stripe_count (length blob) ss" and "length bodies = total_shards ec"
  shows "encode_stripe rs_enc hash ec ss blob s bodies =
    Ok (map2 (write_frame hash) (stripe_shards rs_enc ec (stripe_at ss blob s)) bodies)"
proof -
  let ?st = "stripe_at ss blob s" and ?n = "data_shards ec"
  have "?st \<noteq> []" using stripe_start [OF assms(3,4)] assms(3) by (simp add: stripe_at_def)
  then obtain parity where p: "ec_encode rs_enc ec (data_units ?n ?st) = Ok parity"
    "stripe_shards rs_enc ec ?st = data_units ?n ?st @ parity"
    "length (stripe_shards rs_enc ec ?st) = total_shards ec"
    by (rule stripe_shards_obtain [OF assms(1,2)])
  have "and_then (append_frames hash 0 (data_units ?n ?st) bodies) (append_frames hash ?n parity)
      = append_frames hash 0 (stripe_shards rs_enc ec ?st) bodies"
    using append_frames_append [of hash 0 "data_units ?n ?st" bodies parity] p(2) by simp
  also have "\<dots> = Ok (map2 (write_frame hash) (stripe_shards rs_enc ec ?st) bodies)"
    using append_frames_all [of "stripe_shards rs_enc ec ?st" bodies hash "[]"] p(3) assms(5) by simp
  finally show ?thesis
    using p(1) stripe_slice [OF assms(3,4)] by (simp add: encode_stripe_def Let_def)
qed

text \<open>The body of shard \<open>j\<close>: the frames of its unit in every stripe.\<close>

definition shard_body :: "rs_encode \<Rightarrow> hasher \<Rightarrow> erasure \<Rightarrow> nat \<Rightarrow> bytes \<Rightarrow> nat \<Rightarrow> bytes" where
  "shard_body rs_enc hash ec ss blob j =
     body_of hash (map (\<lambda>s. stripe_shards rs_enc ec (stripe_at ss blob s) ! j)
       [0..<stripe_count (length blob) ss])"

lemma encode_stripes_Ok:
  assumes "rs_contract rs_enc rs_dec (data_shards ec) (parity_shards ec)" and "0 < data_shards ec"
    and "0 < ss" and "\<forall>s \<in> set todo. s < stripe_count (length blob) ss"
  shows "encode_stripes rs_enc hash ec ss blob todo
      (map (\<lambda>j. body_of hash (map (\<lambda>s. stripe_shards rs_enc ec (stripe_at ss blob s) ! j) ds)) [0..<total_shards ec])
    = Ok (map (\<lambda>j. body_of hash (map (\<lambda>s. stripe_shards rs_enc ec (stripe_at ss blob s) ! j) (ds @ todo))) [0..<total_shards ec])"
  using assms(4)
proof (induction todo arbitrary: ds)
  case (Cons s todo)
  let ?F = "\<lambda>s. stripe_shards rs_enc ec (stripe_at ss blob s)"
  let ?B = "\<lambda>ds. map (\<lambda>j. body_of hash (map (\<lambda>s. ?F s ! j) ds)) [0..<total_shards ec]"
  have s: "s < stripe_count (length blob) ss" using Cons.prems by simp
  have "stripe_at ss blob s \<noteq> []" using stripe_start [OF assms(3) s] assms(3) by (simp add: stripe_at_def)
  then have "length (?F s) = total_shards ec"
    by (rule stripe_shards_obtain [OF assms(1,2)])
  then have "map2 (write_frame hash) (?F s) (?B ds) = ?B (ds @ [s])"
    by (auto simp: body_of_snoc intro!: nth_equalityI)
  then show ?case
    using encode_stripe_Ok [OF assms(1-3) s, of "?B ds" hash] Cons.IH [of "ds @ [s]"] Cons.prems by simp
qed simp

lemma encode_blob_Ok:
  assumes "rs_contract rs_enc rs_dec (data_shards ec) (parity_shards ec)" and "0 < data_shards ec"
    and "0 < ss"
  shows "encode_blob rs_enc hash ec ss blob =
    Ok (map (shard_body rs_enc hash ec ss blob) [0..<total_shards ec])"
proof -
  have "replicate (total_shards ec) [] = map (\<lambda>j. body_of hash (map (\<lambda>s. stripe_shards rs_enc ec (stripe_at ss blob s) ! j) [])) [0..<total_shards ec]"
    by (auto intro: nth_equalityI)
  then show ?thesis
    using encode_stripes_Ok [OF assms, of "[0..<stripe_count (length blob) ss]" blob hash "[]"]
    by (simp add: encode_blob_def shard_body_def)
qed

section \<open>Decoding\<close>

lemma frame_at:
  assumes "hash_ok hash" and "s < length us" and "\<forall>i < s. length (us ! i) = u"
  shows "get_range (body_of hash us) (frame_offset s u) (frame_offset s u + (HASH_LEN + length (us ! s)))
    = Some (hash (us ! s) @ us ! s)"
proof -
  have us: "us = take s us @ us ! s # drop (Suc s) us" using assms(2) by (rule id_take_nth_drop)
  have "map (\<lambda>v. frame_len (length v)) (take s us) = replicate s (HASH_LEN + u)"
    using assms(2,3) by (intro nth_equalityI) (auto simp: frame_len_def)
  then have len: "length (body_of hash (take s us)) = frame_offset s u"
    using assms(1) by (simp add: length_body_of frame_offset_def sum_list_replicate)
  have "body_of hash us = body_of hash (take s us) @ (hash (us ! s) @ us ! s) @ body_of hash (drop (Suc s) us)"
    by (subst us) (simp add: body_of_append body_of_Cons)
  then show ?thesis
    using get_range_full [of "hash (us ! s) @ us ! s" "HASH_LEN + length (us ! s)" "body_of hash (take s us)"]
      len assms(1) by simp
qed

text \<open>The units of stripe \<open>s\<close> that the bodies read from the shards contribute.\<close>

definition recv_units :: "hasher \<Rightarrow> erasure \<Rightarrow> nat \<Rightarrow> nat \<Rightarrow> slots \<Rightarrow> nat \<Rightarrow> slots" where
  "recv_units hash ec ss blob_len bodies s =
     map (frame_unit hash (frame_offset s (unit_size ss (data_shards ec)))
            (HASH_LEN + unit_size (if s = stripe_count blob_len ss - 1 then last_stripe_len blob_len ss else ss)
               (data_shards ec))) bodies"

lemma length_recv_units [simp]: "length (recv_units hash ec ss b bodies s) = length bodies"
  by (simp add: recv_units_def)

text \<open>
  A stripe can be decoded from what was read: every unit that passed its bitrot check is the unit
  that was written, and at least \<open>data\<close> units did.
\<close>

definition stripe_readable ::
  "rs_encode \<Rightarrow> hasher \<Rightarrow> erasure \<Rightarrow> nat \<Rightarrow> bytes \<Rightarrow> slots \<Rightarrow> nat \<Rightarrow> bool" where
  "stripe_readable rs_enc hash ec ss blob bodies s \<longleftrightarrow>
     slots_of (stripe_shards rs_enc ec (stripe_at ss blob s)) (recv_units hash ec ss (length blob) bodies s) \<and>
     data_shards ec \<le> present_count (recv_units hash ec ss (length blob) bodies s)"

lemma decode_stripe_recv:
  assumes "l = (if s = stripe_count b ss - 1 then last_stripe_len b ss else ss)"
  shows "decode_stripe rs_dec hash ec ss b bodies s (out, bad) =
    and_then (map_err GW_Ec (reconstruct rs_dec ec (recv_units hash ec ss b bodies s))) (\<lambda>units.
      if list_all (\<lambda>u. u \<noteq> None) (take (data_shards ec) units) then
        (let stripe_data = concat (map the (take (data_shards ec) units)) in
         if l \<le> length stripe_data
         then Ok (out @ take l stripe_data, map2 (\<lambda>b u. b \<or> u = None) bad (recv_units hash ec ss b bodies s))
         else Err GW_Panic)
      else Err GW_Panic)"
  unfolding decode_stripe_def recv_units_def assms
  by (cases "s = stripe_count b ss - 1") (simp_all only: if_True if_False Let_def prod.case simp_thms refl)

lemma decode_stripe_Ok:
  assumes con: "rs_contract rs_enc rs_dec (data_shards ec) (parity_shards ec)" and pos: "0 < data_shards ec"
    and ss: "0 < ss" and s: "s < stripe_count (length blob) ss"
    and rd: "stripe_readable rs_enc hash ec ss blob bodies s"
  shows "decode_stripe rs_dec hash ec ss (length blob) bodies s (out, bad) =
    Ok (out @ stripe_at ss blob s,
        map2 (\<lambda>b u. b \<or> u = None) bad (recv_units hash ec ss (length blob) bodies s))"
proof -
  let ?st = "stripe_at ss blob s" and ?n = "data_shards ec"
  let ?units = "recv_units hash ec ss (length blob) bodies s"
  have ne: "?st \<noteq> []" using stripe_start [OF ss s] ss by (simp add: stripe_at_def)
  obtain parity where enc: "ec_encode rs_enc ec (data_units ?n ?st) = Ok parity"
    and sh: "stripe_shards rs_enc ec ?st = data_units ?n ?st @ parity"
    by (rule stripe_shards_obtain [OF con pos ne])
  have slots: "slots_of (data_units ?n ?st @ parity) ?units" and many: "?n \<le> present_count ?units"
    using rd sh by (simp_all add: stripe_readable_def)
  obtain units' where rec: "reconstruct rs_dec ec ?units = Ok units'" and len: "length units' = total_shards ec"
    and dat: "\<forall>i < ?n. units' ! i = Some (data_units ?n ?st ! i)"
    by (rule reconstruct_correct [OF con data_units_stripe_ok [OF pos ne] pos enc slots many])
  have tk: "take ?n units' = map Some (data_units ?n ?st)"
    using len dat by (intro nth_equalityI) (auto simp: total_shards_def)
  show ?thesis
    unfolding decode_stripe_recv [OF length_stripe_at [OF ss s]]
    using rec tk data_units_concat [OF pos, of ?st] by (simp add: list_all_iff comp_def)
qed

definition healed_in :: "hasher \<Rightarrow> erasure \<Rightarrow> nat \<Rightarrow> nat \<Rightarrow> slots \<Rightarrow> nat set \<Rightarrow> nat \<Rightarrow> bool" where
  "healed_in hash ec ss b bodies S j \<longleftrightarrow> (\<exists>s \<in> S. recv_units hash ec ss b bodies s ! j = None)"

lemma decode_stripes_Ok:
  assumes "rs_contract rs_enc rs_dec (data_shards ec) (parity_shards ec)" and "0 < data_shards ec"
    and "0 < ss" and "length bodies = total_shards ec"
    and "\<forall>s \<in> set todo. s < stripe_count (length blob) ss \<and> stripe_readable rs_enc hash ec ss blob bodies s"
  shows "decode_stripes rs_dec hash ec ss (length blob) bodies todo
      (concat (map (stripe_at ss blob) ds),
       map (healed_in hash ec ss (length blob) bodies (set ds)) [0..<total_shards ec])
    = Ok (concat (map (stripe_at ss blob) (ds @ todo)),
       map (healed_in hash ec ss (length blob) bodies (set (ds @ todo))) [0..<total_shards ec])"
  using assms(5)
proof (induction todo arbitrary: ds)
  case (Cons s todo)
  let ?H = "\<lambda>ds. map (healed_in hash ec ss (length blob) bodies (set ds)) [0..<total_shards ec]"
  have "map2 (\<lambda>b u. b \<or> u = None) (?H ds) (recv_units hash ec ss (length blob) bodies s) = ?H (ds @ [s])"
    using assms(4) by (auto simp: healed_in_def intro!: nth_equalityI)
  then show ?case
    using decode_stripe_Ok [OF assms(1-3), of s blob hash bodies] Cons.IH [of "ds @ [s]"] Cons.prems by simp
qed simp

lemma decode_blob_Ok:
  assumes "rs_contract rs_enc rs_dec (data_shards ec) (parity_shards ec)" and "0 < data_shards ec"
    and "0 < ss" and "length bodies = total_shards ec"
    and "\<forall>s < stripe_count (length blob) ss. stripe_readable rs_enc hash ec ss blob bodies s"
  shows "decode_blob rs_dec hash ec ss (length blob) bodies =
    Ok \<lparr>db_bytes = blob,
        db_healed = filter (healed_in hash ec ss (length blob) bodies {..<stripe_count (length blob) ss})
                      [0..<total_shards ec]\<rparr>"
proof (cases "blob = []")
  case True
  then show ?thesis using assms(4) by (simp add: decode_blob_def healed_in_def)
next
  case False
  let ?todo = "[0..<stripe_count (length blob) ss]"
  have "replicate (total_shards ec) False =
      map (healed_in hash ec ss (length blob) bodies (set [])) [0..<total_shards ec]"
    by (auto simp: healed_in_def intro: nth_equalityI)
  then have "decode_stripes rs_dec hash ec ss (length blob) bodies ?todo ([], replicate (total_shards ec) False)
      = Ok (blob, map (healed_in hash ec ss (length blob) bodies (set ?todo)) [0..<total_shards ec])"
    using decode_stripes_Ok [OF assms(1-4), of ?todo blob hash "[]"] assms(5) concat_stripes [OF assms(3)]
    by simp
  then show ?thesis
    using False assms(4) by (auto simp: decode_blob_def Let_def atLeast0LessThan intro!: filter_cong)
qed

section \<open>Bodies as they were written\<close>

lemma length_stripe_shard:
  assumes "rs_contract rs_enc rs_dec (data_shards ec) (parity_shards ec)" and "0 < data_shards ec"
    and "0 < ss" and "s < stripe_count (length blob) ss" and "j < total_shards ec"
  shows "length (stripe_shards rs_enc ec (stripe_at ss blob s) ! j) =
    unit_size (if s = stripe_count (length blob) ss - 1 then last_stripe_len (length blob) ss else ss) (data_shards ec)"
proof -
  have "stripe_at ss blob s \<noteq> []" using stripe_start [OF assms(3,4)] assms(3) by (simp add: stripe_at_def)
  then obtain parity where "length (stripe_shards rs_enc ec (stripe_at ss blob s)) = total_shards ec"
    "\<forall>u \<in> set (stripe_shards rs_enc ec (stripe_at ss blob s)).
       length u = unit_size (length (stripe_at ss blob s)) (data_shards ec)"
    by (rule stripe_shards_obtain [OF assms(1,2)])
  then have "length (stripe_shards rs_enc ec (stripe_at ss blob s) ! j)
      = unit_size (length (stripe_at ss blob s)) (data_shards ec)"
    using assms(5) by simp
  then show ?thesis using length_stripe_at [OF assms(3,4)] by simp
qed

lemma frame_unit_original:
  assumes "rs_contract rs_enc rs_dec (data_shards ec) (parity_shards ec)" and "0 < data_shards ec"
    and "0 < ss" and "hash_ok hash" and s: "s < stripe_count (length blob) ss" and j: "j < total_shards ec"
  shows "frame_unit hash (frame_offset s (unit_size ss (data_shards ec)))
      (HASH_LEN + unit_size (if s = stripe_count (length blob) ss - 1 then last_stripe_len (length blob) ss else ss)
        (data_shards ec)) (Some (shard_body rs_enc hash ec ss blob j))
    = Some (stripe_shards rs_enc ec (stripe_at ss blob s) ! j)"
proof -
  let ?us = "map (\<lambda>s. stripe_shards rs_enc ec (stripe_at ss blob s) ! j) [0..<stripe_count (length blob) ss]"
  have full: "\<forall>i < s. length (?us ! i) = unit_size ss (data_shards ec)"
    using s j length_stripe_shard [OF assms(1-3)] by auto
  have "s < length ?us" using s by simp
  from frame_at [OF assms(4) this full] show ?thesis
    using length_stripe_shard [OF assms(1-3) s j] s assms(4)
    by (simp add: frame_unit_def shard_body_def)
qed

lemma recv_units_nth:
  assumes "rs_contract rs_enc rs_dec (data_shards ec) (parity_shards ec)" and "0 < data_shards ec"
    and "0 < ss" and "hash_ok hash" and "s < stripe_count (length blob) ss"
    and "slots_of (map (shard_body rs_enc hash ec ss blob) [0..<total_shards ec]) received"
    and "j < total_shards ec"
  shows "recv_units hash ec ss (length blob) received s ! j =
    (if received ! j = None then None else Some (stripe_shards rs_enc ec (stripe_at ss blob s) ! j))"
  using slots_of_nth [OF assms(6), of j] slots_of_length [OF assms(6)]
    frame_unit_original [OF assms(1-5,7)] assms(7)
  by (auto simp: recv_units_def frame_unit_def)

lemma stripe_readable_original:
  assumes "rs_contract rs_enc rs_dec (data_shards ec) (parity_shards ec)" and "0 < data_shards ec"
    and "0 < ss" and "hash_ok hash" and s: "s < stripe_count (length blob) ss"
    and sl: "slots_of (map (shard_body rs_enc hash ec ss blob) [0..<total_shards ec]) received"
    and many: "data_shards ec \<le> present_count received"
  shows "stripe_readable rs_enc hash ec ss blob received s"
proof -
  note nth = recv_units_nth [OF assms(1-6)]
  have len: "length received = total_shards ec" using slots_of_length [OF sl] by simp
  have ne: "stripe_at ss blob s \<noteq> []" using stripe_start [OF assms(3) s] assms(3) by (simp add: stripe_at_def)
  obtain parity where sh: "length (stripe_shards rs_enc ec (stripe_at ss blob s)) = total_shards ec"
    by (rule stripe_shards_obtain [OF assms(1,2) ne])
  have "slots_of (stripe_shards rs_enc ec (stripe_at ss blob s)) (recv_units hash ec ss (length blob) received s)"
    using nth sh len by (auto simp: slots_of_def list_all2_conv_all_nth)
  moreover have "present_count (recv_units hash ec ss (length blob) received s) = present_count received"
    using nth len
    by (auto simp: present_count_index intro!: arg_cong [where f = length] filter_cong split: if_splits)
  ultimately show ?thesis using many by (simp add: stripe_readable_def)
qed

lemma healed_in_original:
  assumes "rs_contract rs_enc rs_dec (data_shards ec) (parity_shards ec)" and "0 < data_shards ec"
    and "0 < ss" and "hash_ok hash" and "blob \<noteq> []"
    and "slots_of (map (shard_body rs_enc hash ec ss blob) [0..<total_shards ec]) received"
    and "j < total_shards ec"
  shows "healed_in hash ec ss (length blob) received {..<stripe_count (length blob) ss} j \<longleftrightarrow> received ! j = None"
proof -
  have "0 < stripe_count (length blob) ss" using assms(3,5) by (simp add: stripe_count_pos)
  then show ?thesis
    using recv_units_nth [OF assms(1-4) _ assms(6,7)] by (auto simp: healed_in_def)
qed

lemma stripe_frame_lens_last:
  assumes "0 < ss" and "0 < b"
  shows "stripe_frame_lens b ss n =
    replicate (stripe_count b ss - 1) (HASH_LEN + unit_size ss n) @ [HASH_LEN + unit_size (last_stripe_len b ss) n]"
proof -
  obtain c where c: "stripe_count b ss = Suc c"
    using stripe_count_pos [OF assms] by (cases "stripe_count b ss") auto
  have "map (\<lambda>s. HASH_LEN + (if s = c then unit_size (last_stripe_len b ss) n else unit_size ss n)) [0..<c]
      = replicate c (HASH_LEN + unit_size ss n)"
    by (rule nth_equalityI) simp_all
  then show ?thesis by (simp add: stripe_frame_lens_def c)
qed

lemma sum_stripe_frame_lens:
  assumes "0 < ss"
  shows "sum_list (stripe_frame_lens b ss n) = shard_physical_blob_len b ss n"
proof (cases "b = 0")
  case True
  then show ?thesis by (simp add: stripe_frame_lens_def shard_physical_blob_len_def)
next
  case False
  obtain c where c: "stripe_count b ss = Suc c"
    using stripe_count_pos [of ss b] assms False by (cases "stripe_count b ss") auto
  show ?thesis
    using assms False c
    by (simp add: stripe_frame_lens_last sum_list_replicate shard_physical_blob_len_def
        shard_logical_len_eq algebra_simps)
qed

lemma frame_lens_shard_body:
  assumes "rs_contract rs_enc rs_dec (data_shards ec) (parity_shards ec)" and "0 < data_shards ec"
    and "0 < ss" and "hash_ok hash" and "j < total_shards ec"
  shows "length (shard_body rs_enc hash ec ss blob j) = shard_physical_blob_len (length blob) ss (data_shards ec)"
proof -
  have "map (\<lambda>u. frame_len (length u))
      (map (\<lambda>s. stripe_shards rs_enc ec (stripe_at ss blob s) ! j) [0..<stripe_count (length blob) ss])
    = stripe_frame_lens (length blob) ss (data_shards ec)"
    using length_stripe_shard [OF assms(1-3) _ assms(5), of _ blob]
    by (auto simp: stripe_frame_lens_def Let_def frame_len_def)
  then show ?thesis
    using assms(3,4) sum_stripe_frame_lens [of ss] by (simp add: shard_body_def length_body_of)
qed

lemma erasure_new_pos: "erasure_new d p = Ok ec \<Longrightarrow> 0 < data_shards ec"
  by (auto simp: erasure_new_def split: if_splits)

section \<open>Properties\<close>

abbreviation "replica3 \<equiv> \<lparr>data_shards = 1, parity_shards = 2\<rparr>"

lemma replica3_new: "erasure_new 1 2 = Ok replica3"
  by (simp add: erasure_new_def MAX_SHARDS_def)

text \<open>\<open>encode_blob\<close> succeeds on every blob and returns \<open>data + parity\<close> bodies, each of exactly
  \<open>shard_physical_blob_len\<close> bytes, which is also the sum of \<open>stripe_frame_lens\<close>.\<close>

theorem encode_blob_shape:
  assumes "rs_contract rs_enc rs_dec (data_shards ec) (parity_shards ec)" and "erasure_new d p = Ok ec"
    and "0 < ss" and "hash_ok hash"
  shows "\<exists>bodies. encode_blob rs_enc hash ec ss blob = Ok bodies \<and> length bodies = d + p \<and>
    (\<forall>b \<in> set bodies. length b = shard_physical_blob_len (length blob) ss d \<and>
                     length b = sum_list (stripe_frame_lens (length blob) ss d))"
proof -
  have "d = data_shards ec" "total_shards ec = d + p"
    using assms(2) by (auto simp: erasure_new_def total_shards_def split: if_splits)
  then show ?thesis
    using encode_blob_Ok [OF assms(1) erasure_new_pos [OF assms(2)] assms(3), of hash blob]
      frame_lens_shard_body [OF assms(1) erasure_new_pos [OF assms(2)] assms(3,4)]
      sum_stripe_frame_lens [OF assms(3)] by auto
qed

theorem encode_blob_shape_witness:
  "\<exists>bodies. encode_blob replica_encode sample_hash replica3 64 [1, 2, 3] = Ok bodies \<and> length bodies = 3"
  using encode_blob_shape [of replica_encode replica_decode replica3 1 2 64 sample_hash "[1, 2, 3]"]
    replica_contract [of 2] replica3_new sample_hash_ok by auto

text \<open>C5: the erasure-coding round trip. Whatever \<open>encode_blob\<close> wrote, \<open>decode_blob\<close> returns the
  original bytes from any selection of at least \<open>data\<close> of the \<open>data + parity\<close> bodies, and for a
  non-empty blob the healed list is exactly the missing shard indices.\<close>

theorem decode_encode_erasures:
  assumes "rs_contract rs_enc rs_dec (data_shards ec) (parity_shards ec)" and "erasure_new d p = Ok ec"
    and "0 < ss" and "hash_ok hash"
    and enc: "encode_blob rs_enc hash ec ss blob = Ok bodies"
    and sl: "slots_of bodies received" and many: "d \<le> present_count received"
  shows "decode_blob rs_dec hash ec ss (length blob) received =
    Ok \<lparr>db_bytes = blob,
        db_healed = (if blob = [] then [] else filter (\<lambda>j. received ! j = None) [0..<d + p])\<rparr>"
proof -
  have ec: "d = data_shards ec" "total_shards ec = d + p" and pos: "0 < data_shards ec"
    using assms(2) by (auto simp: erasure_new_def total_shards_def split: if_splits)
  note con = assms(1) pos assms(3)
  have bodies: "bodies = map (shard_body rs_enc hash ec ss blob) [0..<total_shards ec]"
    using enc encode_blob_Ok [OF con, of hash blob] by simp
  have len: "length received = total_shards ec" using slots_of_length [OF sl] bodies by simp
  have rd: "\<forall>s < stripe_count (length blob) ss. stripe_readable rs_enc hash ec ss blob received s"
    using stripe_readable_original [OF con assms(4)] sl many bodies ec(1) by blast
  show ?thesis
  proof (cases "blob = []")
    case True
    then show ?thesis using len by (simp add: decode_blob_def)
  next
    case False
    then show ?thesis
      using decode_blob_Ok [OF con len rd] healed_in_original [OF con assms(4) False sl [unfolded bodies]] ec(2)
      by (auto intro!: filter_cong)
  qed
qed

theorem decode_encode_erasures_witness:
  "\<exists>b. decode_blob replica_decode sample_hash replica3 64 3 [None, Some b, None] =
     Ok \<lparr>db_bytes = [1, 2, 3], db_healed = [0, 2]\<rparr>"
proof -
  obtain bodies where enc: "encode_blob replica_encode sample_hash replica3 64 [1, 2, 3] = Ok bodies"
    and len: "length bodies = 3"
    using encode_blob_Ok [of replica_encode replica_decode replica3 64 sample_hash "[1, 2, 3]"]
      replica_contract [of 2] by (simp add: total_shards_def)
  have "slots_of bodies [None, Some (bodies ! 1), None]"
    using len by (auto simp: slots_of_def list_all2_conv_all_nth less_Suc_eq numeral_3_eq_3)
  then have "decode_blob replica_decode sample_hash replica3 64 (length [1::byte, 2, 3]) [None, Some (bodies ! 1), None] =
      Ok \<lparr>db_bytes = [1, 2, 3], db_healed = filter (\<lambda>j. [None, Some (bodies ! 1), None] ! j = None) [0..<1 + 2]\<rparr>"
    using decode_encode_erasures [of replica_encode replica_decode replica3 1 2 64 sample_hash "[1, 2, 3]" bodies
        "[None, Some (bodies ! 1), None]"] enc replica_contract [of 2] replica3_new sample_hash_ok
    by (simp add: present_count_def)
  then show ?thesis by (intro exI [of _ "bodies ! 1"]) (simp add: upt_rec numeral_2_eq_2 numeral_3_eq_3)
qed

text \<open>C4: heal-on-read under bitrot. The bodies read back may be arbitrary bytes, as long as in every
  stripe each unit that passes its bitrot check is the one originally written there (no hash
  collision) and at least \<open>data\<close> units pass. Then \<open>decode_blob\<close> returns the original bytes, and the
  healed list is exactly the shards that had a missing or failing frame in some stripe.\<close>

theorem decode_encode_bitrot:
  assumes "rs_contract rs_enc rs_dec (data_shards ec) (parity_shards ec)" and "erasure_new d p = Ok ec"
    and "0 < ss" and "hash_ok hash"
    and enc: "encode_blob rs_enc hash ec ss blob = Ok bodies" and len: "length received = d + p"
    and rd: "\<forall>s < stripe_count (length blob) ss.
      slots_of (map the (recv_units hash ec ss (length blob) (map Some bodies) s))
               (recv_units hash ec ss (length blob) received s) \<and>
      d \<le> present_count (recv_units hash ec ss (length blob) received s)"
  shows "decode_blob rs_dec hash ec ss (length blob) received =
    Ok \<lparr>db_bytes = blob,
        db_healed = filter (healed_in hash ec ss (length blob) received {..<stripe_count (length blob) ss})
                      [0..<d + p]\<rparr>"
proof -
  have ec: "d = data_shards ec" "total_shards ec = d + p" and pos: "0 < data_shards ec"
    using assms(2) by (auto simp: erasure_new_def total_shards_def split: if_splits)
  note con = assms(1) pos assms(3)
  have bodies: "bodies = map (shard_body rs_enc hash ec ss blob) [0..<total_shards ec]"
    using enc encode_blob_Ok [OF con, of hash blob] by simp
  have sl: "slots_of (map (shard_body rs_enc hash ec ss blob) [0..<total_shards ec]) (map Some bodies)"
    unfolding bodies by (simp add: slots_of_def list_all2_conv_all_nth)
  have "map the (recv_units hash ec ss (length blob) (map Some bodies) s)
      = stripe_shards rs_enc ec (stripe_at ss blob s)" if s: "s < stripe_count (length blob) ss" for s
  proof -
    have "stripe_at ss blob s \<noteq> []" using stripe_start [OF assms(3) s] assms(3) by (simp add: stripe_at_def)
    then obtain parity where "length (stripe_shards rs_enc ec (stripe_at ss blob s)) = total_shards ec"
      by (rule stripe_shards_obtain [OF con(1,2)])
    then show ?thesis
      using recv_units_nth [OF con assms(4) s sl] by (intro nth_equalityI) (auto simp: bodies)
  qed
  then have "\<forall>s < stripe_count (length blob) ss. stripe_readable rs_enc hash ec ss blob received s"
    using rd ec(1) by (simp add: stripe_readable_def)
  then show ?thesis using decode_blob_Ok [OF con] len ec(2) by simp
qed

text \<open>A one-stripe blob on three replicas: its body, and a corrupted copy of it.\<close>

definition sample_body :: bytes where
  "sample_body = ([1, 2, 3] @ replicate 29 0) @ [1, 2, 3] @ replicate 61 0"

definition rotten_body :: bytes where
  "rotten_body = ([1, 2, 3] @ replicate 29 0) @ [9, 2, 3] @ replicate 61 0"

lemma sample_evaluated:
  "encode_blob replica_encode sample_hash replica3 64 [1, 2, 3] = Ok [sample_body, sample_body, sample_body]"
  "stripe_count 3 64 = 1"
  "recv_units sample_hash replica3 64 3 [Some sample_body, Some sample_body, Some sample_body] 0
     = replicate 3 (Some ([1, 2, 3] @ replicate 61 0))"
  "recv_units sample_hash replica3 64 3 [Some rotten_body, Some sample_body, None] 0
     = [None, Some ([1, 2, 3] @ replicate 61 0), None]"
  by code_simp+

theorem decode_encode_bitrot_witness:
  "decode_blob replica_decode sample_hash replica3 64 3 [Some rotten_body, Some sample_body, None]
     = Ok \<lparr>db_bytes = [1, 2, 3], db_healed = [0, 2]\<rparr>"
  using decode_encode_bitrot [of replica_encode replica_decode replica3 1 2 64 sample_hash "[1, 2, 3]"
      "[sample_body, sample_body, sample_body]" "[Some rotten_body, Some sample_body, None]"]
    replica_contract [of 2] replica3_new sample_hash_ok sample_evaluated
  by (simp add: slots_of_def present_count_def healed_in_def numeral_3_eq_3 numeral_2_eq_2 upt_rec)

end
