(* ===== verification/Worker_Rebuild.thy ===== *)
theory Worker_Rebuild
  imports Gateway_Pipeline
begin

text \<open>
  Repair reconstruction of \<open>crates/epoch-worker/src/repair/rebuild.rs\<close>: regenerating the framed
  body of one shard from the surviving bodies of its stripe peers. The messages of
  \<open>SubtaskError\<close> are a datatype with one constructor per message of the source.
\<close>

datatype fail_reason =
    FR_ShardCount nat nat
  | FR_TargetRange nat nat
  | FR_BadFraming nat
  | FR_Reconstruct ec_error
  | FR_DataMissing
  | FR_ReEncode ec_error
  | FR_ParityRange

datatype not_ready_reason = NR_NoSurvivor | NR_FewClean nat nat

datatype subtask_error = NotReady not_ready_reason | SubtaskFailed fail_reason

text \<open>The loop that consumes full frames; it pushes onto \<open>lens\<close> and returns what remains.\<close>

function consume_frames :: "nat \<Rightarrow> nat \<Rightarrow> nat list \<Rightarrow> nat list \<times> nat" where
  "consume_frames unit_full remaining lens =
     (let full_frame = HASH_LEN + unit_full in
      if full_frame < remaining
      then consume_frames unit_full (remaining - full_frame) (lens @ [full_frame])
      else (lens, remaining))"
  by pat_completeness auto
termination
  by (relation "measure (\<lambda>(u, r, l). r)") (auto simp: HASH_LEN_def)

declare consume_frames.simps [simp del]

definition stripe_frame_lens_from_phys :: "nat \<Rightarrow> nat \<Rightarrow> nat \<Rightarrow> (subtask_error, nat list) result" where
  "stripe_frame_lens_from_phys phys stripe_size data =
     (let unit_full = unit_size stripe_size data;
          bad = SubtaskFailed (FR_BadFraming phys) in
      case consume_frames unit_full phys [] of
        (lens, remaining) \<Rightarrow>
          if remaining \<le> HASH_LEN then Err bad
          else
            let last_unit = remaining - HASH_LEN in
            if last_unit = 0 \<or> unit_full < last_unit \<or> \<not> SHARD_ALIGN dvd last_unit then Err bad
            else Ok (lens @ [remaining]))"

definition rebuild_stripe_unit ::
  "rs_encode \<Rightarrow> rs_decode \<Rightarrow> erasure \<Rightarrow> nat \<Rightarrow> slots \<Rightarrow> (subtask_error, bytes) result" where
  "rebuild_stripe_unit rs_enc rs_dec ec target units =
     (let n = data_shards ec; present = present_count units in
      if present < n then Err (NotReady (NR_FewClean present n))
      else and_then (map_err (\<lambda>e. SubtaskFailed (FR_Reconstruct e)) (reconstruct rs_dec ec units)) (\<lambda>units.
        if target < n then ok_or (SubtaskFailed FR_DataMissing) (units ! target)
        else
          and_then (collect_results (map (ok_or (SubtaskFailed FR_DataMissing)) (take n units))) (\<lambda>data_units.
          and_then (map_err (\<lambda>e. SubtaskFailed (FR_ReEncode e)) (ec_encode rs_enc ec data_units)) (\<lambda>parity.
            if target - n < length parity then Ok (parity ! (target - n))
            else Err (SubtaskFailed FR_ParityRange)))))"

text \<open>The clean units of one stripe, the slot under repair skipped.\<close>

definition survivor_units :: "hasher \<Rightarrow> nat \<Rightarrow> nat \<Rightarrow> nat \<Rightarrow> slots \<Rightarrow> slots" where
  "survivor_units hash target frame_off flen bodies =
     map (\<lambda>(j, body).
       if j = target then None
       else case body of
          None \<Rightarrow> None
        | Some b \<Rightarrow>
            (case get_range b frame_off (frame_off + flen) of
               None \<Rightarrow> None
             | Some frame \<Rightarrow> (case verify_frame hash frame of Inr data \<Rightarrow> Some data | Inl _ \<Rightarrow> None)))
       (enumerate 0 bodies)"

fun rebuild_stripes ::
  "rs_encode \<Rightarrow> rs_decode \<Rightarrow> hasher \<Rightarrow> erasure \<Rightarrow> nat \<Rightarrow> slots \<Rightarrow> nat list \<Rightarrow> nat \<Rightarrow> bytes
     \<Rightarrow> (subtask_error, bytes) result" where
  "rebuild_stripes rs_enc rs_dec hash ec target bodies [] frame_off out = Ok out"
| "rebuild_stripes rs_enc rs_dec hash ec target bodies (flen # lens) frame_off out =
     and_then (rebuild_stripe_unit rs_enc rs_dec ec target
                 (survivor_units hash target frame_off flen bodies)) (\<lambda>rebuilt_unit.
       rebuild_stripes rs_enc rs_dec hash ec target bodies lens (frame_off + flen)
         (write_frame hash rebuilt_unit out))"

text \<open>The physical length, from the first body other than the target that was read.\<close>

definition survivor_len :: "nat \<Rightarrow> slots \<Rightarrow> nat option" where
  "survivor_len target bodies =
     map_option (\<lambda>(_, b). length (the b))
       (List.find (\<lambda>(j, b). b \<noteq> None) (filter (\<lambda>(j, _). j \<noteq> target) (enumerate 0 bodies)))"

definition rebuild_shard_body ::
  "rs_encode \<Rightarrow> rs_decode \<Rightarrow> hasher \<Rightarrow> erasure \<Rightarrow> nat \<Rightarrow> nat \<Rightarrow> slots \<Rightarrow> (subtask_error, bytes) result" where
  "rebuild_shard_body rs_enc rs_dec hash ec stripe_size target bodies =
     (let n = data_shards ec; total = total_shards ec in
      if length bodies \<noteq> total then Err (SubtaskFailed (FR_ShardCount total (length bodies)))
      else if total \<le> target then Err (SubtaskFailed (FR_TargetRange target total))
      else and_then (ok_or (NotReady NR_NoSurvivor) (survivor_len target bodies)) (\<lambda>phys.
        if phys = 0 then Ok []
        else and_then (stripe_frame_lens_from_phys phys stripe_size n) (\<lambda>frame_lens.
          rebuild_stripes rs_enc rs_dec hash ec target bodies frame_lens 0 [])))"

section \<open>Framing from the physical length\<close>

lemma consume_frames_full:
  assumes "0 < r" and "r \<le> HASH_LEN + u"
  shows "consume_frames u (k * (HASH_LEN + u) + r) lens = (lens @ replicate k (HASH_LEN + u), r)"
proof (induction k arbitrary: lens)
  case 0
  show ?case using assms by (subst consume_frames.simps) (simp add: Let_def)
next
  case (Suc k)
  have "HASH_LEN + u < Suc k * (HASH_LEN + u) + r" using assms by simp
  moreover have "Suc k * (HASH_LEN + u) + r - (HASH_LEN + u) = k * (HASH_LEN + u) + r" by simp
  ultimately show ?case
    using Suc.IH [of "lens @ [HASH_LEN + u]"] by (subst consume_frames.simps) (simp add: Let_def)
qed

lemma consume_frames_sound:
  "consume_frames u phys lens = (lens', r) \<Longrightarrow>
     \<exists>k. lens' = lens @ replicate k (HASH_LEN + u) \<and> phys = k * (HASH_LEN + u) + r \<and> r \<le> HASH_LEN + u"
proof (induction u phys lens rule: consume_frames.induct)
  case (1 u phys lens)
  show ?case
  proof (cases "HASH_LEN + u < phys")
    case True
    then have "consume_frames u (phys - (HASH_LEN + u)) (lens @ [HASH_LEN + u]) = (lens', r)"
      using "1.prems" by (subst (asm) consume_frames.simps) (simp add: Let_def)
    from "1.IH" [OF refl True this] obtain k where
      "lens' = (lens @ [HASH_LEN + u]) @ replicate k (HASH_LEN + u)"
      "phys - (HASH_LEN + u) = k * (HASH_LEN + u) + r" "r \<le> HASH_LEN + u" by blast
    then show ?thesis using True by (intro exI [of _ "Suc k"]) simp
  next
    case False
    then have "lens' = lens" "r = phys"
      using "1.prems" by (subst (asm) consume_frames.simps, simp add: Let_def)+
    then show ?thesis using False by (intro exI [of _ 0]) simp
  qed
qed

lemma shard_physical_blob_len_eq:
  assumes "0 < ss" and "0 < b"
  shows "shard_physical_blob_len b ss n =
    (stripe_count b ss - 1) * (HASH_LEN + unit_size ss n) + (HASH_LEN + unit_size (last_stripe_len b ss) n)"
  using sum_stripe_frame_lens [OF assms(1), of b n] stripe_frame_lens_last [OF assms, of n]
  by (simp add: sum_list_replicate)

lemma frame_lens_from_phys:
  assumes "0 < ss" and "0 < n" and "0 < b"
  shows "stripe_frame_lens_from_phys (shard_physical_blob_len b ss n) ss n = Ok (stripe_frame_lens b ss n)"
proof -
  let ?u = "unit_size ss n" and ?l = "unit_size (last_stripe_len b ss) n"
  have l: "0 < ?l" "?l \<le> ?u" "SHARD_ALIGN dvd ?l"
    using assms by (auto simp: layout_simps last_stripe_len_pos unit_size_mono last_stripe_len_le)
  have "consume_frames ?u (shard_physical_blob_len b ss n) []
      = (replicate (stripe_count b ss - 1) (HASH_LEN + ?u), HASH_LEN + ?l)"
    using consume_frames_full [of "HASH_LEN + ?l" ?u "stripe_count b ss - 1" "[]"] l
      shard_physical_blob_len_eq [OF assms(1,3)] by simp
  then show ?thesis
    using l by (simp add: stripe_frame_lens_from_phys_def Let_def stripe_frame_lens_last [OF assms(1,3)])
qed

section \<open>Rebuilding\<close>

lemma survivor_units_frame_unit:
  assumes "target < length bodies"
  shows "survivor_units hash target off flen bodies = map (frame_unit hash off flen) (bodies[target := None])"
  using assms
  by (auto simp: survivor_units_def frame_unit_def nth_enumerate_eq nth_list_update
      intro!: nth_equalityI split: option.splits sum.splits)

lemma collect_ok_or: "collect_results (map (ok_or e) (map Some xs)) = Ok xs"
  by (induction xs) simp_all

lemma rebuild_stripe_unit_Ok:
  assumes con: "rs_contract rs_enc rs_dec (data_shards ec) (parity_shards ec)" and pos: "0 < data_shards ec"
    and ne: "stripe \<noteq> []" and slots: "slots_of (stripe_shards rs_enc ec stripe) units"
    and many: "data_shards ec \<le> present_count units" and t: "target < total_shards ec"
  shows "rebuild_stripe_unit rs_enc rs_dec ec target units = Ok (stripe_shards rs_enc ec stripe ! target)"
proof -
  let ?n = "data_shards ec" and ?d = "data_units (data_shards ec) stripe"
  obtain parity where enc: "ec_encode rs_enc ec ?d = Ok parity"
    and sh: "stripe_shards rs_enc ec stripe = ?d @ parity"
    and len: "length (stripe_shards rs_enc ec stripe) = total_shards ec"
    by (rule stripe_shards_obtain [OF con pos ne])
  have slots': "slots_of (?d @ parity) units" using slots sh by simp
  obtain out where rec: "reconstruct rs_dec ec units = Ok out" and lo: "length out = total_shards ec"
    and dat: "\<forall>i < ?n. out ! i = Some (?d ! i)"
    by (rule reconstruct_correct [OF con data_units_stripe_ok [OF pos ne] pos enc slots' many])
  have tk: "take ?n out = map Some ?d"
    using lo dat by (intro nth_equalityI) (auto simp: total_shards_def)
  show ?thesis
  proof (cases "target < ?n")
    case True
    then show ?thesis using rec dat sh many by (simp add: rebuild_stripe_unit_def Let_def nth_append)
  next
    case False
    then have "target - ?n < length parity" using t len sh by (simp add: total_shards_def)
    then show ?thesis
      using False rec tk enc sh many collect_ok_or [of "SubtaskFailed FR_DataMissing" ?d]
      by (simp add: rebuild_stripe_unit_def Let_def nth_append)
  qed
qed

lemma stripe_frame_lens_nth:
  assumes "s < stripe_count b ss"
  shows "stripe_frame_lens b ss n ! s =
    HASH_LEN + unit_size (if s = stripe_count b ss - 1 then last_stripe_len b ss else ss) n"
  using assms by (auto simp: stripe_frame_lens_def Let_def)

lemma length_stripe_frame_lens [simp]: "length (stripe_frame_lens b ss n) = stripe_count b ss"
  by (simp add: stripe_frame_lens_def Let_def)

lemma rebuild_stripes_Ok:
  assumes con: "rs_contract rs_enc rs_dec (data_shards ec) (parity_shards ec)" and pos: "0 < data_shards ec"
    and ss: "0 < ss" and len: "length bodies = total_shards ec" and t: "target < total_shards ec"
    and rd: "\<forall>s < stripe_count (length blob) ss. stripe_readable rs_enc hash ec ss blob (bodies[target := None]) s"
  shows "lens = drop k (stripe_frame_lens (length blob) ss (data_shards ec)) \<Longrightarrow>
     (lens \<noteq> [] \<longrightarrow> off = frame_offset k (unit_size ss (data_shards ec))) \<Longrightarrow>
     rebuild_stripes rs_enc rs_dec hash ec target bodies lens off out =
       Ok (out @ body_of hash (map (\<lambda>s. stripe_shards rs_enc ec (stripe_at ss blob s) ! target)
             [k..<stripe_count (length blob) ss]))"
proof (induction lens arbitrary: k off out)
  case Nil
  then show ?case by simp
next
  case (Cons fl lens)
  let ?c = "stripe_count (length blob) ss" and ?F = "\<lambda>s. stripe_shards rs_enc ec (stripe_at ss blob s)"
  let ?L = "stripe_frame_lens (length blob) ss (data_shards ec)"
  have k: "k < ?c"
  proof (rule ccontr)
    assume "\<not> k < ?c"
    then have "drop k ?L = []" by simp
    then show False using Cons.prems(1) by simp
  qed
  then have fl: "fl = ?L ! k" and rest: "lens = drop (Suc k) ?L"
    using Cons.prems(1) by (simp_all add: Cons_nth_drop_Suc [symmetric])
  have off: "off = frame_offset k (unit_size ss (data_shards ec))" using Cons.prems(2) by simp
  have "survivor_units hash target off fl bodies = recv_units hash ec ss (length blob) (bodies[target := None]) k"
    using t len fl off stripe_frame_lens_nth [OF k]
    by (simp add: survivor_units_frame_unit recv_units_def)
  moreover have "stripe_at ss blob k \<noteq> []" using stripe_start [OF ss k] ss by (simp add: stripe_at_def)
  ultimately have unit: "rebuild_stripe_unit rs_enc rs_dec ec target (survivor_units hash target off fl bodies)
      = Ok (?F k ! target)"
    using rebuild_stripe_unit_Ok [OF con pos _ _ _ t] rd k by (simp add: stripe_readable_def)
  have "lens \<noteq> [] \<longrightarrow> off + fl = frame_offset (Suc k) (unit_size ss (data_shards ec))"
    using rest k fl off stripe_frame_lens_nth [OF k, of "data_shards ec"]
    by (auto simp: frame_offset_def)
  from Cons.IH [OF rest this] show ?case
    using unit k by (simp add: upt_conv_Cons body_of_Cons write_frame_def)
qed

lemma find_SomeD: "List.find P xs = Some x \<Longrightarrow> x \<in> set xs \<and> P x"
  by (induction xs) (auto split: if_splits)

lemma survivor_len_Some:
  assumes "\<forall>j b. j < length bodies \<and> j \<noteq> target \<and> bodies ! j = Some b \<longrightarrow> length b = phys"
    and "j < length bodies" and "j \<noteq> target" and "bodies ! j \<noteq> None"
  shows "survivor_len target bodies = Some phys"
proof -
  let ?f = "List.find (\<lambda>(j, b). b \<noteq> None) (filter (\<lambda>(j, _). j \<noteq> target) (enumerate 0 bodies))"
  have "(j, bodies ! j) \<in> set (enumerate 0 bodies)"
    using assms(2) by (auto simp: in_set_enumerate_eq)
  then have "\<exists>x. x \<in> set (filter (\<lambda>(j, _). j \<noteq> target) (enumerate 0 bodies)) \<and> (\<lambda>(j, b). b \<noteq> None) x"
    using assms(3,4) by (intro exI [of _ "(j, bodies ! j)"]) simp
  then have "?f \<noteq> None" unfolding find_None_iff by blast
  then obtain i b where f: "?f = Some (i, b)" by auto
  then have "i < length bodies" "i \<noteq> target" "bodies ! i = b" "b \<noteq> None"
    using find_SomeD [OF f] by (auto simp: in_set_enumerate_eq)
  then show ?thesis using f assms(1) by (auto simp: survivor_len_def)
qed

lemma present_masked:
  assumes "0 < present_count (bodies[target := None])"
  obtains j where "j < length bodies" and "j \<noteq> target" and "bodies ! j \<noteq> None"
proof -
  obtain i where "i < length bodies" "(bodies[target := None]) ! i \<noteq> None"
    using assms by (auto simp: present_count_index filter_empty_conv)
  then show ?thesis using that [of i] by (cases "i = target") auto
qed

lemma rebuild_shard_body_Ok:
  assumes con: "rs_contract rs_enc rs_dec (data_shards ec) (parity_shards ec)" and pos: "0 < data_shards ec"
    and ss: "0 < ss" and len: "length bodies = total_shards ec" and t: "target < total_shards ec"
    and surv: "0 < present_count (bodies[target := None])"
    and phys: "\<forall>j b. j < length bodies \<and> j \<noteq> target \<and> bodies ! j = Some b \<longrightarrow>
      length b = shard_physical_blob_len (length blob) ss (data_shards ec)"
    and rd: "\<forall>s < stripe_count (length blob) ss. stripe_readable rs_enc hash ec ss blob (bodies[target := None]) s"
  shows "rebuild_shard_body rs_enc rs_dec hash ec ss target bodies = Ok (shard_body rs_enc hash ec ss blob target)"
proof -
  obtain j where "j < length bodies" "j \<noteq> target" "bodies ! j \<noteq> None" by (rule present_masked [OF surv])
  then have sl: "survivor_len target bodies = Some (shard_physical_blob_len (length blob) ss (data_shards ec))"
    by (rule survivor_len_Some [OF phys])
  show ?thesis
  proof (cases "blob = []")
    case True
    then show ?thesis
      using sl len t by (simp add: rebuild_shard_body_def Let_def shard_physical_blob_len_def shard_body_def)
  next
    case False
    then have "0 < shard_physical_blob_len (length blob) ss (data_shards ec)"
      using ss by (simp add: shard_physical_blob_len_eq)
    then show ?thesis
      using sl len t frame_lens_from_phys [OF ss pos, of "length blob"] False
        rebuild_stripes_Ok [OF con pos ss len t rd, of _ 0 0 "[]"]
      by (simp add: rebuild_shard_body_def Let_def frame_offset_def shard_body_def)
  qed
qed

section \<open>Properties\<close>

text \<open>C6: repair is byte-identical. From any selection of the bodies that \<open>encode_blob\<close> produced in
  which at least \<open>data\<close> shards other than the target survive, \<open>rebuild_shard_body\<close> returns exactly
  the body originally written for the target, data or parity, whatever the target's own slot holds.\<close>

theorem rebuild_byte_identical:
  assumes "rs_contract rs_enc rs_dec (data_shards ec) (parity_shards ec)" and "erasure_new d p = Ok ec"
    and "0 < ss" and "hash_ok hash"
    and enc: "encode_blob rs_enc hash ec ss blob = Ok bodies" and t: "target < d + p"
    and sl: "slots_of bodies (received[target := None])"
    and many: "d \<le> present_count (received[target := None])"
  shows "rebuild_shard_body rs_enc rs_dec hash ec ss target received = Ok (bodies ! target)"
proof -
  have ec: "d = data_shards ec" "total_shards ec = d + p" and pos: "0 < data_shards ec"
    using assms(2) by (auto simp: erasure_new_def total_shards_def split: if_splits)
  note con = assms(1) pos assms(3)
  have bodies: "bodies = map (shard_body rs_enc hash ec ss blob) [0..<total_shards ec]"
    using enc encode_blob_Ok [OF con, of hash blob] by simp
  have len: "length received = total_shards ec" using slots_of_length [OF sl] bodies by simp
  have phys: "\<forall>j b. j < length received \<and> j \<noteq> target \<and> received ! j = Some b \<longrightarrow>
      length b = shard_physical_blob_len (length blob) ss (data_shards ec)"
  proof (intro allI impI)
    fix j b assume j: "j < length received \<and> j \<noteq> target \<and> received ! j = Some b"
    then have "b = shard_body rs_enc hash ec ss blob j"
      using slots_of_nth [OF sl, of j] bodies len by auto
    then show "length b = shard_physical_blob_len (length blob) ss (data_shards ec)"
      using frame_lens_shard_body [OF con assms(4)] j len by simp
  qed
  have "\<forall>s < stripe_count (length blob) ss. stripe_readable rs_enc hash ec ss blob (received[target := None]) s"
    using stripe_readable_original [OF con assms(4)] sl many bodies ec(1) by blast
  then show ?thesis
    using rebuild_shard_body_Ok [OF con len _ _ phys] t many pos ec bodies by simp
qed

theorem rebuild_byte_identical_witness:
  "rebuild_shard_body replica_encode replica_decode sample_hash replica3 64 2
     [None, Some sample_body, Some rotten_body] = Ok sample_body"
  using rebuild_byte_identical [of replica_encode replica_decode replica3 1 2 64 sample_hash "[1, 2, 3]"
      "[sample_body, sample_body, sample_body]" 2 "[None, Some sample_body, Some rotten_body]"]
    replica_contract [of 2] replica3_new sample_hash_ok sample_evaluated(1)
  by (simp add: slots_of_def present_count_def numeral_2_eq_2)

text \<open>C7: the framing a repair infers from a body's length is the framing the encoder used, for every
  blob length, stripe size and data-shard count; and any length it accepts is the sum of the frame
  lengths it returns, all full but the last, which carries a positive multiple of the alignment.\<close>

theorem frame_lens_from_phys_spec:
  assumes "0 < ss" and "0 < n"
  shows "(\<forall>b. 0 < b \<longrightarrow> stripe_frame_lens_from_phys (shard_physical_blob_len b ss n) ss n
            = Ok (stripe_frame_lens b ss n)) \<and>
    (\<forall>phys lens. stripe_frame_lens_from_phys phys ss n = Ok lens \<longrightarrow>
       sum_list lens = phys \<and> lens \<noteq> [] \<and>
       (\<forall>l \<in> set (butlast lens). l = HASH_LEN + unit_size ss n) \<and>
       (\<exists>u. last lens = HASH_LEN + u \<and> 0 < u \<and> u \<le> unit_size ss n \<and> SHARD_ALIGN dvd u))"
proof (intro conjI allI impI)
  fix b :: nat assume "0 < b"
  then show "stripe_frame_lens_from_phys (shard_physical_blob_len b ss n) ss n = Ok (stripe_frame_lens b ss n)"
    by (rule frame_lens_from_phys [OF assms])
next
  fix phys lens assume ok: "stripe_frame_lens_from_phys phys ss n = Ok lens"
  obtain pre r where c: "consume_frames (unit_size ss n) phys [] = (pre, r)" by fastforce
  obtain k where k: "pre = replicate k (HASH_LEN + unit_size ss n)"
    "phys = k * (HASH_LEN + unit_size ss n) + r" using consume_frames_sound [OF c] by auto
  have r: "lens = pre @ [r]" "HASH_LEN < r" "r - HASH_LEN \<le> unit_size ss n" "SHARD_ALIGN dvd r - HASH_LEN"
    using ok c by (auto simp: stripe_frame_lens_from_phys_def Let_def split: if_splits)
  then show "sum_list lens = phys" "lens \<noteq> []" "\<forall>l \<in> set (butlast lens). l = HASH_LEN + unit_size ss n"
    "\<exists>u. last lens = HASH_LEN + u \<and> 0 < u \<and> u \<le> unit_size ss n \<and> SHARD_ALIGN dvd u"
    using k by (auto simp: sum_list_replicate intro!: exI [of _ "r - HASH_LEN"])
qed

theorem frame_lens_from_phys_spec_witness:
  "stripe_frame_lens_from_phys (shard_physical_blob_len 200 100 2) 100 2 = Ok (stripe_frame_lens 200 100 2)"
  using frame_lens_from_phys_spec [of 100 2] by simp

end
