(* ===== verification/Rpc_Codec.thy ===== *)
theory Rpc_Codec
  imports Ids
begin

text \<open>
  The data-plane wire format: the control structs of \<open>crates/epoch-rpc/src/codec.rs\<close>, the 50-byte
  frame header of \<open>crates/epoch-rpc/src/frame.rs\<close> and the frame I/O of \<open>crates/epoch-rpc/src/conn.rs\<close>
  over byte streams. The locale \<open>wire_codec\<close> is the contract of a fixed-size codec, and
  \<open>canonical_codec\<close> that of one whose decoder accepts only what its encoder produces; every codec is
  an instance. CRC32C is a parameter \<open>crc\<close>, on which no round trip depends.
\<close>

section \<open>The codec contract\<close>

locale wire_codec =
  fixes enc :: "'a \<Rightarrow> bytes" and dec :: "bytes \<Rightarrow> ('e, 'a) result" and width :: nat
  assumes enc_length: "length (enc x) = width"
    and dec_enc: "dec (enc x @ rest) = Ok x"
begin

lemma dec_exact: "dec (enc x) = Ok x"
  using dec_enc [of x "[]"] by simp

lemma enc_inject: "enc x = enc y \<longleftrightarrow> x = y"
  by (metis dec_exact sum.inject(2))

lemma enc_prefix_free: "enc x @ r = enc y @ r' \<longleftrightarrow> x = y \<and> r = r'"
  by (metis append_same_eq dec_enc sum.inject(2) same_append_eq)

lemma first_chunk_enc: "first_chunk width (enc x @ rest) = Some (enc x)"
  by (simp add: enc_length)

end

locale canonical_codec = wire_codec enc dec width
  for enc :: "'a \<Rightarrow> bytes" and dec :: "bytes \<Rightarrow> ('e, 'a) result" and width :: nat +
  assumes enc_dec: "dec buf = Ok x \<Longrightarrow> width \<le> length buf \<and> enc x = take width buf"
begin

lemma dec_iff: "dec buf = Ok x \<longleftrightarrow> (\<exists>rest. buf = enc x @ rest)"
  using enc_dec [of buf x] dec_enc [of x] by (metis append_take_drop_id)

lemma dec_short: "length buf < width \<Longrightarrow> \<exists>e. dec buf = Err e"
  using enc_dec [of buf] by (cases "dec buf") auto

end

section \<open>Opcodes\<close>

definition FLAG_READ_HIT :: byte where "FLAG_READ_HIT = 1"

datatype pcode =
    P_CreateExtent | P_CreateExtentResp | P_Open | P_Data | P_End | P_CommitAck | P_ReadShard
  | P_ReadShardResp | P_Error | P_OpenAck | P_Seal | P_SealResp | P_DeleteBlob | P_DeleteBlobResp
  | P_Abort | P_ListBlobs | P_ListBlobsResp

fun to_u16 :: "pcode \<Rightarrow> u16" where
  "to_u16 P_CreateExtent = 1"
| "to_u16 P_CreateExtentResp = 2"
| "to_u16 P_Open = 3"
| "to_u16 P_Data = 4"
| "to_u16 P_End = 5"
| "to_u16 P_CommitAck = 6"
| "to_u16 P_ReadShard = 7"
| "to_u16 P_ReadShardResp = 8"
| "to_u16 P_Error = 9"
| "to_u16 P_OpenAck = 10"
| "to_u16 P_Seal = 11"
| "to_u16 P_SealResp = 12"
| "to_u16 P_DeleteBlob = 13"
| "to_u16 P_DeleteBlobResp = 14"
| "to_u16 P_Abort = 15"
| "to_u16 P_ListBlobs = 16"
| "to_u16 P_ListBlobsResp = 17"

definition from_u16 :: "u16 \<Rightarrow> pcode option" where
  "from_u16 v =
     (if v = 1 then Some P_CreateExtent
      else if v = 2 then Some P_CreateExtentResp
      else if v = 3 then Some P_Open
      else if v = 4 then Some P_Data
      else if v = 5 then Some P_End
      else if v = 6 then Some P_CommitAck
      else if v = 7 then Some P_ReadShard
      else if v = 8 then Some P_ReadShardResp
      else if v = 9 then Some P_Error
      else if v = 10 then Some P_OpenAck
      else if v = 11 then Some P_Seal
      else if v = 12 then Some P_SealResp
      else if v = 13 then Some P_DeleteBlob
      else if v = 14 then Some P_DeleteBlobResp
      else if v = 15 then Some P_Abort
      else if v = 16 then Some P_ListBlobs
      else if v = 17 then Some P_ListBlobsResp
      else None)"

lemma from_u16_to_u16 [simp]: "from_u16 (to_u16 p) = Some p"
  by (cases p) (simp_all add: from_u16_def)

lemma from_u16_Some: "from_u16 v = Some p \<longleftrightarrow> v = to_u16 p"
proof
  assume "from_u16 v = Some p"
  then show "v = to_u16 p" by (auto simp: from_u16_def split: if_splits)
qed simp

section \<open>Control structs\<close>

datatype codec_error = CodecTruncated string nat nat

definition take_chunk :: "nat \<Rightarrow> bytes \<Rightarrow> string \<Rightarrow> (codec_error, bytes) result" where
  "take_chunk n buf what = ok_or (CodecTruncated what (length buf) n) (first_chunk n buf)"

definition le_u64 :: "bytes \<Rightarrow> nat \<Rightarrow> u64" where
  "le_u64 a off = from_le_bytes (read_array 8 a off)"

definition le_u32 :: "bytes \<Rightarrow> nat \<Rightarrow> u32" where
  "le_u32 a off = from_le_bytes (read_array 4 a off)"

record create_extent_req =
  cer_shard_id :: shard_id
  cer_create_ts :: i64

definition create_extent_req_encode :: "create_extent_req \<Rightarrow> bytes" where
  "create_extent_req_encode r =
     to_le_bytes 8 (shard_as_u64 (cer_shard_id r)) @ to_le_bytes 8 (cer_create_ts r)"

definition create_extent_req_decode :: "bytes \<Rightarrow> (codec_error, create_extent_req) result" where
  "create_extent_req_decode buf =
     and_then (take_chunk 16 buf ''CreateExtentReq'') (\<lambda>a.
       Ok \<lparr>cer_shard_id = ShardId (le_u64 a 0), cer_create_ts = le_u64 a 8\<rparr>)"

text \<open>\<open>CreateExtentResp\<close>, \<open>SealReq\<close> and \<open>ListBlobsReq\<close> are one extent id each.\<close>

record create_extent_resp = cep_extent_id :: extent_id
record seal_req = sr_extent_id :: extent_id
record list_blobs_req = lr_extent_id :: extent_id

definition create_extent_resp_encode :: "create_extent_resp \<Rightarrow> bytes" where
  "create_extent_resp_encode r = extent_as_bytes (cep_extent_id r)"

definition create_extent_resp_decode :: "bytes \<Rightarrow> (codec_error, create_extent_resp) result" where
  "create_extent_resp_decode buf =
     and_then (take_chunk 16 buf ''CreateExtentResp'') (\<lambda>a. Ok \<lparr>cep_extent_id = extent_from_bytes a\<rparr>)"

definition seal_req_encode :: "seal_req \<Rightarrow> bytes" where
  "seal_req_encode r = extent_as_bytes (sr_extent_id r)"

definition seal_req_decode :: "bytes \<Rightarrow> (codec_error, seal_req) result" where
  "seal_req_decode buf =
     and_then (take_chunk 16 buf ''SealReq'') (\<lambda>a. Ok \<lparr>sr_extent_id = extent_from_bytes a\<rparr>)"

definition list_blobs_req_encode :: "list_blobs_req \<Rightarrow> bytes" where
  "list_blobs_req_encode r = extent_as_bytes (lr_extent_id r)"

definition list_blobs_req_decode :: "bytes \<Rightarrow> (codec_error, list_blobs_req) result" where
  "list_blobs_req_decode buf =
     and_then (take_chunk 16 buf ''ListBlobsReq'') (\<lambda>a. Ok \<lparr>lr_extent_id = extent_from_bytes a\<rparr>)"

text \<open>The empty acknowledgements \<open>SealResp\<close> and \<open>DeleteBlobResp\<close>.\<close>

definition seal_resp_encode :: "unit \<Rightarrow> bytes" where "seal_resp_encode _ = []"
definition seal_resp_decode :: "bytes \<Rightarrow> (codec_error, unit) result" where "seal_resp_decode _ = Ok ()"
definition delete_blob_resp_encode :: "unit \<Rightarrow> bytes" where "delete_blob_resp_encode _ = []"
definition delete_blob_resp_decode :: "bytes \<Rightarrow> (codec_error, unit) result" where
  "delete_blob_resp_decode _ = Ok ()"

record delete_blob_req =
  dr_extent_id :: extent_id
  dr_blob_id :: blob_id

definition delete_blob_req_encode :: "delete_blob_req \<Rightarrow> bytes" where
  "delete_blob_req_encode r = extent_as_bytes (dr_extent_id r) @ blob_to_be_bytes (dr_blob_id r)"

definition delete_blob_req_decode :: "bytes \<Rightarrow> (codec_error, delete_blob_req) result" where
  "delete_blob_req_decode buf =
     and_then (take_chunk 24 buf ''DeleteBlobReq'') (\<lambda>a.
       Ok \<lparr>dr_extent_id = extent_from_bytes (take 16 a), dr_blob_id = BlobId (from_be_bytes (drop 16 a))\<rparr>)"

record open_req =
  or_blob_id :: blob_id
  or_shard_id :: shard_id

definition open_req_encode :: "open_req \<Rightarrow> bytes" where
  "open_req_encode r =
     to_le_bytes 8 (blob_as_u64 (or_blob_id r)) @ to_le_bytes 8 (shard_as_u64 (or_shard_id r))"

definition open_req_decode :: "bytes \<Rightarrow> (codec_error, open_req) result" where
  "open_req_decode buf =
     and_then (take_chunk 16 buf ''OpenReq'') (\<lambda>a.
       Ok \<lparr>or_blob_id = BlobId (le_u64 a 0), or_shard_id = ShardId (le_u64 a 8)\<rparr>)"

record end_req =
  er_frame_count :: u32
  er_blob_crc :: u32

definition end_req_encode :: "end_req \<Rightarrow> bytes" where
  "end_req_encode r = to_le_bytes 4 (er_frame_count r) @ to_le_bytes 4 (er_blob_crc r)"

definition end_req_decode :: "bytes \<Rightarrow> (codec_error, end_req) result" where
  "end_req_decode buf =
     and_then (take_chunk 8 buf ''EndReq'') (\<lambda>a.
       Ok \<lparr>er_frame_count = le_u32 a 0, er_blob_crc = le_u32 a 4\<rparr>)"

record read_shard_req =
  rr_shard_id :: shard_id
  rr_blob_id :: blob_id

definition read_shard_req_encode :: "read_shard_req \<Rightarrow> bytes" where
  "read_shard_req_encode r =
     to_le_bytes 8 (shard_as_u64 (rr_shard_id r)) @ to_le_bytes 8 (blob_as_u64 (rr_blob_id r))"

definition read_shard_req_decode :: "bytes \<Rightarrow> (codec_error, read_shard_req) result" where
  "read_shard_req_decode buf =
     and_then (take_chunk 16 buf ''ReadShardReq'') (\<lambda>a.
       Ok \<lparr>rr_shard_id = ShardId (le_u64 a 0), rr_blob_id = BlobId (le_u64 a 8)\<rparr>)"

record list_blobs_resp = lp_blob_ids :: "blob_id list"

definition list_blobs_resp_encode :: "list_blobs_resp \<Rightarrow> bytes" where
  "list_blobs_resp_encode r = concat (map (\<lambda>id. to_le_bytes 8 (blob_as_u64 id)) (lp_blob_ids r))"

definition list_blobs_resp_decode :: "bytes \<Rightarrow> (codec_error, list_blobs_resp) result" where
  "list_blobs_resp_decode buf =
     (if \<not> 8 dvd length buf
      then Err (CodecTruncated ''ListBlobsResp'' (length buf) (next_multiple_of (length buf) 8))
      else Ok \<lparr>lp_blob_ids = map (\<lambda>c. BlobId (from_le_bytes c)) (chunks 8 buf)\<rparr>)"

record error_resp = ep_code :: u16

definition error_resp_from_error :: "epoch_error \<Rightarrow> error_resp" where
  "error_resp_from_error err = \<lparr>ep_code = wire_code err\<rparr>"

definition error_resp_error :: "error_resp \<Rightarrow> epoch_error" where
  "error_resp_error r = from_wire_code (ep_code r)"

definition error_resp_encode :: "error_resp \<Rightarrow> bytes" where
  "error_resp_encode r = to_le_bytes 2 (ep_code r)"

definition error_resp_decode :: "bytes \<Rightarrow> (codec_error, error_resp) result" where
  "error_resp_decode buf =
     and_then (take_chunk 2 buf ''ErrorResp'') (\<lambda>a. Ok \<lparr>ep_code = from_le_bytes a\<rparr>)"

section \<open>Every control struct is a codec\<close>

lemma take_chunk_Ok: "take_chunk n buf what = Ok a \<longleftrightarrow> n \<le> length buf \<and> a = take n buf"
  by (auto simp: take_chunk_def result_simps first_chunk_Some)

lemma take_chunk_append [simp]: "length xs = n \<Longrightarrow> take_chunk n (xs @ ys) what = Ok xs"
  by (simp add: take_chunk_def)

lemma take_chunk_append2 [simp]:
  "length xs + length ys = n \<Longrightarrow> take_chunk n (xs @ ys @ zs) what = Ok (xs @ ys)"
  using take_chunk_append [of "xs @ ys" n zs what] by simp

lemma le_u64_encode [simp]:
  "le_u64 (to_le_bytes 8 w @ ys) 0 = w"
  "length xs = off \<Longrightarrow> le_u64 (xs @ to_le_bytes 8 w) off = w"
  by (simp_all add: le_u64_def read_array_def)

lemma le_u32_encode [simp]:
  "le_u32 (to_le_bytes 4 w @ ys) 0 = w"
  "length xs = off \<Longrightarrow> le_u32 (xs @ to_le_bytes 4 w) off = w"
  by (simp_all add: le_u32_def read_array_def)

lemma le_u64_bytes [simp]:
  "off + 8 \<le> length a \<Longrightarrow> to_le_bytes 8 (le_u64 a off) = take 8 (drop off a)"
  by (simp add: le_u64_def read_array_def to_from_le_bytes)

lemma le_u32_bytes [simp]:
  "off + 4 \<le> length a \<Longrightarrow> to_le_bytes 4 (le_u32 a off) = take 4 (drop off a)"
  by (simp add: le_u32_def read_array_def to_from_le_bytes)

lemma take_take_drop: "take a (drop 0 xs) @ take b (drop a xs) = take (a + b) xs"
  by (simp add: take_add)

lemmas codec_defs =
  create_extent_req_encode_def create_extent_req_decode_def create_extent_resp_encode_def
  create_extent_resp_decode_def seal_req_encode_def seal_req_decode_def list_blobs_req_encode_def
  list_blobs_req_decode_def delete_blob_req_encode_def delete_blob_req_decode_def open_req_encode_def
  open_req_decode_def end_req_encode_def end_req_decode_def read_shard_req_encode_def
  read_shard_req_decode_def error_resp_encode_def error_resp_decode_def seal_resp_encode_def
  seal_resp_decode_def delete_blob_resp_encode_def delete_blob_resp_decode_def

lemma extent_bytes_chunk: "16 \<le> length buf \<Longrightarrow> extent_as_bytes (extent_from_bytes (take 16 buf)) = take 16 buf"
  by (simp add: extent_as_from_bytes)

interpretation create_extent_req: canonical_codec create_extent_req_encode create_extent_req_decode 16
proof
  show "create_extent_req_decode buf = Ok x \<Longrightarrow> 16 \<le> length buf \<and> create_extent_req_encode x = take 16 buf" for buf x
    using take_take_drop [of 8 "take 16 buf" 8] by (auto simp: codec_defs result_simps take_chunk_Ok)
qed (simp_all add: codec_defs)

interpretation open_req: canonical_codec open_req_encode open_req_decode 16
proof
  show "open_req_decode buf = Ok x \<Longrightarrow> 16 \<le> length buf \<and> open_req_encode x = take 16 buf" for buf x
    using take_take_drop [of 8 "take 16 buf" 8] by (auto simp: codec_defs result_simps take_chunk_Ok)
qed (simp_all add: codec_defs)

interpretation read_shard_req: canonical_codec read_shard_req_encode read_shard_req_decode 16
proof
  show "read_shard_req_decode buf = Ok x \<Longrightarrow> 16 \<le> length buf \<and> read_shard_req_encode x = take 16 buf" for buf x
    using take_take_drop [of 8 "take 16 buf" 8] by (auto simp: codec_defs result_simps take_chunk_Ok)
qed (simp_all add: codec_defs)

interpretation end_req: canonical_codec end_req_encode end_req_decode 8
proof
  show "end_req_decode buf = Ok x \<Longrightarrow> 8 \<le> length buf \<and> end_req_encode x = take 8 buf" for buf x
    using take_take_drop [of 4 "take 8 buf" 4] by (auto simp: codec_defs result_simps take_chunk_Ok)
qed (simp_all add: codec_defs)

interpretation create_extent_resp: canonical_codec create_extent_resp_encode create_extent_resp_decode 16
  by unfold_locales (auto simp: codec_defs result_simps take_chunk_Ok extent_bytes_chunk)

interpretation seal_req: canonical_codec seal_req_encode seal_req_decode 16
  by unfold_locales (auto simp: codec_defs result_simps take_chunk_Ok extent_bytes_chunk)

interpretation list_blobs_req: canonical_codec list_blobs_req_encode list_blobs_req_decode 16
  by unfold_locales (auto simp: codec_defs result_simps take_chunk_Ok extent_bytes_chunk)

interpretation error_resp: canonical_codec error_resp_encode error_resp_decode 2
  by unfold_locales (auto simp: codec_defs result_simps take_chunk_Ok to_from_le_bytes)

interpretation seal_resp: canonical_codec seal_resp_encode seal_resp_decode 0
  by unfold_locales (auto simp: codec_defs)

interpretation delete_blob_resp: canonical_codec delete_blob_resp_encode delete_blob_resp_decode 0
  by unfold_locales (auto simp: codec_defs)

interpretation delete_blob_req: canonical_codec delete_blob_req_encode delete_blob_req_decode 24
proof
  show "delete_blob_req_decode buf = Ok x \<Longrightarrow> 24 \<le> length buf \<and> delete_blob_req_encode x = take 24 buf" for buf x
    using append_take_drop_id [of 16 "take 24 buf"]
    by (auto simp: codec_defs result_simps take_chunk_Ok extent_bytes_chunk blob_to_be_bytes_def to_from_be_bytes)
qed (simp_all add: codec_defs blob_to_be_bytes_def)

lemma list_blobs_resp_decode_encode:
  "list_blobs_resp_decode (list_blobs_resp_encode r) = Ok r"
proof -
  let ?cs = "map (\<lambda>id. to_le_bytes 8 (blob_as_u64 id)) (lp_blob_ids r)"
  have "\<forall>c \<in> set ?cs. length c = 8" by simp
  then have "chunks 8 (concat ?cs) = ?cs" by (intro chunks_exact_concat) simp_all
  moreover have "length (concat ?cs) = 8 * length ?cs"
    by (induction "lp_blob_ids r" arbitrary: r) (simp_all add: length_concat comp_def sum_list_triv)
  ultimately show ?thesis
    by (simp add: list_blobs_resp_decode_def list_blobs_resp_encode_def comp_def)
qed

section \<open>Frame headers\<close>

type_synonym checksum = "bytes \<Rightarrow> u32"

definition FRAME_HEADER_LEN :: nat where "FRAME_HEADER_LEN = 50"
definition FRAME_MAGIC :: bytes where "FRAME_MAGIC = [0x45, 0x52]"
definition PROTOCOL_VERSION :: byte where "PROTOCOL_VERSION = 1"

datatype rpc_frame_error =
    HeaderTruncated nat nat
  | BadMagic
  | BadVersion byte
  | HeaderChecksum u32 u32

record frame_header =
  fh_pcode :: u16
  fh_flags :: byte
  fh_stream_id :: u32
  fh_seq :: u32
  fh_session :: u64
  fh_payload_len :: u32
  fh_trace_id :: u64
  fh_deadline_ms :: u32

text \<open>The 38 bytes before the checksum field.\<close>

definition header_fields :: "frame_header \<Rightarrow> bytes" where
  "header_fields h =
     FRAME_MAGIC @ [PROTOCOL_VERSION, fh_flags h] @ to_le_bytes 2 (fh_pcode h)
       @ to_le_bytes 4 (fh_stream_id h) @ to_le_bytes 4 (fh_seq h) @ to_le_bytes 8 (fh_session h)
       @ to_le_bytes 4 (fh_payload_len h) @ to_le_bytes 8 (fh_trace_id h) @ to_le_bytes 4 (fh_deadline_ms h)"

definition frame_header_encode :: "checksum \<Rightarrow> frame_header \<Rightarrow> bytes" where
  "frame_header_encode crc h =
     (let b = header_fields h @ replicate 4 0 @ replicate 8 0 in
      header_fields h @ to_le_bytes 4 (crc b) @ replicate 8 0)"

definition frame_header_decode :: "checksum \<Rightarrow> bytes \<Rightarrow> (rpc_frame_error, frame_header) result" where
  "frame_header_decode crc buf0 =
     (case first_chunk FRAME_HEADER_LEN buf0 of
        None \<Rightarrow> Err (HeaderTruncated (length buf0) FRAME_HEADER_LEN)
      | Some buf \<Rightarrow>
          if read_array 2 buf 0 \<noteq> FRAME_MAGIC then Err BadMagic
          else
            let ver = buf ! 2 in
            if ver \<noteq> PROTOCOL_VERSION then Err (BadVersion ver)
            else
              let stored = from_le_bytes (read_array 4 buf 38);
                  zeroed = take 38 buf @ replicate 4 0 @ drop 42 buf;
                  computed = crc zeroed in
              if stored \<noteq> computed then Err (HeaderChecksum stored computed)
              else Ok \<lparr>fh_pcode = from_le_bytes (read_array 2 buf 4), fh_flags = buf ! 3,
                       fh_stream_id = from_le_bytes (read_array 4 buf 6),
                       fh_seq = from_le_bytes (read_array 4 buf 10),
                       fh_session = from_le_bytes (read_array 8 buf 14),
                       fh_payload_len = from_le_bytes (read_array 4 buf 22),
                       fh_trace_id = from_le_bytes (read_array 8 buf 26),
                       fh_deadline_ms = from_le_bytes (read_array 4 buf 34)\<rparr>)"

lemma length_header_fields [simp]: "length (header_fields h) = 38"
  by (simp add: header_fields_def FRAME_MAGIC_def)

lemma length_frame_header_encode [simp]: "length (frame_header_encode crc h) = FRAME_HEADER_LEN"
  by (simp add: frame_header_encode_def Let_def FRAME_HEADER_LEN_def)

lemma read_array_prefix: "off + n \<le> length xs \<Longrightarrow> read_array n (xs @ ys) off = read_array n xs off"
  by (simp add: read_array_def)

lemma header_fields_read:
  "read_array 2 (header_fields h) 0 = FRAME_MAGIC"
  "header_fields h ! 2 = PROTOCOL_VERSION"
  "header_fields h ! 3 = fh_flags h"
  "read_array 2 (header_fields h) 4 = to_le_bytes 2 (fh_pcode h)"
  "read_array 4 (header_fields h) 6 = to_le_bytes 4 (fh_stream_id h)"
  "read_array 4 (header_fields h) 10 = to_le_bytes 4 (fh_seq h)"
  "read_array 8 (header_fields h) 14 = to_le_bytes 8 (fh_session h)"
  "read_array 4 (header_fields h) 22 = to_le_bytes 4 (fh_payload_len h)"
  "read_array 8 (header_fields h) 26 = to_le_bytes 8 (fh_trace_id h)"
  "read_array 4 (header_fields h) 34 = to_le_bytes 4 (fh_deadline_ms h)"
  by (simp_all add: header_fields_def FRAME_MAGIC_def read_array_def nth_append)

interpretation frame_header: wire_codec "frame_header_encode crc" "frame_header_decode crc" FRAME_HEADER_LEN
  for crc :: checksum
proof
  fix h rest
  let ?b = "frame_header_encode crc h"
  have b: "?b = header_fields h @ to_le_bytes 4 (crc (header_fields h @ replicate 4 0 @ replicate 8 0)) @ replicate 8 0"
    by (simp add: frame_header_encode_def)
  have crc: "read_array 4 ?b 38 = to_le_bytes 4 (crc (header_fields h @ replicate 4 0 @ replicate 8 0))"
    "take 38 ?b @ replicate 4 0 @ drop 42 ?b = header_fields h @ replicate 4 0 @ replicate 8 0"
    by (simp_all add: b read_array_def)
  have nth: "?b ! 2 = PROTOCOL_VERSION" "?b ! 3 = fh_flags h"
    by (simp_all add: b nth_append header_fields_read)
  have fields: "off + n \<le> 38 \<Longrightarrow> read_array n ?b off = read_array n (header_fields h) off" for off n
    by (simp add: b read_array_prefix)
  show "frame_header_decode crc (?b @ rest) = Ok h"
    by (simp add: frame_header_decode_def Let_def crc nth fields header_fields_read)
qed simp

section \<open>Frames on a byte stream\<close>

text \<open>
  A socket is the list of bytes still to be read; \<open>read_exact\<close> at the end of the stream is the
  error \<open>UnexpectedEof\<close>.
\<close>

definition MAX_FRAME_PAYLOAD :: nat where "MAX_FRAME_PAYLOAD = 64 * 1024 * 1024"

datatype io_error = UnexpectedEof | InvalidHeader rpc_frame_error | PayloadTooLarge | ReplyTooLarge

definition read_exact :: "nat \<Rightarrow> bytes \<Rightarrow> (io_error, bytes \<times> bytes) result" where
  "read_exact n s = (if n \<le> length s then Ok (take n s, drop n s) else Err UnexpectedEof)"

definition read_header :: "checksum \<Rightarrow> bytes \<Rightarrow> (io_error, frame_header \<times> bytes) result" where
  "read_header crc s =
     and_then (read_exact FRAME_HEADER_LEN s) (\<lambda>(buf, rest).
       and_then (map_err InvalidHeader (frame_header_decode crc buf)) (\<lambda>h. Ok (h, rest)))"

definition read_body :: "u32 \<Rightarrow> bytes \<Rightarrow> (io_error, bytes \<times> bytes) result" where
  "read_body plen s =
     (let len = unat plen in
      if MAX_FRAME_PAYLOAD < len then Err PayloadTooLarge
      else if len = 0 then Ok ([], s)
      else read_exact len s)"

text \<open>The bytes \<open>send_frame\<close> puts on the socket when the vectored write accepts \<open>n\<close> of them first.\<close>

definition send_frame :: "nat \<Rightarrow> bytes \<Rightarrow> bytes \<Rightarrow> bytes" where
  "send_frame n header body =
     (if body = [] then header
      else take n (header @ body) @
        (if n < FRAME_HEADER_LEN then drop n header @ body
         else let body_off = n - FRAME_HEADER_LEN in
           if body_off < length body then drop body_off body else []))"

text \<open>\<open>Connection::send\<close> fills in the payload length; a body of 4 GiB or more is refused.\<close>

definition conn_send :: "checksum \<Rightarrow> nat \<Rightarrow> frame_header \<Rightarrow> bytes \<Rightarrow> (epoch_error, bytes) result" where
  "conn_send crc n header body =
     (if length body < 2 ^ 32
      then Ok (send_frame n (frame_header_encode crc (header\<lparr>fh_payload_len := of_nat (length body)\<rparr>)) body)
      else Err E_Internal)"

lemma send_frame_bytes:
  assumes "length header = FRAME_HEADER_LEN"
  shows "send_frame n header body = header @ body"
proof (cases "n < FRAME_HEADER_LEN")
  case True
  then show ?thesis
    using assms by (simp add: send_frame_def)
next
  case False
  then show ?thesis
    using assms append_take_drop_id [of "n - FRAME_HEADER_LEN" body]
    by (auto simp: send_frame_def Let_def)
qed

lemma unat_payload_len: "n < 2 ^ 32 \<Longrightarrow> unat (of_nat n :: u32) = n"
  by (simp add: unsigned_of_nat take_bit_nat_eq_self)

lemma read_header_frame: "read_header crc (frame_header_encode crc h @ rest) = Ok (h, rest)"
  using frame_header.dec_exact [of crc h]
  by (simp add: read_header_def read_exact_def)

lemma read_body_frame:
  assumes "unat l = length body" and "length body \<le> MAX_FRAME_PAYLOAD"
  shows "read_body l (body @ rest) = Ok (body, rest)"
  using assms by (auto simp: read_body_def Let_def read_exact_def)

lemma read_header_shorter: "read_header crc s = Ok (h, rest) \<Longrightarrow> length rest + FRAME_HEADER_LEN = length s"
  by (auto simp: read_header_def read_exact_def result_simps split: if_splits)

lemma read_body_shorter: "read_body l s = Ok (b, rest) \<Longrightarrow> length rest \<le> length s"
  by (auto simp: read_body_def read_exact_def Let_def split: if_splits)

text \<open>Reading frame after frame until the first error, as the connection loop does.\<close>

function read_frames :: "checksum \<Rightarrow> bytes \<Rightarrow> (frame_header \<times> bytes) list \<times> io_error" where
  "read_frames crc s =
     (case read_header crc s of
        Inl e \<Rightarrow> ([], e)
      | Inr (h, s1) \<Rightarrow>
          (case read_body (fh_payload_len h) s1 of
             Inl e \<Rightarrow> ([], e)
           | Inr (b, s2) \<Rightarrow> (case read_frames crc s2 of (fs, e) \<Rightarrow> ((h, b) # fs, e))))"
  by pat_completeness auto
termination
  by (relation "measure (\<lambda>(crc, s). length s)")
    (auto dest!: read_header_shorter read_body_shorter simp: FRAME_HEADER_LEN_def)

declare read_frames.simps [simp del]

lemma read_frames_Nil: "read_frames crc [] = ([], UnexpectedEof)"
  by (subst read_frames.simps) (simp add: read_header_def read_exact_def FRAME_HEADER_LEN_def)

lemma read_frames_Cons:
  assumes "unat (fh_payload_len h) = length body" and "length body \<le> MAX_FRAME_PAYLOAD"
  shows "read_frames crc ((frame_header_encode crc h @ body) @ rest) =
    (case read_frames crc rest of (fs, e) \<Rightarrow> ((h, body) # fs, e))"
  by (subst read_frames.simps) (simp add: read_header_frame read_body_frame [OF assms])

section \<open>Properties\<close>

text \<open>C21: the wire round trip of a whole connection. Whatever frames are sent one after the other
  with \<open>Connection::send\<close>, and however many bytes each vectored write accepts at first, the reader
  recovers exactly those headers (with the payload length filled in) and bodies, in order, and then
  sees the end of the stream. The checksum function plays no role in it.\<close>

theorem send_read_frames:
  assumes "list_all2 (\<lambda>(h, b, n) out. conn_send crc n h b = Ok out \<and> length b \<le> MAX_FRAME_PAYLOAD) msgs outs"
  shows "read_frames crc (concat outs) =
    (map (\<lambda>(h, b, n). (h\<lparr>fh_payload_len := of_nat (length b)\<rparr>, b)) msgs, UnexpectedEof)"
  using assms
proof (induction msgs outs rule: list_all2_induct)
  case Nil
  then show ?case by (simp add: read_frames_Nil)
next
  case (Cons m msgs out outs)
  obtain h b n where m: "m = (h, b, n)" by (cases m)
  have b: "length b < 2 ^ 32" "length b \<le> MAX_FRAME_PAYLOAD"
    and out: "out = frame_header_encode crc (h\<lparr>fh_payload_len := of_nat (length b)\<rparr>) @ b"
    using Cons.hyps(1) m by (auto simp: conn_send_def send_frame_bytes split: if_splits)
  show ?case
    using Cons.IH b m read_frames_Cons [of "h\<lparr>fh_payload_len := of_nat (length b)\<rparr>" b crc "concat outs"]
    by (simp add: out unat_payload_len)
qed

theorem send_read_frames_witness:
  "\<exists>h out. conn_send (\<lambda>_. 0) 7 h [1, 2, 3] = Ok out \<and>
     read_frames (\<lambda>_. 0) out = ([(h\<lparr>fh_payload_len := 3\<rparr>, [1, 2, 3])], UnexpectedEof)"
proof -
  let ?h = "\<lparr>fh_pcode = 4, fh_flags = 0, fh_stream_id = 1, fh_seq = 0, fh_session = 0,
    fh_payload_len = 0, fh_trace_id = 0, fh_deadline_ms = 0\<rparr>"
  obtain out where out: "conn_send (\<lambda>_. 0) 7 ?h [1, 2, 3] = Ok out" by (simp add: conn_send_def)
  then show ?thesis
    using send_read_frames [of "\<lambda>_. 0" "[(?h, [1, 2, 3], 7)]" "[out]"]
    by (intro exI [of _ ?h] exI [of _ out]) (simp add: MAX_FRAME_PAYLOAD_def)
qed

text \<open>the control-struct decoders are exact inverses of the encoders. A payload decodes to a
  request exactly when it starts with that request's encoding, for each fixed-size struct, and a
  \<open>ListBlobsResp\<close> payload decodes back to the same ids; an error reply carries its error.\<close>

theorem control_codecs_exact:
  "(create_extent_req_decode buf = Ok cr \<longleftrightarrow> (\<exists>rest. buf = create_extent_req_encode cr @ rest)) \<and>
   (create_extent_resp_decode buf = Ok cp \<longleftrightarrow> (\<exists>rest. buf = create_extent_resp_encode cp @ rest)) \<and>
   (seal_req_decode buf = Ok sr \<longleftrightarrow> (\<exists>rest. buf = seal_req_encode sr @ rest)) \<and>
   (delete_blob_req_decode buf = Ok dr \<longleftrightarrow> (\<exists>rest. buf = delete_blob_req_encode dr @ rest)) \<and>
   (open_req_decode buf = Ok opr \<longleftrightarrow> (\<exists>rest. buf = open_req_encode opr @ rest)) \<and>
   (end_req_decode buf = Ok en \<longleftrightarrow> (\<exists>rest. buf = end_req_encode en @ rest)) \<and>
   (read_shard_req_decode buf = Ok rr \<longleftrightarrow> (\<exists>rest. buf = read_shard_req_encode rr @ rest)) \<and>
   (list_blobs_req_decode buf = Ok lr \<longleftrightarrow> (\<exists>rest. buf = list_blobs_req_encode lr @ rest)) \<and>
   list_blobs_resp_decode (list_blobs_resp_encode lp) = Ok lp \<and>
   error_resp_decode (error_resp_encode (error_resp_from_error e)) = Ok (error_resp_from_error e) \<and>
   error_resp_error (error_resp_from_error e) = e"
  by (intro conjI create_extent_req.dec_iff create_extent_resp.dec_iff seal_req.dec_iff
      delete_blob_req.dec_iff open_req.dec_iff end_req.dec_iff read_shard_req.dec_iff
      list_blobs_req.dec_iff list_blobs_resp_decode_encode error_resp.dec_exact)
    (simp add: error_resp_error_def error_resp_from_error_def)

end
