(* ===== verification/Store_Record.thy ===== *)
theory Store_Record
  imports Rpc_Codec
begin

text \<open>
  The on-disk codecs of \<open>crates/epoch-store/src\<close>: record headers and footers (\<open>extent/record.rs\<close>),
  the extent status byte (\<open>extent/state.rs\<close>), the superblock (\<open>superblock.rs\<close>) and the extent-file
  header (\<open>extent/file.rs\<close>). Every fixed-size structure is an instance of the locale
  \<open>wire_codec\<close> for any checksum function.
\<close>

section \<open>Blob records\<close>

definition RECORD_HEADER_LEN :: nat where "RECORD_HEADER_LEN = 32"
definition RECORD_FOOTER_LEN :: nat where "RECORD_FOOTER_LEN = 8"
definition RECORD_ALIGN :: nat where "RECORD_ALIGN = 4096"
definition HEADER_MAGIC :: bytes where "HEADER_MAGIC = [0x45, 0x50, 0x52, 0x48]"
definition FOOTER_MAGIC :: bytes where "FOOTER_MAGIC = [0x45, 0x50, 0x52, 0x46]"

datatype record_error =
    RecordTruncated nat nat
  | BadHeaderMagic
  | BadFooterMagic
  | RecordHeaderChecksum u32 u32
  | BodyTooLarge nat

record record_header =
  rh_blob_id :: blob_id
  rh_shard_id :: shard_id
  rh_body_len :: u32

definition record_header_new :: "blob_id \<Rightarrow> shard_id \<Rightarrow> nat \<Rightarrow> (record_error, record_header) result" where
  "record_header_new blob shard body_len =
     (if body_len < 2 ^ 32
      then Ok \<lparr>rh_blob_id = blob, rh_shard_id = shard, rh_body_len = of_nat body_len\<rparr>
      else Err (BodyTooLarge body_len))"

text \<open>The checksummed region of the header: everything after the checksum field.\<close>

definition record_fields :: "record_header \<Rightarrow> bytes" where
  "record_fields h =
     HEADER_MAGIC @ to_le_bytes 8 (blob_as_u64 (rh_blob_id h)) @ to_le_bytes 8 (shard_as_u64 (rh_shard_id h))
       @ to_le_bytes 4 (rh_body_len h) @ replicate 4 0"

definition record_header_encode :: "checksum \<Rightarrow> record_header \<Rightarrow> bytes" where
  "record_header_encode crc h = to_le_bytes 4 (crc (record_fields h)) @ record_fields h"

definition record_header_decode :: "checksum \<Rightarrow> bytes \<Rightarrow> (record_error, record_header) result" where
  "record_header_decode crc buf0 =
     (case first_chunk RECORD_HEADER_LEN buf0 of
        None \<Rightarrow> Err (RecordTruncated (length buf0) RECORD_HEADER_LEN)
      | Some buf \<Rightarrow>
          if read_array 4 buf 4 \<noteq> HEADER_MAGIC then Err BadHeaderMagic
          else
            let stored = from_le_bytes (read_array 4 buf 0); computed = crc (drop 4 buf) in
            if stored \<noteq> computed then Err (RecordHeaderChecksum stored computed)
            else Ok \<lparr>rh_blob_id = BlobId (from_le_bytes (read_array 8 buf 8)),
                     rh_shard_id = ShardId (from_le_bytes (read_array 8 buf 16)),
                     rh_body_len = from_le_bytes (read_array 4 buf 24)\<rparr>)"

definition encode_footer :: "u32 \<Rightarrow> bytes" where
  "encode_footer body_crc = FOOTER_MAGIC @ to_le_bytes 4 body_crc"

definition decode_footer :: "bytes \<Rightarrow> (record_error, u32) result" where
  "decode_footer buf0 =
     (case first_chunk RECORD_FOOTER_LEN buf0 of
        None \<Rightarrow> Err (RecordTruncated (length buf0) RECORD_FOOTER_LEN)
      | Some buf \<Rightarrow>
          if read_array 4 buf 0 \<noteq> FOOTER_MAGIC then Err BadFooterMagic
          else Ok (from_le_bytes (read_array 4 buf 4)))"

definition record_on_disk_len :: "u32 \<Rightarrow> nat" where
  "record_on_disk_len body_len =
     next_multiple_of (RECORD_HEADER_LEN + unat body_len + RECORD_FOOTER_LEN) RECORD_ALIGN"

section \<open>Extent status\<close>

datatype extent_status = Rebuilding | Writable | Full | Sealed | Dropped

fun status_to_u8 :: "extent_status \<Rightarrow> byte" where
  "status_to_u8 Rebuilding = 0"
| "status_to_u8 Writable = 1"
| "status_to_u8 Full = 2"
| "status_to_u8 Sealed = 3"
| "status_to_u8 Dropped = 4"

definition status_from_u8 :: "byte \<Rightarrow> extent_status option" where
  "status_from_u8 v =
     (if v = 0 then Some Rebuilding
      else if v = 1 then Some Writable
      else if v = 2 then Some Full
      else if v = 3 then Some Sealed
      else if v = 4 then Some Dropped
      else None)"

definition is_writable :: "extent_status \<Rightarrow> bool" where
  "is_writable s \<longleftrightarrow> s = Writable"

section \<open>Superblock\<close>

definition SUPERBLOCK_SIZE :: nat where "SUPERBLOCK_SIZE = 4096"
definition SUPERBLOCK_VERSION :: u16 where "SUPERBLOCK_VERSION = 1"
definition SUPERBLOCK_MAGIC :: bytes where
  "SUPERBLOCK_MAGIC = [0x45, 0x50, 0x4F, 0x43, 0x48, 0x49, 0x4F, 0x00]"

datatype superblock_error =
    SbTruncated nat
  | SbBadMagic
  | SbVersion u16 u16
  | SbChecksum u32 u32

record superblock =
  sb_disk_id :: disk_id
  sb_cluster_id :: u128
  sb_created_at :: i64
  sb_flags :: u32
  sb_extent_size :: u64

definition superblock_fields :: "superblock \<Rightarrow> bytes" where
  "superblock_fields s =
     SUPERBLOCK_MAGIC @ to_le_bytes 2 SUPERBLOCK_VERSION @ to_le_bytes 4 (disk_get (sb_disk_id s))
       @ to_le_bytes 16 (sb_cluster_id s) @ to_le_bytes 8 (sb_created_at s) @ to_le_bytes 4 (sb_flags s)
       @ to_le_bytes 8 (sb_extent_size s)"

definition superblock_encode :: "checksum \<Rightarrow> superblock \<Rightarrow> bytes" where
  "superblock_encode crc s =
     superblock_fields s @ to_le_bytes 4 (crc (superblock_fields s)) @ replicate 4042 0"

definition superblock_decode :: "checksum \<Rightarrow> bytes \<Rightarrow> (superblock_error, superblock) result" where
  "superblock_decode crc buf0 =
     (case first_chunk SUPERBLOCK_SIZE buf0 of
        None \<Rightarrow> Err (SbTruncated (length buf0))
      | Some buf \<Rightarrow>
          if read_array 8 buf 0 \<noteq> SUPERBLOCK_MAGIC then Err SbBadMagic
          else
            let found = from_le_bytes (read_array 2 buf 8) in
            if found \<noteq> SUPERBLOCK_VERSION then Err (SbVersion found SUPERBLOCK_VERSION)
            else
              let stored = from_le_bytes (read_array 4 buf 50); computed = crc (take 50 buf) in
              if stored \<noteq> computed then Err (SbChecksum stored computed)
              else Ok \<lparr>sb_disk_id = DiskId (from_le_bytes (read_array 4 buf 10)),
                       sb_cluster_id = from_le_bytes (read_array 16 buf 14),
                       sb_created_at = from_le_bytes (read_array 8 buf 30),
                       sb_flags = from_le_bytes (read_array 4 buf 38),
                       sb_extent_size = from_le_bytes (read_array 8 buf 42)\<rparr>)"

section \<open>Extent-file header\<close>

definition EXTENT_HEADER_LEN :: nat where "EXTENT_HEADER_LEN = 4096"
definition EXTENT_VERSION :: u16 where "EXTENT_VERSION = 1"
definition EXTENT_MAGIC :: bytes where
  "EXTENT_MAGIC = [0x45, 0x50, 0x45, 0x58, 0x54, 0x45, 0x4E, 0x54]"

text \<open>
  \<open>X_Io\<close> carries the kind of the I/O error: the short read of \<open>read_exact_at\<close> or an existing file.
\<close>

datatype io_kind = IoUnexpectedEof | IoAlreadyExists | IoNotFound | IoStorageFull | IoRawOs nat | IoOther

datatype extent_error =
    X_Io io_kind
  | X_BadHeaderMagic
  | X_Version u16 u16
  | X_HeaderChecksum u32 u32
  | X_Record nat record_error
  | X_BodyChecksum nat

definition extent_fields :: "extent_id \<Rightarrow> bytes" where
  "extent_fields e = EXTENT_MAGIC @ to_le_bytes 2 EXTENT_VERSION @ extent_as_bytes e"

definition extent_header_encode :: "checksum \<Rightarrow> extent_id \<Rightarrow> bytes" where
  "extent_header_encode crc e =
     extent_fields e @ to_le_bytes 4 (crc (extent_fields e)) @ replicate 4066 0"

definition extent_header_decode :: "checksum \<Rightarrow> bytes \<Rightarrow> (extent_error, extent_id) result" where
  "extent_header_decode crc buf =
     (if read_array 8 buf 0 \<noteq> EXTENT_MAGIC then Err X_BadHeaderMagic
      else
        let found = from_le_bytes (read_array 2 buf 8) in
        if found \<noteq> EXTENT_VERSION then Err (X_Version found EXTENT_VERSION)
        else
          let stored = from_le_bytes (read_array 4 buf 26); computed = crc (take 26 buf) in
          if stored \<noteq> computed then Err (X_HeaderChecksum stored computed)
          else Ok (extent_from_bytes (read_array 16 buf 10)))"

section \<open>Round trips\<close>

lemmas read_simps = read_array_def read_array_prefix

lemma length_record_fields [simp]: "length (record_fields h) = 28"
  by (simp add: record_fields_def HEADER_MAGIC_def)

lemma length_record_header_encode [simp]: "length (record_header_encode crc h) = RECORD_HEADER_LEN"
  by (simp add: record_header_encode_def RECORD_HEADER_LEN_def)

lemma record_header_read:
  "read_array 4 (record_header_encode crc h) 4 = HEADER_MAGIC"
  "read_array 4 (record_header_encode crc h) 0 = to_le_bytes 4 (crc (record_fields h))"
  "drop 4 (record_header_encode crc h) = record_fields h"
  "read_array 8 (record_header_encode crc h) 8 = to_le_bytes 8 (blob_as_u64 (rh_blob_id h))"
  "read_array 8 (record_header_encode crc h) 16 = to_le_bytes 8 (shard_as_u64 (rh_shard_id h))"
  "read_array 4 (record_header_encode crc h) 24 = to_le_bytes 4 (rh_body_len h)"
  by (simp_all add: record_header_encode_def record_fields_def HEADER_MAGIC_def read_array_def)

interpretation record_header: wire_codec "record_header_encode crc" "record_header_decode crc" RECORD_HEADER_LEN
  for crc :: checksum
proof
  show "record_header_decode crc (record_header_encode crc h @ rest) = Ok h" for h rest
    by (simp add: record_header_decode_def record_header_read Let_def)
qed simp

interpretation footer: canonical_codec encode_footer decode_footer RECORD_FOOTER_LEN
proof
  show "decode_footer buf = Ok x \<Longrightarrow> RECORD_FOOTER_LEN \<le> length buf \<and> encode_footer x = take RECORD_FOOTER_LEN buf" for buf x
    using take_take_drop [of 4 "take 8 buf" 4]
    by (auto simp: decode_footer_def encode_footer_def first_chunk_def read_array_def RECORD_FOOTER_LEN_def
        to_from_le_bytes split: if_splits)
qed (simp_all add: encode_footer_def decode_footer_def RECORD_FOOTER_LEN_def FOOTER_MAGIC_def first_chunk_def
    read_array_def)

lemma length_superblock_fields [simp]: "length (superblock_fields s) = 50"
  by (simp add: superblock_fields_def SUPERBLOCK_MAGIC_def)

lemma superblock_read:
  "read_array 8 (superblock_fields s @ r) 0 = SUPERBLOCK_MAGIC"
  "read_array 2 (superblock_fields s @ r) 8 = to_le_bytes 2 SUPERBLOCK_VERSION"
  "read_array 4 (superblock_fields s @ r) 10 = to_le_bytes 4 (disk_get (sb_disk_id s))"
  "read_array 16 (superblock_fields s @ r) 14 = to_le_bytes 16 (sb_cluster_id s)"
  "read_array 8 (superblock_fields s @ r) 30 = to_le_bytes 8 (sb_created_at s)"
  "read_array 4 (superblock_fields s @ r) 38 = to_le_bytes 4 (sb_flags s)"
  "read_array 8 (superblock_fields s @ r) 42 = to_le_bytes 8 (sb_extent_size s)"
  by (simp_all add: superblock_fields_def SUPERBLOCK_MAGIC_def read_array_def)

interpretation superblock: wire_codec "superblock_encode crc" "superblock_decode crc" SUPERBLOCK_SIZE
  for crc :: checksum
proof
  fix s rest
  let ?b = "superblock_encode crc s"
  have b: "?b = superblock_fields s @ (to_le_bytes 4 (crc (superblock_fields s)) @ replicate 4042 0)"
    by (simp add: superblock_encode_def)
  have len: "length ?b = SUPERBLOCK_SIZE" by (simp add: b SUPERBLOCK_SIZE_def)
  show "length ?b = SUPERBLOCK_SIZE" by (rule len)
  have "read_array 4 ?b 50 = to_le_bytes 4 (crc (superblock_fields s))" "take 50 ?b = superblock_fields s"
    by (simp_all add: b read_array_def)
  then show "superblock_decode crc (?b @ rest) = Ok s"
    by (simp add: superblock_decode_def Let_def first_chunk_append [OF len]) (simp add: b superblock_read)
qed

lemma length_extent_fields [simp]: "length (extent_fields e) = 26"
  by (simp add: extent_fields_def EXTENT_MAGIC_def)

lemma length_extent_header_encode [simp]: "length (extent_header_encode crc e) = EXTENT_HEADER_LEN"
  by (simp add: extent_header_encode_def EXTENT_HEADER_LEN_def)

interpretation extent_header: wire_codec "extent_header_encode crc" "extent_header_decode crc" EXTENT_HEADER_LEN
  for crc :: checksum
proof
  fix e rest
  have "extent_header_encode crc e @ rest =
      extent_fields e @ to_le_bytes 4 (crc (extent_fields e)) @ replicate 4066 0 @ rest"
    by (simp add: extent_header_encode_def)
  moreover have "read_array 8 (extent_fields e @ r) 0 = EXTENT_MAGIC"
    "read_array 2 (extent_fields e @ r) 8 = to_le_bytes 2 EXTENT_VERSION"
    "read_array 16 (extent_fields e @ r) 10 = extent_as_bytes e" for r
    by (simp_all add: extent_fields_def EXTENT_MAGIC_def read_array_def)
  moreover have "read_array 4 (extent_fields e @ to_le_bytes 4 c @ r) 26 = to_le_bytes 4 c" for c :: u32 and r
    by (simp add: read_array_def)
  ultimately show "extent_header_decode crc (extent_header_encode crc e @ rest) = Ok e"
    by (simp add: extent_header_decode_def Let_def)
qed simp

lemma status_from_to [simp]: "status_from_u8 (status_to_u8 s) = Some s"
  by (cases s) (simp_all add: status_from_u8_def)

lemma status_from_Some: "status_from_u8 v = Some s \<longleftrightarrow> v = status_to_u8 s"
proof
  assume "status_from_u8 v = Some s"
  then show "v = status_to_u8 s" by (auto simp: status_from_u8_def split: if_splits)
qed simp

section \<open>Record sizes\<close>

lemma record_on_disk_len_ge: "RECORD_HEADER_LEN + unat l + RECORD_FOOTER_LEN \<le> record_on_disk_len l"
  by (simp add: record_on_disk_len_def next_multiple_of_ge)

lemma record_on_disk_len_dvd: "RECORD_ALIGN dvd record_on_disk_len l"
  by (simp add: record_on_disk_len_def next_multiple_of_dvd RECORD_ALIGN_def)

lemma record_on_disk_len_pad: "record_on_disk_len l < RECORD_HEADER_LEN + unat l + RECORD_FOOTER_LEN + RECORD_ALIGN"
  by (simp add: record_on_disk_len_def next_multiple_of_less RECORD_ALIGN_def)

lemma record_on_disk_len_pos: "0 < record_on_disk_len l"
  using record_on_disk_len_ge [of l] by (simp add: RECORD_HEADER_LEN_def)

end
