(* ===== verification/Store_Extent.thy ===== *)
theory Store_Extent
  imports Store_Record
begin

text \<open>
  Extent files, \<open>crates/epoch-store/src/extent/file.rs\<close>: creation, opening, record append, positioned
  record reads, the recovery scan and truncation. A file is its bytes; positioned writes past the
  end fill the gap with zeros, positioned reads past the end are the short-read error. Offsets are
  \<^typ>\<open>nat\<close>: a file is far below \<open>2 ^ 64\<close> bytes. Failing devices (other I/O errors) and
  \<open>preallocate\<close>, which does not change the file's bytes or length, are not modelled.
\<close>

definition write_all_at :: "bytes \<Rightarrow> nat \<Rightarrow> bytes \<Rightarrow> bytes" where
  "write_all_at data pos f =
     (if pos \<le> length f then take pos f @ data @ drop (pos + length data) f
      else f @ replicate (pos - length f) 0 @ data)"

definition read_exact_at :: "nat \<Rightarrow> nat \<Rightarrow> bytes \<Rightarrow> (extent_error, bytes) result" where
  "read_exact_at n off f =
     (if off + n \<le> length f then Ok (take n (drop off f)) else Err (X_Io IoUnexpectedEof))"

record recovered_record =
  rr_blob :: blob_id
  rr_shard :: shard_id
  rr_offset :: nat
  rr_body_len :: u32
  rr_crc :: u32

record recovery =
  rc_records :: "recovered_record list"
  rc_valid_end :: nat
  rc_truncated :: bool

record extent_file =
  ef_file :: bytes
  ef_extent_id :: extent_id
  ef_write_offset :: nat

text \<open>\<open>ExtentFile::create\<close>, given the file already at the path, if any.\<close>

definition extent_create :: "checksum \<Rightarrow> bytes option \<Rightarrow> extent_id \<Rightarrow> (extent_error, extent_file) result" where
  "extent_create crc existing eid =
     (case existing of
        Some _ \<Rightarrow> Err (X_Io IoAlreadyExists)
      | None \<Rightarrow> Ok \<lparr>ef_file = write_all_at (extent_header_encode crc eid) 0 [], ef_extent_id = eid,
                   ef_write_offset = EXTENT_HEADER_LEN\<rparr>)"

definition extent_open :: "checksum \<Rightarrow> bytes \<Rightarrow> (extent_error, extent_file) result" where
  "extent_open crc f =
     and_then (read_exact_at EXTENT_HEADER_LEN 0 f) (\<lambda>header_buf.
       and_then (extent_header_decode crc header_buf) (\<lambda>eid.
         Ok \<lparr>ef_file = f, ef_extent_id = eid, ef_write_offset = max (length f) EXTENT_HEADER_LEN\<rparr>))"

definition append_record ::
  "checksum \<Rightarrow> blob_id \<Rightarrow> shard_id \<Rightarrow> bytes \<Rightarrow> extent_file \<Rightarrow> (extent_error, (nat \<times> u32) \<times> extent_file) result" where
  "append_record crc blob shard body ef =
     and_then (map_err (X_Record (ef_write_offset ef)) (record_header_new blob shard (length body))) (\<lambda>header.
       let start = ef_write_offset ef;
           c = crc body;
           f1 = write_all_at (record_header_encode crc header) start (ef_file ef);
           p1 = start + RECORD_HEADER_LEN;
           f2 = write_all_at body p1 f1;
           p2 = p1 + length body;
           f3 = write_all_at (encode_footer c) p2 f2;
           p3 = p2 + RECORD_FOOTER_LEN;
           on_disk = record_on_disk_len (rh_body_len header);
           pad = start + on_disk - p3;
           f4 = (if 0 < pad then write_all_at (replicate pad 0) p3 f3 else f3) in
       Ok ((start, c), ef\<lparr>ef_file := f4, ef_write_offset := start + on_disk\<rparr>))"

definition read_record :: "checksum \<Rightarrow> nat \<Rightarrow> extent_file \<Rightarrow> (extent_error, record_header \<times> bytes) result" where
  "read_record crc offset ef =
     and_then (read_exact_at RECORD_HEADER_LEN offset (ef_file ef)) (\<lambda>header_buf.
     and_then (map_err (X_Record offset) (record_header_decode crc header_buf)) (\<lambda>header.
     and_then (read_exact_at (unat (rh_body_len header)) (offset + RECORD_HEADER_LEN) (ef_file ef)) (\<lambda>body.
     and_then (read_exact_at RECORD_FOOTER_LEN (offset + RECORD_HEADER_LEN + unat (rh_body_len header)) (ef_file ef)) (\<lambda>footer_buf.
     and_then (map_err (X_Record offset) (decode_footer footer_buf)) (\<lambda>stored_crc.
       if crc body \<noteq> stored_crc then Err (X_BodyChecksum offset) else Ok (header, body))))))"

function scan_loop ::
  "checksum \<Rightarrow> bytes \<Rightarrow> nat \<Rightarrow> recovered_record list \<Rightarrow> (extent_error, recovered_record list \<times> nat) result" where
  "scan_loop crc f offset records =
     (if length f < offset + RECORD_HEADER_LEN then Ok (records, offset)
      else
        case read_exact_at RECORD_HEADER_LEN offset f of
          Inl e \<Rightarrow> Err e
        | Inr header_buf \<Rightarrow>
            (case record_header_decode crc header_buf of
               Inl _ \<Rightarrow> Ok (records, offset)
             | Inr header \<Rightarrow>
                 let footer_off = offset + RECORD_HEADER_LEN + unat (rh_body_len header) in
                 if length f < footer_off + RECORD_FOOTER_LEN then Ok (records, offset)
                 else
                   case read_exact_at RECORD_FOOTER_LEN footer_off f of
                     Inl e \<Rightarrow> Err e
                   | Inr footer_buf \<Rightarrow>
                       (case decode_footer footer_buf of
                          Inl _ \<Rightarrow> Ok (records, offset)
                        | Inr c \<Rightarrow>
                            scan_loop crc f (offset + record_on_disk_len (rh_body_len header))
                              (records @ [\<lparr>rr_blob = rh_blob_id header, rr_shard = rh_shard_id header,
                                           rr_offset = offset, rr_body_len = rh_body_len header, rr_crc = c\<rparr>]))))"
  by pat_completeness auto
termination
proof (relation "measure (\<lambda>(crc, f, offset, records). length f - offset)")
qed (auto simp: record_on_disk_len_pos RECORD_HEADER_LEN_def intro!: diff_less_mono2)

declare scan_loop.simps [simp del]

definition scan :: "checksum \<Rightarrow> extent_file \<Rightarrow> (extent_error, recovery) result" where
  "scan crc ef =
     and_then (scan_loop crc (ef_file ef) EXTENT_HEADER_LEN []) (\<lambda>(records, offset).
       Ok \<lparr>rc_records = records, rc_valid_end = offset, rc_truncated = (offset < length (ef_file ef))\<rparr>)"

text \<open>\<open>set_len\<close> shortens the file or extends it with zeros.\<close>

definition set_len :: "nat \<Rightarrow> bytes \<Rightarrow> bytes" where
  "set_len n f = take n f @ replicate (n - length f) 0"

definition truncate_to :: "nat \<Rightarrow> extent_file \<Rightarrow> extent_file" where
  "truncate_to valid_end ef = ef\<lparr>ef_file := set_len valid_end (ef_file ef), ef_write_offset := valid_end\<rparr>"

section \<open>Files as sequences of records\<close>

type_synonym blob_record = "blob_id \<times> shard_id \<times> bytes"

definition header_of :: "blob_record \<Rightarrow> record_header" where
  "header_of r = (case r of (b, s, body) \<Rightarrow> \<lparr>rh_blob_id = b, rh_shard_id = s, rh_body_len = of_nat (length body)\<rparr>)"

definition body_of_record :: "blob_record \<Rightarrow> bytes" where
  "body_of_record r = snd (snd r)"

definition record_core :: "checksum \<Rightarrow> blob_record \<Rightarrow> bytes" where
  "record_core crc r =
     record_header_encode crc (header_of r) @ body_of_record r @ encode_footer (crc (body_of_record r))"

definition record_len :: "blob_record \<Rightarrow> nat" where
  "record_len r = record_on_disk_len (of_nat (length (body_of_record r)))"

definition record_bytes :: "checksum \<Rightarrow> blob_record \<Rightarrow> bytes" where
  "record_bytes crc r =
     record_core crc r @ replicate (record_len r - length (record_core crc r)) 0"

definition extent_image :: "checksum \<Rightarrow> extent_id \<Rightarrow> blob_record list \<Rightarrow> bytes" where
  "extent_image crc eid rs = extent_header_encode crc eid @ concat (map (record_bytes crc) rs)"

definition record_fits :: "blob_record \<Rightarrow> bool" where
  "record_fits r \<longleftrightarrow> length (body_of_record r) < 2 ^ 32"

text \<open>The file offset of record \<open>k\<close>.\<close>

definition record_offset :: "blob_record list \<Rightarrow> nat \<Rightarrow> nat" where
  "record_offset rs k = EXTENT_HEADER_LEN + sum_list (map record_len (take k rs))"

text \<open>An extent file that holds exactly \<open>rs\<close>, with its cursor at the end.\<close>

definition extent_holds :: "checksum \<Rightarrow> extent_id \<Rightarrow> blob_record list \<Rightarrow> extent_file \<Rightarrow> bool" where
  "extent_holds crc eid rs ef \<longleftrightarrow>
     ef = \<lparr>ef_file = extent_image crc eid rs, ef_extent_id = eid,
           ef_write_offset = length (extent_image crc eid rs)\<rparr> \<and> (\<forall>r \<in> set rs. record_fits r)"

lemma length_footer [simp]: "length (encode_footer c) = RECORD_FOOTER_LEN"
  by (rule footer.enc_length)

lemma length_record_core [simp]:
  "length (record_core crc r) = RECORD_HEADER_LEN + length (body_of_record r) + RECORD_FOOTER_LEN"
  by (simp add: record_core_def)

lemma record_len_ge: "record_fits r \<Longrightarrow> length (record_core crc r) \<le> record_len r"
  using record_on_disk_len_ge [of "of_nat (length (body_of_record r))"]
  by (simp add: record_len_def record_fits_def unat_payload_len)

lemma length_record_bytes [simp]: "record_fits r \<Longrightarrow> length (record_bytes crc r) = record_len r"
  using record_len_ge [of r crc] by (simp add: record_bytes_def)

lemma length_extent_image:
  "\<forall>r \<in> set rs. record_fits r \<Longrightarrow>
     length (extent_image crc eid rs) = EXTENT_HEADER_LEN + sum_list (map record_len rs)"
  by (induction rs) (simp_all add: extent_image_def)

lemma write_all_at_end: "write_all_at data (length f) f = f @ data"
  by (simp add: write_all_at_def)

lemma write_all_at_end': "length f = p \<Longrightarrow> write_all_at data p f = f @ data"
  by (auto simp: write_all_at_end)

lemma extent_create_holds:
  "extent_create crc None eid = Ok ef \<Longrightarrow> extent_holds crc eid [] ef"
  by (auto simp: extent_create_def extent_holds_def extent_image_def write_all_at_def)

lemma append_record_holds:
  assumes "extent_holds crc eid rs ef" and "record_fits (blob, shard, body)"
  shows "\<exists>ef'. append_record crc blob shard body ef = Ok ((length (extent_image crc eid rs), crc body), ef') \<and>
    extent_holds crc eid (rs @ [(blob, shard, body)]) ef'"
proof -
  let ?r = "(blob, shard, body)" and ?f = "extent_image crc eid rs"
  let ?h = "header_of ?r"
  have ef: "ef_file ef = ?f" "ef_write_offset ef = length ?f" "ef_extent_id ef = eid"
    and fits: "\<forall>r \<in> set (rs @ [?r]). record_fits r"
    using assms by (auto simp: extent_holds_def)
  have small: "length body < 2 ^ 32" using assms(2) by (simp add: record_fits_def body_of_record_def)
  have hdr: "record_header_new blob shard (length body) = Ok ?h"
    using small by (simp add: record_header_new_def header_of_def)
  have len: "record_on_disk_len (rh_body_len ?h) = record_len ?r"
    by (simp add: header_of_def record_len_def body_of_record_def)
  have core: "record_core crc ?r = record_header_encode crc ?h @ body @ encode_footer (crc body)"
    by (simp add: record_core_def body_of_record_def)
  have ge: "RECORD_HEADER_LEN + length body + RECORD_FOOTER_LEN \<le> record_len ?r"
    using record_len_ge [OF assms(2), of crc] by (simp add: body_of_record_def)
  have bytes: "?f @ record_core crc ?r @ replicate (record_len ?r - length (record_core crc ?r)) 0
      = extent_image crc eid (rs @ [?r])"
    by (simp add: extent_image_def record_bytes_def)
  have pad: "length ?f + record_len ?r - (length ?f + RECORD_HEADER_LEN + length body + RECORD_FOOTER_LEN)
      = record_len ?r - length (record_core crc ?r)"
    using ge by (simp add: body_of_record_def)
  have "append_record crc blob shard body ef = Ok ((length ?f, crc body),
      ef\<lparr>ef_file := extent_image crc eid (rs @ [?r]), ef_write_offset := length ?f + record_len ?r\<rparr>)"
    unfolding append_record_def hdr map_err_simps and_then_simps Let_def ef len pad
    using bytes by (cases "record_len ?r - length (record_core crc ?r) = 0")
      (simp_all add: write_all_at_end' core add.assoc)
  moreover have "length ?f + record_len ?r = length (extent_image crc eid (rs @ [?r]))"
    using fits by (simp add: length_extent_image)
  ultimately show ?thesis using fits ef by (auto simp: extent_holds_def)
qed

section \<open>Reading records back\<close>

lemma extent_image_split:
  assumes "k < length rs"
  shows "extent_image crc eid rs =
    (extent_header_encode crc eid @ concat (map (record_bytes crc) (take k rs)))
      @ record_bytes crc (rs ! k) @ concat (map (record_bytes crc) (drop (Suc k) rs))"
  using assms by (subst id_take_nth_drop [of k rs]) (simp_all add: extent_image_def)

lemma length_image_prefix:
  assumes "\<forall>r \<in> set rs. record_fits r"
  shows "length (extent_header_encode crc eid @ concat (map (record_bytes crc) (take k rs))) = record_offset rs k"
proof -
  have "\<forall>r \<in> set (take k rs). record_fits r" using assms by (auto dest: in_set_takeD)
  then show ?thesis
    using length_extent_image [of "take k rs" crc eid] by (simp add: extent_image_def record_offset_def)
qed

text \<open>What the reader finds where a whole record lies, whatever surrounds it.\<close>

lemma read_record_at:
  assumes "record_fits r"
  shows "read_record crc (length pre) \<lparr>ef_file = pre @ record_core crc r @ post, ef_extent_id = e, ef_write_offset = w\<rparr>
    = Ok (header_of r, body_of_record r)"
proof -
  have len: "unat (rh_body_len (header_of r)) = length (body_of_record r)"
    using assms by (cases r) (simp add: header_of_def body_of_record_def record_fits_def unat_payload_len)
  have 1: "read_exact_at RECORD_HEADER_LEN (length pre) (pre @ record_core crc r @ post)
      = Ok (record_header_encode crc (header_of r))"
    by (simp add: read_exact_at_def record_core_def)
  have 2: "read_exact_at (length (body_of_record r)) (length pre + RECORD_HEADER_LEN) (pre @ record_core crc r @ post)
      = Ok (body_of_record r)"
    by (simp add: read_exact_at_def record_core_def)
  have 3: "read_exact_at RECORD_FOOTER_LEN (length pre + RECORD_HEADER_LEN + length (body_of_record r))
      (pre @ record_core crc r @ post) = Ok (encode_footer (crc (body_of_record r)))"
    by (simp add: read_exact_at_def record_core_def)
  show ?thesis
    by (simp add: read_record_def 1 2 3 len record_header.dec_exact footer.dec_exact)
qed

lemma read_record_holds:
  assumes "extent_holds crc eid rs ef" and "k < length rs"
  shows "read_record crc (record_offset rs k) ef = Ok (header_of (rs ! k), body_of_record (rs ! k))"
proof -
  have fits: "\<forall>r \<in> set rs. record_fits r" and "record_fits (rs ! k)"
    using assms by (auto simp: extent_holds_def)
  then show ?thesis
    using assms(1) read_record_at [of "rs ! k" crc "extent_header_encode crc eid @ concat (map (record_bytes crc) (take k rs))"]
      length_image_prefix [OF fits, of crc eid k] extent_image_split [OF assms(2), of crc eid]
    by (simp add: extent_holds_def record_bytes_def)
qed

section \<open>Recovery scans\<close>

definition recovered_of :: "checksum \<Rightarrow> blob_record \<Rightarrow> nat \<Rightarrow> recovered_record" where
  "recovered_of crc r off =
     \<lparr>rr_blob = fst r, rr_shard = fst (snd r), rr_offset = off,
      rr_body_len = of_nat (length (body_of_record r)), rr_crc = crc (body_of_record r)\<rparr>"

fun recovered_list :: "checksum \<Rightarrow> blob_record list \<Rightarrow> nat \<Rightarrow> recovered_record list" where
  "recovered_list crc [] off = []"
| "recovered_list crc (r # rs) off = recovered_of crc r off # recovered_list crc rs (off + record_len r)"

lemma scan_loop_record:
  assumes "record_fits r"
  shows "scan_loop crc (pre @ record_core crc r @ post) (length pre) acc =
    scan_loop crc (pre @ record_core crc r @ post) (length pre + record_len r) (acc @ [recovered_of crc r (length pre)])"
proof -
  have len: "unat (rh_body_len (header_of r)) = length (body_of_record r)"
    using assms by (cases r) (simp add: header_of_def body_of_record_def record_fits_def unat_payload_len)
  have 1: "read_exact_at RECORD_HEADER_LEN (length pre) (pre @ record_core crc r @ post)
      = Ok (record_header_encode crc (header_of r))"
    by (simp add: read_exact_at_def record_core_def)
  have 3: "read_exact_at RECORD_FOOTER_LEN (length pre + RECORD_HEADER_LEN + length (body_of_record r))
      (pre @ record_core crc r @ post) = Ok (encode_footer (crc (body_of_record r)))"
    by (simp add: read_exact_at_def record_core_def)
  have rec: "\<lparr>rr_blob = rh_blob_id (header_of r), rr_shard = rh_shard_id (header_of r), rr_offset = length pre,
      rr_body_len = rh_body_len (header_of r), rr_crc = crc (body_of_record r)\<rparr> = recovered_of crc r (length pre)"
    "record_on_disk_len (rh_body_len (header_of r)) = record_len r"
    by (cases r; simp add: recovered_of_def header_of_def body_of_record_def record_len_def)+
  show ?thesis
    by (subst scan_loop.simps) (simp add: 1 3 len rec record_header.dec_exact footer.dec_exact Let_def)
qed

text \<open>A tail on which the scan stops at once.\<close>

definition scan_stops :: "checksum \<Rightarrow> bytes \<Rightarrow> bool" where
  "scan_stops crc tail \<longleftrightarrow>
     length tail < RECORD_HEADER_LEN \<or>
     (case record_header_decode crc (take RECORD_HEADER_LEN tail) of
        Inl _ \<Rightarrow> True
      | Inr h \<Rightarrow> length tail < RECORD_HEADER_LEN + unat (rh_body_len h) + RECORD_FOOTER_LEN \<or>
          (\<exists>e. decode_footer (take RECORD_FOOTER_LEN (drop (RECORD_HEADER_LEN + unat (rh_body_len h)) tail)) = Err e))"

lemma scan_loop_stops:
  assumes "scan_stops crc tail"
  shows "scan_loop crc (pre @ tail) (length pre) acc = Ok (acc, length pre)"
  using assms
  by (subst scan_loop.simps)
    (auto simp: scan_stops_def read_exact_at_def Let_def add.assoc split: sum.splits)

lemma scan_loop_advance:
  assumes "\<forall>r \<in> set rs. record_fits r"
  shows "scan_loop crc (pre @ concat (map (record_bytes crc) rs) @ tail) (length pre) acc =
    scan_loop crc (pre @ concat (map (record_bytes crc) rs) @ tail) (length pre + sum_list (map record_len rs))
      (acc @ recovered_list crc rs (length pre))"
  using assms
proof (induction rs arbitrary: pre acc)
  case Nil
  then show ?case by simp
next
  case (Cons r rs)
  let ?rest = "concat (map (record_bytes crc) rs) @ tail"
  let ?acc = "acc @ [recovered_of crc r (length pre)]"
  have fits: "record_fits r" using Cons.prems by simp
  have whole: "pre @ concat (map (record_bytes crc) (r # rs)) @ tail = (pre @ record_bytes crc r) @ ?rest" by simp
  have "scan_loop crc ((pre @ record_bytes crc r) @ ?rest) (length pre) acc =
      scan_loop crc ((pre @ record_bytes crc r) @ ?rest) (length pre + record_len r) ?acc"
    using scan_loop_record [OF fits, of crc pre
        "replicate (record_len r - length (record_core crc r)) 0 @ ?rest" acc]
    by (simp add: record_bytes_def)
  also have "\<dots> = scan_loop crc ((pre @ record_bytes crc r) @ ?rest) (length (pre @ record_bytes crc r)) ?acc"
    using fits by simp
  also have "\<dots> = scan_loop crc ((pre @ record_bytes crc r) @ ?rest)
      (length (pre @ record_bytes crc r) + sum_list (map record_len rs))
      (?acc @ recovered_list crc rs (length (pre @ record_bytes crc r)))"
    using Cons.prems by (intro Cons.IH) simp
  finally show ?case unfolding whole using fits by (simp add: add.assoc)
qed

lemma scan_loop_records:
  assumes "\<forall>r \<in> set rs. record_fits r" and "scan_stops crc tail"
  shows "scan_loop crc (pre @ concat (map (record_bytes crc) rs) @ tail) (length pre) acc =
    Ok (acc @ recovered_list crc rs (length pre), length pre + sum_list (map record_len rs))"
proof -
  have "length (concat (map (record_bytes crc) rs)) = sum_list (map record_len rs)"
    using assms(1) by (induction rs) simp_all
  then show ?thesis
    using scan_loop_advance [OF assms(1), of crc pre tail acc]
      scan_loop_stops [OF assms(2), of "pre @ concat (map (record_bytes crc) rs)"] by simp
qed

text \<open>A record whose write was cut before its footer was complete stops the scan.\<close>

lemma scan_stops_torn:
  assumes "record_fits r" and "n < length (record_core crc r)"
  shows "scan_stops crc (take n (record_core crc r))"
proof (cases "n < RECORD_HEADER_LEN")
  case True
  then show ?thesis using assms(2) by (simp add: scan_stops_def)
next
  case False
  have len: "unat (rh_body_len (header_of r)) = length (body_of_record r)"
    using assms(1) by (cases r) (simp add: header_of_def body_of_record_def record_fits_def unat_payload_len)
  have "take RECORD_HEADER_LEN (take n (record_core crc r)) = record_header_encode crc (header_of r)"
    using False by (simp add: record_core_def min_def)
  then show ?thesis
    using assms(2) len by (simp add: scan_stops_def record_header.dec_exact)
qed

lemma scan_stops_Nil: "scan_stops crc []"
  by (simp add: scan_stops_def RECORD_HEADER_LEN_def)

lemma extent_open_image:
  "extent_open crc (extent_image crc eid rs @ tail) =
     Ok \<lparr>ef_file = extent_image crc eid rs @ tail, ef_extent_id = eid,
         ef_write_offset = length (extent_image crc eid rs @ tail)\<rparr>"
proof -
  have "read_exact_at EXTENT_HEADER_LEN 0 (extent_image crc eid rs @ tail) = Ok (extent_header_encode crc eid)"
    by (simp add: read_exact_at_def extent_image_def)
  then show ?thesis
    by (simp add: extent_open_def extent_header.dec_exact) (simp add: extent_image_def)
qed

lemma scan_image:
  assumes "\<forall>r \<in> set rs. record_fits r" and "scan_stops crc tail"
  shows "scan crc \<lparr>ef_file = extent_image crc eid rs @ tail, ef_extent_id = e, ef_write_offset = w\<rparr> =
    Ok \<lparr>rc_records = recovered_list crc rs EXTENT_HEADER_LEN,
        rc_valid_end = length (extent_image crc eid rs), rc_truncated = (tail \<noteq> [])\<rparr>"
  using scan_loop_records [OF assms, of "extent_header_encode crc eid" "[]"] length_extent_image [OF assms(1), of crc eid]
  by (simp add: scan_def extent_image_def)

fun append_all ::
  "checksum \<Rightarrow> blob_record list \<Rightarrow> extent_file \<Rightarrow> (extent_error, (nat \<times> u32) list \<times> extent_file) result" where
  "append_all crc [] ef = Ok ([], ef)"
| "append_all crc (r # rs) ef =
     (case r of (blob, shard, body) \<Rightarrow>
        and_then (append_record crc blob shard body ef) (\<lambda>(o1, ef1).
          and_then (append_all crc rs ef1) (\<lambda>(os, ef2). Ok (o1 # os, ef2))))"

lemma record_offset_append: "k < length rs \<Longrightarrow> record_offset (rs @ rs') k = record_offset rs k"
  by (simp add: record_offset_def)

lemma append_all_holds:
  assumes "extent_holds crc eid rs ef" and "\<forall>r \<in> set new. record_fits r"
  shows "\<exists>os ef'. append_all crc new ef = Ok (os, ef') \<and> extent_holds crc eid (rs @ new) ef' \<and>
    os = map (\<lambda>k. (record_offset (rs @ new) k, crc (body_of_record ((rs @ new) ! k)))) [length rs..<length (rs @ new)]"
  using assms
proof (induction new arbitrary: rs ef)
  case Nil
  then show ?case by simp
next
  case (Cons r new)
  obtain blob shard body where r: "r = (blob, shard, body)" by (cases r)
  obtain ef1 where a: "append_record crc blob shard body ef = Ok ((length (extent_image crc eid rs), crc body), ef1)"
    and h1: "extent_holds crc eid (rs @ [r]) ef1"
    using append_record_holds [OF Cons.prems(1), of blob shard body] Cons.prems(2) r by auto
  obtain os ef2 where rest: "append_all crc new ef1 = Ok (os, ef2)" "extent_holds crc eid ((rs @ [r]) @ new) ef2"
    "os = map (\<lambda>k. (record_offset ((rs @ [r]) @ new) k, crc (body_of_record (((rs @ [r]) @ new) ! k))))
      [length (rs @ [r])..<length ((rs @ [r]) @ new)]"
    using Cons.IH [OF h1] Cons.prems(2) by auto
  have off: "length (extent_image crc eid rs) = record_offset (rs @ r # new) (length rs)"
    using Cons.prems(1) length_extent_image by (auto simp: extent_holds_def record_offset_def)
  show ?case
    using a rest r off by (simp add: upt_conv_Cons body_of_record_def del: upt_Suc)
qed

section \<open>Properties\<close>

text \<open>C8: append and read. Any sequence of records whose bodies fit the 32-bit size field is appended
  to a fresh extent file without error; every offset returned is a multiple of the record alignment,
  the returned checksum is the body's, and reading at that offset gives back exactly that record's
  blob, shard and body, also after all later appends.\<close>

theorem append_then_read:
  assumes "extent_create crc None eid = Ok ef0" and "\<forall>r \<in> set rs. record_fits r"
  shows "\<exists>os ef. append_all crc rs ef0 = Ok (os, ef) \<and> length os = length rs \<and>
    (\<forall>k < length rs. RECORD_ALIGN dvd fst (os ! k) \<and> snd (os ! k) = crc (body_of_record (rs ! k)) \<and>
       read_record crc (fst (os ! k)) ef = Ok (header_of (rs ! k), body_of_record (rs ! k)))"
proof -
  obtain os ef where a: "append_all crc rs ef0 = Ok (os, ef)" and h: "extent_holds crc eid rs ef"
    and os: "os = map (\<lambda>k. (record_offset rs k, crc (body_of_record (rs ! k)))) [0..<length rs]"
    using append_all_holds [OF extent_create_holds [OF assms(1)] assms(2)] by auto
  have "RECORD_ALIGN dvd record_offset rs k" for k
  proof -
    have "RECORD_ALIGN dvd sum_list (map record_len xs)" for xs
      by (induction xs) (simp_all add: record_len_def record_on_disk_len_dvd)
    then show ?thesis by (simp add: record_offset_def RECORD_ALIGN_def EXTENT_HEADER_LEN_def)
  qed
  then show ?thesis using a os read_record_holds [OF h] by auto
qed

theorem append_then_read_witness:
  "\<exists>os ef. append_all (\<lambda>_. 7) [(BlobId 1, ShardId 2, [1, 2]), (BlobId 3, ShardId 2, [5])]
      \<lparr>ef_file = write_all_at (extent_header_encode (\<lambda>_. 7) (ExtentId 0)) 0 [], ef_extent_id = ExtentId 0,
       ef_write_offset = EXTENT_HEADER_LEN\<rparr> = Ok (os, ef) \<and>
     read_record (\<lambda>_. 7) (fst (os ! 1)) ef = Ok (\<lparr>rh_blob_id = BlobId 3, rh_shard_id = ShardId 2, rh_body_len = 1\<rparr>, [5])"
  using append_then_read [of "\<lambda>_. 7" "ExtentId 0"
      "\<lparr>ef_file = write_all_at (extent_header_encode (\<lambda>_. 7) (ExtentId 0)) 0 [], ef_extent_id = ExtentId 0,
       ef_write_offset = EXTENT_HEADER_LEN\<rparr>" "[(BlobId 1, ShardId 2, [1, 2]), (BlobId 3, ShardId 2, [5])]"]
  by (auto simp: extent_create_def record_fits_def body_of_record_def header_of_def)

text \<open>C9: crash recovery of a torn append. A file that holds the records \<open>rs\<close> followed by a proper
  prefix of one more record's header, body and footer is opened and scanned back to exactly \<open>rs\<close>,
  with every record's offset, length and checksum; the valid end is where the torn record started,
  \<open>truncated\<close> is set exactly when there was a tail, and truncating to the valid end restores the
  file and its cursor as they were before the torn append.\<close>

theorem scan_recovers_torn:
  assumes "extent_holds crc eid rs ef" and "record_fits r" and "n < length (record_core crc r)"
  shows "\<exists>ef' rec. extent_open crc (ef_file ef @ take n (record_core crc r)) = Ok ef' \<and>
    scan crc ef' = Ok rec \<and> rc_records rec = recovered_list crc rs EXTENT_HEADER_LEN \<and>
    rc_valid_end rec = ef_write_offset ef \<and> (rc_truncated rec \<longleftrightarrow> 0 < n) \<and>
    truncate_to (rc_valid_end rec) ef' = ef"
proof -
  have fits: "\<forall>r \<in> set rs. record_fits r"
    and ef: "ef = \<lparr>ef_file = extent_image crc eid rs, ef_extent_id = eid, ef_write_offset = length (extent_image crc eid rs)\<rparr>"
    using assms(1) by (auto simp: extent_holds_def)
  have "length (take n (record_core crc r)) = n" using assms(3) by simp
  then have "take n (record_core crc r) = [] \<longleftrightarrow> n = 0" by (metis length_0_conv)
  then show ?thesis
    using extent_open_image [of crc eid rs] scan_image [OF fits scan_stops_torn [OF assms(2,3)], of eid]
    by (simp add: ef truncate_to_def set_len_def)
qed

theorem scan_recovers_torn_witness:
  "\<exists>ef' rec. extent_open (\<lambda>_. 7) (extent_image (\<lambda>_. 7) (ExtentId 0) [(BlobId 1, ShardId 2, [1, 2])]
        @ take 33 (record_core (\<lambda>_. 7) (BlobId 3, ShardId 2, [5]))) = Ok ef' \<and>
      scan (\<lambda>_. 7) ef' = Ok rec \<and> length (rc_records rec) = 1 \<and> rc_truncated rec"
  using scan_recovers_torn [of "\<lambda>_. 7" "ExtentId 0" "[(BlobId 1, ShardId 2, [1, 2])]"
      "\<lparr>ef_file = extent_image (\<lambda>_. 7) (ExtentId 0) [(BlobId 1, ShardId 2, [1, 2])], ef_extent_id = ExtentId 0,
       ef_write_offset = length (extent_image (\<lambda>_. 7) (ExtentId 0) [(BlobId 1, ShardId 2, [1, 2])])\<rparr>"
      "(BlobId 3, ShardId 2, [5])" 33]
  by (auto simp: extent_holds_def record_fits_def body_of_record_def RECORD_HEADER_LEN_def RECORD_FOOTER_LEN_def)

text \<open>
  The scan does not look at a record's padding: a record cut inside its padding is accepted, and the
  valid end it reports then lies past the end of the file although \<open>truncated\<close> is not set.
\<close>

theorem scan_unpadded_record:
  assumes "extent_holds crc eid rs ef" and "record_fits r" and "length (record_core crc r) < record_len r"
  shows "\<exists>rec. scan crc \<lparr>ef_file = ef_file ef @ record_core crc r, ef_extent_id = eid, ef_write_offset = w\<rparr> = Ok rec \<and>
    \<not> rc_truncated rec \<and> length (ef_file ef @ record_core crc r) < rc_valid_end rec"
proof -
  have fits: "\<forall>r \<in> set rs. record_fits r" and f: "ef_file ef = extent_image crc eid rs"
    using assms(1) by (auto simp: extent_holds_def)
  let ?hdr = "extent_header_encode crc eid" and ?rs = "concat (map (record_bytes crc) rs)"
  let ?f = "?hdr @ ?rs @ record_core crc r"
  have len: "length ?rs = sum_list (map record_len rs)" using fits by (induction rs) simp_all
  have "scan_loop crc ?f EXTENT_HEADER_LEN [] =
      scan_loop crc ?f (length (?hdr @ ?rs)) (recovered_list crc rs EXTENT_HEADER_LEN)"
    using scan_loop_advance [OF fits, of crc ?hdr "record_core crc r" "[]"] len by simp
  also have "\<dots> = scan_loop crc ?f (length (?hdr @ ?rs) + record_len r)
      (recovered_list crc rs EXTENT_HEADER_LEN @ [recovered_of crc r (length (?hdr @ ?rs))])"
    using scan_loop_record [OF assms(2), of crc "?hdr @ ?rs" "[]"] by simp
  also have "\<dots> = Ok (recovered_list crc rs EXTENT_HEADER_LEN @ [recovered_of crc r (length (?hdr @ ?rs))],
      length (?hdr @ ?rs) + record_len r)"
    using assms(3) by (subst scan_loop.simps) simp
  finally show ?thesis
    using assms(3) by (simp add: f extent_image_def scan_def)
qed

end
