(* ===== verification/Kv.thy ===== *)
theory Kv
  imports Prelude "HOL-Library.Finite_Map"
begin

text \<open>
  Ordered key-value stores: the contents of a \<open>BTreeMap\<close> or of a RocksDB column family as a finite
  map, with iteration in key order. Used by the disk index of the data node and by the metadata
  store. Both kinds of store are read through \<open>kv_entries\<close>, the entries in ascending key order,
  from which prefix iteration and range scans are derived.
\<close>

type_synonym ('k, 'v) kv = "('k, 'v) fmap"

definition kv_entries :: "('k::linorder, 'v) kv \<Rightarrow> ('k \<times> 'v) list" where
  "kv_entries m = map (\<lambda>k. (k, the (fmlookup m k))) (sorted_list_of_fset (fmdom m))"

text \<open>Iteration from a key onwards.\<close>

definition kv_from :: "'k::linorder \<Rightarrow> ('k, 'v) kv \<Rightarrow> ('k \<times> 'v) list" where
  "kv_from start m = filter (\<lambda>(k, _). start \<le> k) (kv_entries m)"

text \<open>Iteration from a prefix onwards, stopping at the first key that does not start with it.\<close>

definition kv_prefix_scan :: "'c::linorder list \<Rightarrow> ('c list, 'v) kv \<Rightarrow> ('c list \<times> 'v) list" where
  "kv_prefix_scan p m = takeWhile (\<lambda>(k, _). prefix p k) (kv_from p m)"

text \<open>Range iteration: an inclusive start and an exclusive end, if any.\<close>

definition kv_range :: "'k::linorder \<Rightarrow> 'k option \<Rightarrow> ('k, 'v) kv \<Rightarrow> ('k \<times> 'v) list" where
  "kv_range start stop m =
     filter (\<lambda>(k, _). start \<le> k \<and> (case stop of None \<Rightarrow> True | Some e \<Rightarrow> k < e)) (kv_entries m)"

lemma map_fst_kv_entries: "map fst (kv_entries m) = sorted_list_of_fset (fmdom m)"
  by (simp add: kv_entries_def comp_def)

lemma sorted_kv_entries: "sorted (map fst (kv_entries m))"
  and distinct_kv_entries: "distinct (map fst (kv_entries m))"
  by (simp_all add: map_fst_kv_entries sorted_list_of_fset.rep_eq)

lemma set_kv_entries: "(k, v) \<in> set (kv_entries m) \<longleftrightarrow> fmlookup m k = Some v"
proof -
  have "set (sorted_list_of_fset (fmdom m)) = fset (fmdom m)"
    by (simp add: sorted_list_of_fset.rep_eq)
  then have "(k, v) \<in> set (kv_entries m) \<longleftrightarrow> k \<in> fset (fmdom m) \<and> v = the (fmlookup m k)"
    by (auto simp: kv_entries_def)
  moreover have "k \<in> fset (fmdom m) \<longleftrightarrow> fmlookup m k \<noteq> None"
    unfolding fmdom.rep_eq dom_def by simp
  ultimately show ?thesis by (cases "fmlookup m k") auto
qed

lemma set_kv_from: "(k, v) \<in> set (kv_from s m) \<longleftrightarrow> s \<le> k \<and> fmlookup m k = Some v"
  by (auto simp: kv_from_def set_kv_entries)

lemma sorted_filter_fst: "sorted (map fst xs) \<Longrightarrow> sorted (map fst (filter P xs))"
  by (induction xs) auto

lemma distinct_filter_fst: "distinct (map fst xs) \<Longrightarrow> distinct (map fst (filter P xs))"
  by (rule distinct_map_filter)

text \<open>Between a prefix and a key that has it, every key has it.\<close>

lemma prefix_between:
  fixes p k k' :: "'c::linorder list"
  shows "p \<le> k \<Longrightarrow> k \<le> k' \<Longrightarrow> prefix p k' \<Longrightarrow> prefix p k"
proof (induction p arbitrary: k k')
  case (Cons a p)
  obtain ks' where k': "k' = a # ks'" "prefix p ks'" using Cons.prems(3) by (cases k') auto
  obtain b ks where k: "k = b # ks" using Cons.prems(1) by (cases k) auto
  have "a = b" using Cons.prems(1,2) k k'(1) by auto
  then show ?case using Cons.IH [of ks ks'] Cons.prems(1,2) k k' by auto
qed simp

lemma prefix_le: "prefix p k \<Longrightarrow> p \<le> (k :: 'c::linorder list)"
proof (induction p arbitrary: k)
  case (Cons a p)
  then obtain ks where "k = a # ks" "prefix p ks" by (cases k) auto
  then show ?case using Cons.IH by simp
qed simp

lemma takeWhile_eq_filter:
  assumes "\<And>i j. i < j \<Longrightarrow> j < length xs \<Longrightarrow> P (xs ! j) \<Longrightarrow> P (xs ! i)"
  shows "takeWhile P xs = filter P xs"
  using assms
proof (induction xs)
  case (Cons x xs)
  have ih: "takeWhile P xs = filter P xs"
    using Cons.prems [of "Suc i" "Suc j" for i j] by (intro Cons.IH) auto
  show ?case
  proof (cases "P x")
    case False
    have "\<not> P y" if "y \<in> set xs" for y
      using Cons.prems [of 0 "Suc j" for j] that False by (auto simp: in_set_conv_nth)
    then show ?thesis using False by simp
  qed (use ih in simp)
qed simp

lemma kv_prefix_scan_filter:
  "kv_prefix_scan p m = filter (\<lambda>(k, _). prefix p k) (kv_entries m)"
proof -
  let ?xs = "kv_from p m"
  have sorted: "sorted (map fst ?xs)"
    unfolding kv_from_def by (intro sorted_filter_fst sorted_kv_entries)
  have ge: "p \<le> fst (?xs ! i)" if "i < length ?xs" for i
    using nth_mem [OF that] set_kv_from [of "fst (?xs ! i)" "snd (?xs ! i)" p m] by auto
  have "kv_prefix_scan p m = filter (\<lambda>(k, _). prefix p k) ?xs"
    unfolding kv_prefix_scan_def
  proof (rule takeWhile_eq_filter)
    fix i j assume ij: "i < j" "j < length ?xs" and pj: "case ?xs ! j of (k, _) \<Rightarrow> prefix p k"
    have "fst (?xs ! i) \<le> fst (?xs ! j)" using sorted_nth_mono [OF sorted, of i j] ij by simp
    then have "prefix p (fst (?xs ! i))"
      using prefix_between [OF ge] pj ij by (auto split: prod.splits)
    then show "case ?xs ! i of (k, _) \<Rightarrow> prefix p k" by (simp add: split_beta)
  qed
  then show ?thesis
    by (auto simp: kv_from_def intro!: filter_cong dest: prefix_le)
qed

lemma set_kv_prefix_scan:
  "(k, v) \<in> set (kv_prefix_scan p m) \<longleftrightarrow> prefix p k \<and> fmlookup m k = Some v"
  by (auto simp: kv_prefix_scan_filter set_kv_entries)

lemma set_kv_range:
  "(k, v) \<in> set (kv_range s e m) \<longleftrightarrow>
     s \<le> k \<and> (case e of None \<Rightarrow> True | Some x \<Rightarrow> k < x) \<and> fmlookup m k = Some v"
  by (auto simp: kv_range_def set_kv_entries)

lemma sorted_kv_prefix_scan: "sorted (map fst (kv_prefix_scan p m))"
  and distinct_kv_prefix_scan: "distinct (map fst (kv_prefix_scan p m))"
  unfolding kv_prefix_scan_filter
  by (intro sorted_filter_fst sorted_kv_entries, intro distinct_filter_fst distinct_kv_entries)

lemma sorted_kv_range: "sorted (map fst (kv_range s e m))"
  and distinct_kv_range: "distinct (map fst (kv_range s e m))"
  unfolding kv_range_def
  by (intro sorted_filter_fst sorted_kv_entries, intro distinct_filter_fst distinct_kv_entries)

text \<open>Two sorted lists with distinct keys and the same entries are equal.\<close>

lemma sorted_entries_unique:
  assumes "sorted (map fst xs)" "distinct (map fst xs)" "sorted (map fst ys)" "distinct (map fst ys)"
    and "set xs = set ys"
  shows "xs = ys"
proof -
  have keys: "map fst xs = map fst ys"
    using assms(1-4) by (rule sorted_distinct_set_unique) (simp add: assms(5))
  show ?thesis
  proof (rule nth_equalityI)
    show len: "length xs = length ys" using arg_cong [OF keys, of length] by simp
    fix i assume i: "i < length xs"
    have fst_eq: "fst (ys ! i) = fst (xs ! i)"
      using arg_cong [OF keys, of "\<lambda>l. l ! i"] i len by simp
    have "xs ! i \<in> set ys" unfolding assms(5) [symmetric] using i by (rule nth_mem)
    then have "(fst (xs ! i), snd (xs ! i)) \<in> set ys" by (simp only: prod.collapse)
    moreover have "ys ! i \<in> set ys" using i unfolding len by (rule nth_mem)
    then have "(fst (xs ! i), snd (ys ! i)) \<in> set ys" unfolding fst_eq [symmetric] by (simp only: prod.collapse)
    ultimately have "snd (xs ! i) = snd (ys ! i)" by (rule eq_key_imp_eq_value [OF assms(4)])
    then show "xs ! i = ys ! i" by (rule prod_eqI [OF fst_eq [symmetric]])
  qed
qed

end
