(* ===== verification/Store_Index.thy ===== *)
theory Store_Index
  imports Store_Record Kv
begin

text \<open>
  The per-disk index of \<open>crates/epoch-store/src\<close>: the operand language of the RocksDB merge
  operator (\<open>meta_merge.rs\<close>), the extent-metadata and blob-index codecs, the three keyspaces and
  every operation of \<open>DiskIndex\<close> (\<open>index.rs\<close>). RocksDB itself is its documented contents: a finite
  map from keys to values, read in key order, changed by atomic batches of puts, deletes and
  merges, where a merge stores what the merge operator returns for the present value.
  The lemmas relate the byte-level store to a typed view of it, \<open>index_view\<close>.
\<close>

section \<open>Extent metadata and its merge operands\<close>

definition FLAG_TOMBSTONE :: byte where "FLAG_TOMBSTONE = 1"
definition EXTENT_META_LEN :: nat where "EXTENT_META_LEN = 33"
definition BLOB_INDEX_LEN :: nat where "BLOB_INDEX_LEN = 17"
definition EXTENT_KEY_LEN :: nat where "EXTENT_KEY_LEN = 1 + 16"
definition BLOB_KEY_PREFIX_LEN :: nat where "BLOB_KEY_PREFIX_LEN = 1 + 16"
definition BLOB_KEY_LEN :: nat where "BLOB_KEY_LEN = 1 + 16 + 8"

datatype index_error = IndexCorrupt string nat string

record extent_meta =
  em_shard_id :: shard_id
  em_status :: extent_status
  em_size :: u64
  em_deleted_bytes :: u64
  em_create_ts :: i64

definition extent_meta_encode :: "extent_meta \<Rightarrow> bytes" where
  "extent_meta_encode m =
     to_le_bytes 8 (shard_as_u64 (em_shard_id m)) @ [status_to_u8 (em_status m)]
       @ to_le_bytes 8 (em_size m) @ to_le_bytes 8 (em_deleted_bytes m) @ to_le_bytes 8 (em_create_ts m)"

definition extent_meta_decode_value :: "bytes \<Rightarrow> (string, extent_meta) result" where
  "extent_meta_decode_value buf0 =
     and_then (ok_or ''short extent meta'' (first_chunk EXTENT_META_LEN buf0)) (\<lambda>buf.
     and_then (ok_or ''unknown extent status'' (status_from_u8 (buf ! 8))) (\<lambda>status.
     Ok \<lparr>em_shard_id = ShardId (from_le_bytes (read_array 8 buf 0)),
         em_status = status,
         em_size = from_le_bytes (read_array 8 buf 9),
         em_deleted_bytes = from_le_bytes (read_array 8 buf 17),
         em_create_ts = from_le_bytes (read_array 8 buf 25)\<rparr>))"

record blob_index =
  bi_offset :: u64
  bi_size :: u32
  bi_crc :: u32
  bi_flags :: byte

definition blob_index_new :: "u64 \<Rightarrow> u32 \<Rightarrow> u32 \<Rightarrow> blob_index" where
  "blob_index_new offset sz crc = \<lparr>bi_offset = offset, bi_size = sz, bi_crc = crc, bi_flags = 0\<rparr>"

definition is_tombstoned :: "blob_index \<Rightarrow> bool" where
  "is_tombstoned i \<longleftrightarrow> bi_flags i AND FLAG_TOMBSTONE \<noteq> 0"

definition blob_index_encode :: "blob_index \<Rightarrow> bytes" where
  "blob_index_encode i =
     to_le_bytes 8 (bi_offset i) @ to_le_bytes 4 (bi_size i) @ to_le_bytes 4 (bi_crc i) @ [bi_flags i]"

definition blob_index_decode :: "bytes \<Rightarrow> (string, blob_index) result" where
  "blob_index_decode buf0 =
     and_then (ok_or ''short blob index'' (first_chunk BLOB_INDEX_LEN buf0)) (\<lambda>buf.
     Ok \<lparr>bi_offset = from_le_bytes (read_array 8 buf 0),
         bi_size = from_le_bytes (read_array 4 buf 8),
         bi_crc = from_le_bytes (read_array 4 buf 12),
         bi_flags = buf ! 16\<rparr>)"

definition TAG_SET_SIZE :: byte where "TAG_SET_SIZE = 1"
definition TAG_ADD_DELETED :: byte where "TAG_ADD_DELETED = 2"
definition TAG_SET_STATUS :: byte where "TAG_SET_STATUS = 3"

datatype meta_merge_op = SetSize u64 | AddDeletedBytes u64 | SetStatus extent_status

fun merge_op_encode :: "meta_merge_op \<Rightarrow> bytes" where
  "merge_op_encode (SetSize sz) = TAG_SET_SIZE # to_le_bytes 8 sz"
| "merge_op_encode (AddDeletedBytes n) = TAG_ADD_DELETED # to_le_bytes 8 n"
| "merge_op_encode (SetStatus s) = TAG_SET_STATUS # status_to_u8 s # replicate 7 0"

definition merge_op_decode :: "bytes \<Rightarrow> meta_merge_op option" where
  "merge_op_decode buf =
     (if length buf \<noteq> 9 then None
      else if buf ! 0 = TAG_SET_SIZE then Some (SetSize (from_le_bytes (read_array 8 buf 1)))
      else if buf ! 0 = TAG_ADD_DELETED then Some (AddDeletedBytes (from_le_bytes (read_array 8 buf 1)))
      else if buf ! 0 = TAG_SET_STATUS then map_option SetStatus (status_from_u8 (buf ! 1))
      else None)"

fun merge_op_apply :: "meta_merge_op \<Rightarrow> extent_meta \<Rightarrow> extent_meta" where
  "merge_op_apply (SetSize sz) m = m\<lparr>em_size := sz\<rparr>"
| "merge_op_apply (AddDeletedBytes n) m = m\<lparr>em_deleted_bytes := saturating_add (em_deleted_bytes m) n\<rparr>"
| "merge_op_apply (SetStatus s) m = m\<lparr>em_status := s\<rparr>"

definition chunks_exact :: "nat \<Rightarrow> 'a list \<Rightarrow> 'a list list" where
  "chunks_exact n xs = filter (\<lambda>c. length c = n) (chunks n xs)"

fun collect_options :: "'a option list \<Rightarrow> 'a list option" where
  "collect_options [] = Some []"
| "collect_options (None # _) = None"
| "collect_options (Some x # xs) = map_option ((#) x) (collect_options xs)"

definition decode_operand_stack :: "bytes \<Rightarrow> meta_merge_op list option" where
  "decode_operand_stack buf =
     (if buf = [] \<or> \<not> 9 dvd length buf then None
      else collect_options (map merge_op_decode (chunks_exact 9 buf)))"

definition apply_raw_operand :: "bytes \<Rightarrow> extent_meta \<Rightarrow> extent_meta" where
  "apply_raw_operand raw m = (case merge_op_decode raw of None \<Rightarrow> m | Some op \<Rightarrow> merge_op_apply op m)"

definition merge_meta :: "bytes \<Rightarrow> bytes option \<Rightarrow> bytes list \<Rightarrow> bytes option" where
  "merge_meta key existing operands =
     (case existing of
        None \<Rightarrow> Some (concat operands)
      | Some base \<Rightarrow>
          (case extent_meta_decode_value base of
             Ok meta \<Rightarrow> Some (extent_meta_encode (fold apply_raw_operand operands meta))
           | Err _ \<Rightarrow>
               if decode_operand_stack base = None then Some base
               else Some (base @ concat operands)))"

section \<open>The database and its keyspaces\<close>

type_synonym db = "(bytes, bytes) kv"

datatype batch_op = BatchPut bytes bytes | BatchMerge bytes bytes | BatchDelete bytes

fun apply_batch_op :: "batch_op \<Rightarrow> db \<Rightarrow> db" where
  "apply_batch_op (BatchPut k v) d = fmupd k v d"
| "apply_batch_op (BatchDelete k) d = fmdrop k d"
| "apply_batch_op (BatchMerge k op) d =
     (case merge_meta k (fmlookup d k) [op] of None \<Rightarrow> d | Some v \<Rightarrow> fmupd k v d)"

definition write_synced :: "batch_op list \<Rightarrow> db \<Rightarrow> db" where
  "write_synced batch d = fold apply_batch_op batch d"

definition extent_key :: "extent_id \<Rightarrow> bytes" where
  "extent_key e = 0x65 # extent_as_bytes e"

definition shard_key :: "shard_id \<Rightarrow> bytes" where
  "shard_key s = 0x73 # to_be_bytes 8 (shard_prefix s)"

definition blob_key_prefix :: "extent_id \<Rightarrow> bytes" where
  "blob_key_prefix e = 0x62 # extent_as_bytes e"

definition blob_key :: "extent_id \<Rightarrow> blob_id \<Rightarrow> bytes" where
  "blob_key e b = 0x62 # extent_as_bytes e @ blob_to_be_bytes b"

section \<open>Index operations\<close>

definition put_extent_meta :: "extent_id \<Rightarrow> extent_meta \<Rightarrow> db \<Rightarrow> db" where
  "put_extent_meta e m d = fmupd (extent_key e) (extent_meta_encode m) d"

definition get_extent_meta :: "db \<Rightarrow> extent_id \<Rightarrow> (index_error, extent_meta option) result" where
  "get_extent_meta d e =
     (case fmlookup d (extent_key e) of
        None \<Rightarrow> Ok None
      | Some v \<Rightarrow>
          (case extent_meta_decode_value v of
             Ok m \<Rightarrow> Ok (Some m)
           | Err reason \<Rightarrow> Err (IndexCorrupt ''extent_meta'' (length v) reason)))"

definition set_shard_binding :: "shard_id \<Rightarrow> extent_id \<Rightarrow> db \<Rightarrow> db" where
  "set_shard_binding s e d = fmupd (shard_key s) (extent_as_bytes e) d"

definition get_shard_binding :: "db \<Rightarrow> shard_id \<Rightarrow> (index_error, extent_id option) result" where
  "get_shard_binding d s =
     (case fmlookup d (shard_key s) of
        None \<Rightarrow> Ok None
      | Some v \<Rightarrow>
          if length v = 16 then Ok (Some (extent_from_bytes v))
          else Err (IndexCorrupt ''shard_binding'' (length v) ''expected 16-byte extent id''))"

definition get_blob :: "db \<Rightarrow> extent_id \<Rightarrow> blob_id \<Rightarrow> (index_error, blob_index option) result" where
  "get_blob d e b =
     (case fmlookup d (blob_key e b) of
        None \<Rightarrow> Ok None
      | Some v \<Rightarrow>
          (case blob_index_decode v of
             Ok i \<Rightarrow> Ok (Some i)
           | Err reason \<Rightarrow> Err (IndexCorrupt ''blob_index'' (length v) reason)))"

definition list_blobs_item :: "bytes \<times> bytes \<Rightarrow> (index_error, blob_id \<times> blob_index) result" where
  "list_blobs_item = (\<lambda>(key, v).
     case get_range key BLOB_KEY_PREFIX_LEN BLOB_KEY_LEN of
       None \<Rightarrow> Err (IndexCorrupt ''blob_key'' (length key) ''expected 25-byte blob key'')
     | Some blob_be \<Rightarrow>
         (case blob_index_decode v of
            Ok i \<Rightarrow> Ok (BlobId (from_be_bytes blob_be), i)
          | Err reason \<Rightarrow> Err (IndexCorrupt ''blob_index'' (length v) reason)))"

definition list_blobs :: "db \<Rightarrow> extent_id \<Rightarrow> (index_error, (blob_id \<times> blob_index) list) result" where
  "list_blobs d e = collect_results (map list_blobs_item (kv_prefix_scan (blob_key_prefix e) d))"

definition blob_puts :: "extent_id \<Rightarrow> (blob_id \<times> blob_index) list \<Rightarrow> batch_op list" where
  "blob_puts e blobs = map (\<lambda>(b, i). BatchPut (blob_key e b) (blob_index_encode i)) blobs"

definition commit_blobs :: "extent_id \<Rightarrow> (blob_id \<times> blob_index) list \<Rightarrow> u64 \<Rightarrow> db \<Rightarrow> db" where
  "commit_blobs e blobs sz d =
     write_synced (blob_puts e blobs @ [BatchMerge (extent_key e) (merge_op_encode (SetSize sz))]) d"

definition commit_blob :: "extent_id \<Rightarrow> blob_id \<Rightarrow> blob_index \<Rightarrow> u64 \<Rightarrow> db \<Rightarrow> db" where
  "commit_blob e b i sz d = commit_blobs e [(b, i)] sz d"

definition install_extent ::
    "extent_id \<Rightarrow> extent_meta \<Rightarrow> (blob_id \<times> blob_index) list \<Rightarrow> db \<Rightarrow> db" where
  "install_extent e m blobs d =
     write_synced ([BatchPut (extent_key e) (extent_meta_encode m),
                    BatchPut (shard_key (em_shard_id m)) (extent_as_bytes e)] @ blob_puts e blobs) d"

definition set_tombstone :: "blob_index \<Rightarrow> blob_index" where
  "set_tombstone i = i\<lparr>bi_flags := bi_flags i OR FLAG_TOMBSTONE\<rparr>"

definition tombstone_blob :: "extent_id \<Rightarrow> blob_id \<Rightarrow> db \<Rightarrow> (index_error, bool \<times> db) result" where
  "tombstone_blob e b d =
     and_then (get_blob d e b) (\<lambda>found.
       case found of
         None \<Rightarrow> Ok (False, d)
       | Some i \<Rightarrow>
           if is_tombstoned i then Ok (False, d)
           else Ok (True, write_synced
                 [BatchPut (blob_key e b) (blob_index_encode (set_tombstone i)),
                  BatchMerge (extent_key e)
                    (merge_op_encode (AddDeletedBytes (of_nat (record_on_disk_len (bi_size i)))))] d))"

fun carry_tombstones ::
    "db \<Rightarrow> extent_id \<Rightarrow> blob_id list \<Rightarrow> batch_op list \<Rightarrow> u64 \<Rightarrow> (index_error, batch_op list \<times> u64) result" where
  "carry_tombstones d e [] batch carried_bytes = Ok (batch, carried_bytes)"
| "carry_tombstones d e (b # bs) batch carried_bytes =
     and_then (get_blob d e b) (\<lambda>found.
       case found of
         None \<Rightarrow> carry_tombstones d e bs batch carried_bytes
       | Some i \<Rightarrow>
           if is_tombstoned i then carry_tombstones d e bs batch carried_bytes
           else carry_tombstones d e bs
                  (batch @ [BatchPut (blob_key e b) (blob_index_encode (set_tombstone i))])
                  (carried_bytes + of_nat (record_on_disk_len (bi_size i))))"

definition swap_shard_binding_with ::
    "shard_id \<Rightarrow> extent_id \<Rightarrow> extent_id \<Rightarrow> blob_id list \<Rightarrow> db \<Rightarrow> (index_error, db) result" where
  "swap_shard_binding_with s new_extent old_extent carried d =
     (let batch0 = [BatchPut (shard_key s) (extent_as_bytes new_extent),
                    BatchMerge (extent_key old_extent) (merge_op_encode (SetStatus Dropped))] in
      and_then (carry_tombstones d new_extent carried batch0 0) (\<lambda>(batch, carried_bytes).
        Ok (write_synced
              (if 0 < carried_bytes
               then batch @ [BatchMerge (extent_key new_extent) (merge_op_encode (AddDeletedBytes carried_bytes))]
               else batch) d)))"

definition swap_shard_binding :: "shard_id \<Rightarrow> extent_id \<Rightarrow> extent_id \<Rightarrow> db \<Rightarrow> (index_error, db) result" where
  "swap_shard_binding s new_extent old_extent d = swap_shard_binding_with s new_extent old_extent [] d"

definition set_extent_status :: "extent_id \<Rightarrow> extent_status \<Rightarrow> db \<Rightarrow> (index_error, db) result" where
  "set_extent_status e status d =
     and_then (get_extent_meta d e) (\<lambda>found.
     and_then (ok_or (IndexCorrupt ''extent_meta'' 0 ''missing metadata for status transition'') found) (\<lambda>_.
     Ok (write_synced [BatchMerge (extent_key e) (merge_op_encode (SetStatus status))] d)))"

definition index_seal_extent :: "extent_id \<Rightarrow> db \<Rightarrow> (index_error, db) result" where
  "index_seal_extent e d =
     and_then (get_extent_meta d e) (\<lambda>found.
     and_then (ok_or (IndexCorrupt ''extent_meta'' 0 ''missing metadata for seal'') found) (\<lambda>_.
     Ok (write_synced [BatchMerge (extent_key e) (merge_op_encode (SetStatus Sealed))] d)))"

definition list_extents_item :: "bytes \<times> bytes \<Rightarrow> (index_error, extent_id \<times> extent_meta) result" where
  "list_extents_item = (\<lambda>(key, v).
     case get_range key 1 EXTENT_KEY_LEN of
       None \<Rightarrow> Err (IndexCorrupt ''extent_key'' (length key) ''expected 17-byte extent key'')
     | Some bs \<Rightarrow>
         (case extent_meta_decode_value v of
            Ok m \<Rightarrow> Ok (extent_from_bytes bs, m)
          | Err reason \<Rightarrow> Err (IndexCorrupt ''extent_meta'' (length v) reason)))"

definition list_extents :: "db \<Rightarrow> (index_error, (extent_id \<times> extent_meta) list) result" where
  "list_extents d = collect_results (map list_extents_item (kv_prefix_scan [0x65] d))"

definition remove_extent :: "extent_id \<Rightarrow> db \<Rightarrow> db" where
  "remove_extent e d =
     write_synced (BatchDelete (extent_key e)
        # map (\<lambda>(key, _). BatchDelete key) (kv_prefix_scan (blob_key_prefix e) d)) d"

section \<open>Codec lemmas\<close>

lemma length_extent_meta_encode [simp]: "length (extent_meta_encode m) = EXTENT_META_LEN"
  by (simp add: extent_meta_encode_def EXTENT_META_LEN_def)

lemma length_blob_index_encode [simp]: "length (blob_index_encode i) = BLOB_INDEX_LEN"
  by (simp add: blob_index_encode_def BLOB_INDEX_LEN_def)

lemma status_from_to_u8 [simp]: "status_from_u8 (status_to_u8 s) = Some s"
  by (cases s) (simp_all add: status_from_u8_def)

interpretation extent_meta: wire_codec extent_meta_encode extent_meta_decode_value EXTENT_META_LEN
proof
  fix m rest
  show "extent_meta_decode_value (extent_meta_encode m @ rest) = Ok m"
    unfolding extent_meta_decode_value_def first_chunk_append [OF length_extent_meta_encode]
    by (simp add: extent_meta_encode_def read_array_def nth_append)
qed simp

interpretation blob_index: wire_codec blob_index_encode blob_index_decode BLOB_INDEX_LEN
proof
  fix i rest
  show "blob_index_decode (blob_index_encode i @ rest) = Ok i"
    unfolding blob_index_decode_def first_chunk_append [OF length_blob_index_encode]
    by (simp add: blob_index_encode_def read_array_def nth_append)
qed simp

declare extent_meta.dec_exact [simp] blob_index.dec_exact [simp]

lemma merge_op_decode_encode [simp]: "merge_op_decode (merge_op_encode op) = Some op"
  by (cases op) (simp_all add: merge_op_decode_def TAG_SET_SIZE_def TAG_ADD_DELETED_def TAG_SET_STATUS_def
      read_array_def)

lemma apply_raw_operand_encode [simp]: "apply_raw_operand (merge_op_encode op) m = merge_op_apply op m"
  by (simp add: apply_raw_operand_def)

lemma merge_meta_encoded:
  "merge_meta k (Some (extent_meta_encode m)) ops
     = Some (extent_meta_encode (fold apply_raw_operand ops m))"
  by (simp add: merge_meta_def)

section \<open>Key lemmas\<close>

lemma length_blob_to_be_bytes [simp]: "length (blob_to_be_bytes b) = 8"
  by (simp add: blob_to_be_bytes_def)

lemma blob_to_be_bytes_inject [simp]: "blob_to_be_bytes a = blob_to_be_bytes b \<longleftrightarrow> a = b"
  by (cases a; cases b) (simp add: blob_to_be_bytes_def to_be_bytes_inject)

lemmas index_key_defs = extent_key_def shard_key_def blob_key_def blob_key_prefix_def

lemma index_keys_distinct [simp]:
  "extent_key e \<noteq> shard_key s" "shard_key s \<noteq> extent_key e"
  "extent_key e \<noteq> blob_key f b" "blob_key f b \<noteq> extent_key e"
  "shard_key s \<noteq> blob_key f b" "blob_key f b \<noteq> shard_key s"
  by (simp_all add: index_key_defs)

lemma extent_key_inject [simp]: "extent_key a = extent_key b \<longleftrightarrow> a = b"
  by (simp add: extent_key_def extent_as_bytes_inject)

lemma shard_key_inject [simp]: "shard_key a = shard_key b \<longleftrightarrow> shard_prefix a = shard_prefix b"
  by (simp add: shard_key_def to_be_bytes_inject)

lemma blob_key_inject [simp]: "blob_key e b = blob_key f c \<longleftrightarrow> e = f \<and> b = c"
  by (simp add: blob_key_def extent_as_bytes_inject)

lemma prefix_blob_key [simp]: "prefix (blob_key_prefix e) (blob_key f b) \<longleftrightarrow> e = f"
proof -
  have "prefix (extent_as_bytes e) (extent_as_bytes f @ r) \<longleftrightarrow> e = f" for r
    by (auto simp: prefix_def append_eq_append_conv extent_as_bytes_inject)
  then show ?thesis by (simp add: index_key_defs)
qed

lemma not_prefix_extent_key [simp]: "\<not> prefix (blob_key_prefix e) (extent_key f)"
  by (simp add: index_key_defs)

section \<open>The typed view of the database\<close>

record index_view =
  iv_meta :: "extent_id \<Rightarrow> extent_meta option"
  iv_bind :: "u64 \<Rightarrow> extent_id option"
  iv_blob :: "extent_id \<Rightarrow> blob_id \<Rightarrow> blob_index option"

definition value_at :: "index_view \<Rightarrow> bytes \<Rightarrow> bytes option" where
  "value_at v k =
     (case k of
        [] \<Rightarrow> None
      | t # r \<Rightarrow>
          if t = 0x65 \<and> length r = 16 then map_option extent_meta_encode (iv_meta v (extent_from_bytes r))
          else if t = 0x73 \<and> length r = 8 then map_option extent_as_bytes (iv_bind v (from_be_bytes r))
          else if t = 0x62 \<and> length r = 24
            then map_option blob_index_encode
                   (iv_blob v (extent_from_bytes (take 16 r)) (BlobId (from_be_bytes (drop 16 r))))
          else None)"

definition index_rel :: "db \<Rightarrow> index_view \<Rightarrow> bool" where
  "index_rel d v \<longleftrightarrow> (\<forall>k. fmlookup d k = value_at v k)"

lemma value_at_keys [simp]:
  "value_at v (extent_key e) = map_option extent_meta_encode (iv_meta v e)"
  "value_at v (shard_key s) = map_option extent_as_bytes (iv_bind v (shard_prefix s))"
  "value_at v (blob_key e b) = map_option blob_index_encode (iv_blob v e b)"
  by (cases b; simp add: value_at_def index_key_defs blob_to_be_bytes_def)+

lemma value_at_put_meta:
  "value_at (v\<lparr>iv_meta := (iv_meta v)(e := x)\<rparr>) k
     = (if k = extent_key e then map_option extent_meta_encode x else value_at v k)"
  by (cases k) (auto simp: value_at_def extent_key_def extent_as_from_bytes)

lemma value_at_put_bind:
  "value_at (v\<lparr>iv_bind := (iv_bind v)(shard_prefix s := x)\<rparr>) k
     = (if k = shard_key s then map_option extent_as_bytes x else value_at v k)"
proof -
  have "from_be_bytes r = shard_prefix s \<longleftrightarrow> r = to_be_bytes 8 (shard_prefix s)" if "length r = 8" for r
    using that to_from_be_bytes [of r, where 'a = 64] by auto
  then show ?thesis by (cases k) (auto simp: value_at_def shard_key_def)
qed

lemma blob_key_split:
  assumes "length r = 24"
  shows "r = extent_as_bytes e @ blob_to_be_bytes b
           \<longleftrightarrow> extent_from_bytes (take 16 r) = e \<and> BlobId (from_be_bytes (drop 16 r)) = b"
proof
  assume "extent_from_bytes (take 16 r) = e \<and> BlobId (from_be_bytes (drop 16 r)) = b"
  then have "extent_as_bytes e = take 16 r" "blob_to_be_bytes b = drop 16 r"
    using assms by (auto simp: extent_as_from_bytes blob_to_be_bytes_def to_from_be_bytes)
  then show "r = extent_as_bytes e @ blob_to_be_bytes b" by simp
qed (cases b, auto simp: blob_to_be_bytes_def)

lemma value_at_put_blob:
  "value_at (v\<lparr>iv_blob := (iv_blob v)(e := (iv_blob v e)(b := x))\<rparr>) k
     = (if k = blob_key e b then map_option blob_index_encode x else value_at v k)"
proof (cases k)
  case (Cons t r)
  show ?thesis
  proof (cases "length r = 24")
    case True
    show ?thesis unfolding Cons value_at_def blob_key_def list.inject blob_key_split [OF True]
      using True by simp
  next
    case False
    then have "r \<noteq> extent_as_bytes e @ blob_to_be_bytes b" by auto
    then show ?thesis using False Cons by (simp add: value_at_def blob_key_def)
  qed
qed (simp add: value_at_def blob_key_def)

section \<open>Reads return what the view holds\<close>

lemma get_extent_meta_rel [simp]: "index_rel d v \<Longrightarrow> get_extent_meta d e = Ok (iv_meta v e)"
  by (cases "iv_meta v e") (simp_all add: index_rel_def get_extent_meta_def)

lemma get_shard_binding_rel [simp]: "index_rel d v \<Longrightarrow> get_shard_binding d s = Ok (iv_bind v (shard_prefix s))"
  by (cases "iv_bind v (shard_prefix s)") (simp_all add: index_rel_def get_shard_binding_def)

lemma get_blob_rel [simp]: "index_rel d v \<Longrightarrow> get_blob d e b = Ok (iv_blob v e b)"
  by (cases "iv_blob v e b") (simp_all add: index_rel_def get_blob_def)

lemma collect_results_map_Ok:
  "(\<And>x. x \<in> set xs \<Longrightarrow> f x = Inr (g x)) \<Longrightarrow> collect_results (map f xs) = Inr (map g xs)"
  by (induction xs) auto

lemma value_at_blob_prefix:
  assumes "value_at v k = Some x" "prefix (blob_key_prefix e) k"
  shows "\<exists>b i. k = blob_key e b \<and> iv_blob v e b = Some i \<and> x = blob_index_encode i"
proof -
  from assms(2) obtain r where k: "k = 0x62 # extent_as_bytes e @ r"
    by (auto simp: prefix_def blob_key_prefix_def)
  with assms(1) have len: "length r = 8"
    by (auto simp: value_at_def split: if_splits)
  define b where "b = BlobId (from_be_bytes r)"
  have "k = blob_key e b"
    using k len by (simp add: blob_key_def b_def blob_to_be_bytes_def to_from_be_bytes)
  then show ?thesis using assms(1) by auto
qed

lemma value_at_extent_prefix:
  assumes "value_at v k = Some x" "prefix [0x65] k"
  shows "\<exists>e m. k = extent_key e \<and> iv_meta v e = Some m \<and> x = extent_meta_encode m"
proof -
  from assms(2) obtain r where k: "k = 0x65 # r" by (auto simp: prefix_def)
  with assms(1) have len: "length r = 16" by (auto simp: value_at_def split: if_splits)
  have "k = extent_key (extent_from_bytes r)"
    using k len by (simp add: extent_key_def extent_as_from_bytes)
  then show ?thesis using assms(1) by auto
qed

lemma list_blobs_item_key [simp]: "list_blobs_item (blob_key e b, blob_index_encode i) = Ok (b, i)"
proof -
  have "get_range (blob_key e b) BLOB_KEY_PREFIX_LEN BLOB_KEY_LEN = Some (blob_to_be_bytes b)"
    by (simp add: get_range_def blob_key_def BLOB_KEY_PREFIX_LEN_def BLOB_KEY_LEN_def)
  then show ?thesis by (cases b) (simp add: list_blobs_item_def blob_to_be_bytes_def)
qed

lemma list_extents_item_key [simp]: "list_extents_item (extent_key e, extent_meta_encode m) = Ok (e, m)"
proof -
  have "get_range (extent_key e) 1 EXTENT_KEY_LEN = Some (extent_as_bytes e)"
    by (simp add: get_range_def extent_key_def EXTENT_KEY_LEN_def)
  then show ?thesis by (simp add: list_extents_item_def)
qed

lemma blob_key_mono: "blob_key e a \<le> blob_key e b \<longleftrightarrow> a \<le> b"
proof -
  have "blob_key e b < blob_key e a \<longleftrightarrow> b < a"
    by (simp add: blob_key_def blob_id_order_bytes append_less_iff)
  then show ?thesis by (simp flip: not_less)
qed

lemma extent_key_mono: "extent_key a \<le> extent_key b \<longleftrightarrow> a \<le> b"
  by (simp add: extent_key_def extent_id_order_bytes flip: not_less)

lemma list_blobs_rel:
  assumes rel: "index_rel d v"
  shows "\<exists>xs. list_blobs d e = Ok xs \<and> (\<forall>b i. (b, i) \<in> set xs \<longleftrightarrow> iv_blob v e b = Some i)
           \<and> sorted (map fst xs) \<and> distinct (map fst xs)"
proof -
  let ?scan = "kv_prefix_scan (blob_key_prefix e) d"
  define xs where "xs = map (\<lambda>p. projr (list_blobs_item p)) ?scan"
  have item: "\<exists>b i. p = (blob_key e b, blob_index_encode i) \<and> iv_blob v e b = Some i"
    if "p \<in> set ?scan" for p
    using that value_at_blob_prefix [of v "fst p" "snd p" e] rel
      set_kv_prefix_scan [of "fst p" "snd p" "blob_key_prefix e" d]
    by (auto simp: index_rel_def prod_eq_iff)
  have ok: "list_blobs d e = Ok xs"
    unfolding list_blobs_def xs_def by (rule collect_results_map_Ok) (use item in force)
  have scan: "?scan = map (\<lambda>(b, i). (blob_key e b, blob_index_encode i)) xs"
    unfolding xs_def map_map by (rule map_idI [symmetric]) (use item in force)
  have mem: "(b, i) \<in> set xs \<longleftrightarrow> iv_blob v e b = Some i" for b i
  proof -
    have "(b, i) \<in> set xs \<longleftrightarrow> (blob_key e b, blob_index_encode i) \<in> set ?scan"
      unfolding scan by (auto simp: blob_index.enc_inject)
    also have "\<dots> \<longleftrightarrow> iv_blob v e b = Some i"
      using rel by (auto simp: set_kv_prefix_scan index_rel_def blob_index.enc_inject)
    finally show ?thesis .
  qed
  have keys: "map fst ?scan = map (blob_key e) (map fst xs)"
    unfolding scan by (simp add: comp_def split_beta)
  have "sorted (map fst xs)" "distinct (map fst xs)"
    using sorted_kv_prefix_scan [of "blob_key_prefix e" d] distinct_kv_prefix_scan [of "blob_key_prefix e" d]
    unfolding keys by (auto simp: sorted_map blob_key_mono distinct_map dest: inj_on_imageI2)
  then show ?thesis using ok mem by blast
qed

lemma list_extents_rel:
  assumes rel: "index_rel d v"
  shows "\<exists>xs. list_extents d = Ok xs \<and> (\<forall>e m. (e, m) \<in> set xs \<longleftrightarrow> iv_meta v e = Some m)
           \<and> sorted (map fst xs) \<and> distinct (map fst xs)"
proof -
  let ?scan = "kv_prefix_scan [0x65] d"
  define xs where "xs = map (\<lambda>p. projr (list_extents_item p)) ?scan"
  have item: "\<exists>e m. p = (extent_key e, extent_meta_encode m) \<and> iv_meta v e = Some m"
    if "p \<in> set ?scan" for p
    using that value_at_extent_prefix [of v "fst p" "snd p"] rel
      set_kv_prefix_scan [of "fst p" "snd p" "[0x65]" d]
    by (auto simp: index_rel_def prod_eq_iff)
  have ok: "list_extents d = Ok xs"
    unfolding list_extents_def xs_def by (rule collect_results_map_Ok) (use item in force)
  have scan: "?scan = map (\<lambda>(e, m). (extent_key e, extent_meta_encode m)) xs"
    unfolding xs_def map_map by (rule map_idI [symmetric]) (use item in force)
  have mem: "(e, m) \<in> set xs \<longleftrightarrow> iv_meta v e = Some m" for e m
  proof -
    have "(e, m) \<in> set xs \<longleftrightarrow> (extent_key e, extent_meta_encode m) \<in> set ?scan"
      unfolding scan by (auto simp: extent_meta.enc_inject)
    also have "\<dots> \<longleftrightarrow> iv_meta v e = Some m"
      using rel by (auto simp: set_kv_prefix_scan index_rel_def extent_meta.enc_inject)
        (simp add: extent_key_def)
    finally show ?thesis .
  qed
  have keys: "map fst ?scan = map extent_key (map fst xs)"
    unfolding scan by (simp add: comp_def split_beta)
  have "sorted (map fst xs)" "distinct (map fst xs)"
    using sorted_kv_prefix_scan [of "[0x65]" d] distinct_kv_prefix_scan [of "[0x65]" d]
    unfolding keys by (auto simp: sorted_map extent_key_mono distinct_map dest: inj_on_imageI2)
  then show ?thesis using ok mem by blast
qed

section \<open>Updates refine updates of the view\<close>

definition view_put_blobs :: "extent_id \<Rightarrow> (blob_id \<times> blob_index) list \<Rightarrow> index_view \<Rightarrow> index_view" where
  "view_put_blobs e blobs v =
     v\<lparr>iv_blob := (iv_blob v)(e := fold (\<lambda>(b, i) m. m(b \<mapsto> i)) blobs (iv_blob v e))\<rparr>"

definition view_merge :: "extent_id \<Rightarrow> meta_merge_op \<Rightarrow> index_view \<Rightarrow> index_view" where
  "view_merge e op v = v\<lparr>iv_meta := (iv_meta v)(e := map_option (merge_op_apply op) (iv_meta v e))\<rparr>"

definition view_put_meta :: "extent_id \<Rightarrow> extent_meta \<Rightarrow> index_view \<Rightarrow> index_view" where
  "view_put_meta e m v = v\<lparr>iv_meta := (iv_meta v)(e \<mapsto> m)\<rparr>"

definition view_bind :: "shard_id \<Rightarrow> extent_id \<Rightarrow> index_view \<Rightarrow> index_view" where
  "view_bind s e v = v\<lparr>iv_bind := (iv_bind v)(shard_prefix s \<mapsto> e)\<rparr>"

definition view_remove :: "extent_id \<Rightarrow> index_view \<Rightarrow> index_view" where
  "view_remove e v = v\<lparr>iv_meta := (iv_meta v)(e := None), iv_blob := (iv_blob v)(e := (\<lambda>_. None))\<rparr>"

lemmas view_defs = view_put_blobs_def view_merge_def view_put_meta_def view_bind_def view_remove_def

lemma rel_put_meta: "index_rel d v \<Longrightarrow> index_rel (fmupd (extent_key e) (extent_meta_encode m) d) (view_put_meta e m v)"
  by (simp add: index_rel_def view_put_meta_def value_at_put_meta)

lemma rel_bind: "index_rel d v \<Longrightarrow> index_rel (fmupd (shard_key s) (extent_as_bytes e) d) (view_bind s e v)"
  by (simp add: index_rel_def view_bind_def value_at_put_bind)

lemma rel_put_blob:
  "index_rel d v \<Longrightarrow> index_rel (fmupd (blob_key e b) (blob_index_encode i) d) (view_put_blobs e [(b, i)] v)"
  by (simp add: index_rel_def view_put_blobs_def value_at_put_blob)

lemma view_put_blobs_Cons: "view_put_blobs e (p # ps) v = view_put_blobs e ps (view_put_blobs e [p] v)"
  by (simp add: view_put_blobs_def)

lemma view_put_blobs_Nil [simp]: "view_put_blobs e [] v = v"
  by (simp add: view_put_blobs_def)

lemma rel_blob_puts: "index_rel d v \<Longrightarrow> index_rel (fold apply_batch_op (blob_puts e blobs) d) (view_put_blobs e blobs v)"
proof (induction blobs arbitrary: d v)
  case (Cons p ps)
  obtain b i where p: "p = (b, i)" by (cases p)
  show ?case unfolding view_put_blobs_Cons [of e p ps]
    using Cons.IH [OF rel_put_blob [OF Cons.prems, of e b i]] by (simp add: p blob_puts_def)
qed (simp add: blob_puts_def)

lemma rel_merge:
  assumes "index_rel d v" "iv_meta v e = Some m"
  shows "index_rel (apply_batch_op (BatchMerge (extent_key e) (merge_op_encode op)) d) (view_merge e op v)"
  using assms rel_put_meta [OF assms(1), of e "merge_op_apply op m"]
  by (simp add: index_rel_def merge_meta_encoded view_merge_def view_put_meta_def)

lemma view_put_blobs_meta [simp]: "iv_meta (view_put_blobs e blobs v) = iv_meta v"
  "iv_bind (view_put_blobs e blobs v) = iv_bind v"
  by (simp_all add: view_put_blobs_def)

lemma commit_blobs_rel:
  assumes "index_rel d v" "iv_meta v e = Some m"
  shows "index_rel (commit_blobs e blobs sz d) (view_merge e (SetSize sz) (view_put_blobs e blobs v))"
  unfolding commit_blobs_def write_synced_def fold_append comp_def fold.simps id_apply
  using assms by (intro rel_merge rel_blob_puts) simp_all

lemma install_extent_rel:
  assumes "index_rel d v"
  shows "index_rel (install_extent e m blobs d)
           (view_put_blobs e blobs (view_bind (em_shard_id m) e (view_put_meta e m v)))"
  unfolding install_extent_def write_synced_def fold_append comp_def fold.simps id_apply apply_batch_op.simps
  using assms by (intro rel_blob_puts rel_bind rel_put_meta)

lemma status_merge_rel:
  assumes "index_rel d v"
  shows "set_extent_status e s d
           = (if iv_meta v e = None then Err (IndexCorrupt ''extent_meta'' 0 ''missing metadata for status transition'')
              else Ok (apply_batch_op (BatchMerge (extent_key e) (merge_op_encode (SetStatus s))) d))"
    and "index_seal_extent e d
           = (if iv_meta v e = None then Err (IndexCorrupt ''extent_meta'' 0 ''missing metadata for seal'')
              else Ok (apply_batch_op (BatchMerge (extent_key e) (merge_op_encode (SetStatus Sealed))) d))"
  using assms
  by (auto simp: set_extent_status_def index_seal_extent_def write_synced_def simp del: apply_batch_op.simps)

text \<open>Tombstoning: the entry gains the flag and the metadata the record's bytes, once.\<close>

definition view_tombstone :: "extent_id \<Rightarrow> blob_id \<Rightarrow> index_view \<Rightarrow> index_view" where
  "view_tombstone e b v =
     (case iv_blob v e b of
        None \<Rightarrow> v
      | Some i \<Rightarrow>
          if is_tombstoned i then v
          else view_merge e (AddDeletedBytes (of_nat (record_on_disk_len (bi_size i))))
                 (view_put_blobs e [(b, set_tombstone i)] v))"

definition live_in :: "index_view \<Rightarrow> extent_id \<Rightarrow> blob_id \<Rightarrow> bool" where
  "live_in v e b \<longleftrightarrow> (case iv_blob v e b of None \<Rightarrow> False | Some i \<Rightarrow> \<not> is_tombstoned i)"

lemma tombstone_blob_rel:
  assumes "index_rel d v" "live_in v e b \<Longrightarrow> iv_meta v e \<noteq> None"
  shows "\<exists>d'. tombstone_blob e b d = Ok (live_in v e b, d') \<and> index_rel d' (view_tombstone e b v)"
proof (cases "iv_blob v e b")
  case (Some i)
  show ?thesis
  proof (cases "is_tombstoned i")
    case False
    let ?op = "AddDeletedBytes (of_nat (record_on_disk_len (bi_size i)))"
    obtain m where m: "iv_meta v e = Some m" using assms(2) Some False by (auto simp: live_in_def)
    have "index_rel (apply_batch_op (BatchMerge (extent_key e) (merge_op_encode ?op))
             (fmupd (blob_key e b) (blob_index_encode (set_tombstone i)) d)) (view_tombstone e b v)"
      unfolding view_tombstone_def Some option.case if_not_P [OF False]
      using assms(1) m by (intro rel_merge rel_put_blob) simp_all
    then show ?thesis
      using assms(1) Some False
      by (simp add: tombstone_blob_def live_in_def write_synced_def del: merge_op_encode.simps
               apply_batch_op.simps(3))
  qed (use assms(1) Some in \<open>simp add: tombstone_blob_def live_in_def view_tombstone_def\<close>)
qed (use assms(1) in \<open>simp add: tombstone_blob_def live_in_def view_tombstone_def\<close>)

text \<open>Removing an extent drops its metadata and exactly its own blob entries.\<close>

lemma fold_deletes:
  "fmlookup (fold apply_batch_op (map (\<lambda>(k, _). BatchDelete k) xs) d) k
     = (if k \<in> fst ` set xs then None else fmlookup d k)"
  by (induction xs arbitrary: d) auto

lemma value_at_remove:
  "value_at (view_remove e v) k
     = (if k = extent_key e \<or> prefix (blob_key_prefix e) k then None else value_at v k)"
proof (cases "value_at v k")
  case None
  have "value_at (view_remove e v) k = None"
  proof (cases k)
    case (Cons t r)
    then show ?thesis using None by (auto simp: value_at_def view_remove_def split: if_splits)
  qed (simp add: value_at_def)
  then show ?thesis using None by simp
next
  case (Some x)
  consider e' m where "k = extent_key e'" "iv_meta v e' = Some m"
    | p f where "k = 0x73 # p" "length p = 8" "iv_bind v (from_be_bytes p) = Some f"
    | e' b i where "k = blob_key e' b" "iv_blob v e' b = Some i"
  proof -
    obtain t r where k: "k = t # r" using Some by (cases k) (auto simp: value_at_def)
    then consider "t = 0x65" | "t = 0x73" "length r = 8" | "t = 0x62" "length r = 24"
      using Some by (auto simp: value_at_def split: if_splits)
    then show thesis
    proof cases
      case 1
      then show thesis using value_at_extent_prefix [OF Some] that(1) k by auto
    next
      case 2
      then show thesis using Some that(2) k by (auto simp: value_at_def)
    next
      case 3
      have "prefix (blob_key_prefix (extent_from_bytes (take 16 r))) k"
        using 3 k take_is_prefix [of 16 r] by (simp add: blob_key_prefix_def extent_as_from_bytes)
      then show thesis using value_at_blob_prefix [OF Some] that(3) by blast
    qed
  qed
  then show ?thesis
  proof cases
    case 1
    then show ?thesis by (simp add: view_remove_def)
  next
    case 2
    then show ?thesis by (simp add: value_at_def view_remove_def blob_key_prefix_def extent_key_def)
  next
    case 3
    then show ?thesis by (auto simp: view_remove_def)
  qed
qed

lemma remove_extent_rel: "index_rel d v \<Longrightarrow> index_rel (remove_extent e d) (view_remove e v)"
proof -
  assume rel: "index_rel d v"
  have mem: "k \<in> fst ` set (kv_prefix_scan (blob_key_prefix e) d)
               \<longleftrightarrow> prefix (blob_key_prefix e) k \<and> fmlookup d k \<noteq> None" for k
  proof -
    have "k \<in> fst ` set (kv_prefix_scan (blob_key_prefix e) d)
            \<longleftrightarrow> (\<exists>x. (k, x) \<in> set (kv_prefix_scan (blob_key_prefix e) d))" by force
    then show ?thesis by (simp add: set_kv_prefix_scan)
  qed
  show ?thesis
    unfolding index_rel_def value_at_remove remove_extent_def write_synced_def fold.simps comp_def
    using rel by (simp add: fold_deletes mem index_rel_def)
qed

text \<open>Swapping a binding: the tombstones of the carried blobs that have a live entry.\<close>

definition carried_live :: "index_view \<Rightarrow> extent_id \<Rightarrow> blob_id list \<Rightarrow> (blob_id \<times> blob_index) list" where
  "carried_live v e bs = map (\<lambda>b. (b, set_tombstone (the (iv_blob v e b)))) (filter (live_in v e) bs)"

definition carried_size :: "index_view \<Rightarrow> extent_id \<Rightarrow> blob_id list \<Rightarrow> u64" where
  "carried_size v e bs = (\<Sum>(b, i) \<leftarrow> carried_live v e bs. of_nat (record_on_disk_len (bi_size i)))"

definition view_swap :: "shard_id \<Rightarrow> extent_id \<Rightarrow> extent_id \<Rightarrow> blob_id list \<Rightarrow> index_view \<Rightarrow> index_view" where
  "view_swap s new old carried v =
     (let v1 = view_put_blobs new (carried_live v new carried)
                 (view_merge old (SetStatus Dropped) (view_bind s new v))
      in if 0 < carried_size v new carried then view_merge new (AddDeletedBytes (carried_size v new carried)) v1
         else v1)"

lemma set_tombstone_simps [simp]:
  "bi_size (set_tombstone i) = bi_size i" "bi_offset (set_tombstone i) = bi_offset i"
  "bi_crc (set_tombstone i) = bi_crc i" "is_tombstoned (set_tombstone i)"
  by (simp_all add: set_tombstone_def is_tombstoned_def FLAG_TOMBSTONE_def)

lemma carry_tombstones_rel:
  assumes "index_rel d v"
  shows "carry_tombstones d e bs batch n = Ok (batch @ blob_puts e (carried_live v e bs), n + carried_size v e bs)"
proof (induction bs arbitrary: batch n)
  case (Cons b bs)
  show ?case
  proof (cases "live_in v e b")
    case True
    then obtain i where "iv_blob v e b = Some i" "\<not> is_tombstoned i"
      by (auto simp: live_in_def split: option.splits)
    then show ?thesis
      using assms True by (simp add: Cons.IH carried_live_def carried_size_def blob_puts_def add.assoc)
  next
    case False
    then show ?thesis
      using assms by (auto simp: Cons.IH carried_live_def carried_size_def live_in_def split: option.splits)
  qed
qed (simp add: carried_live_def carried_size_def blob_puts_def)

lemma swap_shard_binding_with_rel:
  assumes "index_rel d v" "iv_meta v old \<noteq> None" "iv_meta v new \<noteq> None"
  shows "\<exists>d'. swap_shard_binding_with s new old carried d = Ok d' \<and> index_rel d' (view_swap s new old carried v)"
proof -
  obtain mo mn where m: "iv_meta v old = Some mo" "iv_meta v new = Some mn" using assms(2,3) by blast
  let ?d1 = "apply_batch_op (BatchMerge (extent_key old) (merge_op_encode (SetStatus Dropped)))
               (fmupd (shard_key s) (extent_as_bytes new) d)"
  let ?v1 = "view_merge old (SetStatus Dropped) (view_bind s new v)"
  let ?d2 = "fold apply_batch_op (blob_puts new (carried_live v new carried)) ?d1"
  let ?v2 = "view_put_blobs new (carried_live v new carried) ?v1"
  let ?op = "AddDeletedBytes (carried_size v new carried)"
  have "iv_meta (view_bind s new v) old = Some mo" by (simp add: view_bind_def m)
  then have "index_rel ?d1 ?v1" by (intro rel_merge rel_bind assms(1))
  then have rel2: "index_rel ?d2 ?v2" by (rule rel_blob_puts)
  have "\<exists>m'. iv_meta ?v2 new = Some m'" by (simp add: view_merge_def view_bind_def m)
  then have rel3: "index_rel (apply_batch_op (BatchMerge (extent_key new) (merge_op_encode ?op)) ?d2) (view_merge new ?op ?v2)"
    using rel_merge [OF rel2] by blast
  show ?thesis
    unfolding swap_shard_binding_with_def Let_def carry_tombstones_rel [OF assms(1)] view_swap_def write_synced_def
    using rel2 rel3 by (simp del: apply_batch_op.simps(3) merge_op_encode.simps)
qed

section \<open>Merge operands: grouping and order\<close>

fun same_field :: "meta_merge_op \<Rightarrow> meta_merge_op \<Rightarrow> bool" where
  "same_field (SetSize _) (SetSize _) \<longleftrightarrow> True"
| "same_field (AddDeletedBytes _) (AddDeletedBytes _) \<longleftrightarrow> True"
| "same_field (SetStatus _) (SetStatus _) \<longleftrightarrow> True"
| "same_field _ _ \<longleftrightarrow> False"

lemma merge_op_apply_commute:
  "\<not> same_field a b \<Longrightarrow> merge_op_apply a (merge_op_apply b m) = merge_op_apply b (merge_op_apply a m)"
  by (cases a; cases b) simp_all

lemma fold_merge_op_commute:
  "\<forall>x \<in> set xs. \<not> same_field x y \<Longrightarrow>
     fold merge_op_apply xs (merge_op_apply y m) = merge_op_apply y (fold merge_op_apply xs m)"
proof (induction xs arbitrary: m)
  case (Cons x xs)
  then show ?case using merge_op_apply_commute [of x y m] by simp
qed simp

lemma fold_shuffle:
  "zs \<in> shuffles xs ys \<Longrightarrow> \<forall>x \<in> set xs. \<forall>y \<in> set ys. \<not> same_field x y \<Longrightarrow>
     fold merge_op_apply zs m = fold merge_op_apply ys (fold merge_op_apply xs m)"
proof (induction xs ys arbitrary: zs m rule: shuffles.induct)
  case (3 x xs y ys)
  from "3.prems"(1) consider zs' where "zs = x # zs'" "zs' \<in> shuffles xs (y # ys)"
    | zs' where "zs = y # zs'" "zs' \<in> shuffles (x # xs) ys"
    by auto
  then show ?case
  proof cases
    case 1
    then show ?thesis using "3.IH"(1) [of zs' "merge_op_apply x m"] "3.prems"(2) by simp
  next
    case 2
    have "fold merge_op_apply (x # xs) (merge_op_apply y m) = merge_op_apply y (fold merge_op_apply (x # xs) m)"
      using "3.prems"(2) by (intro fold_merge_op_commute) auto
    then show ?thesis using 2 "3.IH"(2) [of zs' "merge_op_apply y m"] "3.prems"(2) by simp
  qed
qed simp_all

lemma fold_raw_operands: "fold apply_raw_operand (map merge_op_encode ops) m = fold merge_op_apply ops m"
  by (induction ops arbitrary: m) simp_all


definition sample_meta :: extent_meta where
  "sample_meta = \<lparr>em_shard_id = ShardId 7, em_status = Writable, em_size = 4096, em_deleted_bytes = 0, em_create_ts = 5\<rparr>"


text \<open>A stack of four pending operands is longer than a metadata value and is taken for one: the next
  merge fabricates an \<open>ExtentMeta\<close> although no value was ever put.\<close>

theorem pending_stack_taken_for_meta:
  "\<exists>m. merge_meta k (Some (concat (map merge_op_encode
            [SetSize 4096, SetSize 8192, AddDeletedBytes 4096, SetSize 12288])))
          [merge_op_encode (SetStatus Sealed)] = Some (extent_meta_encode m)"
  by (simp add: merge_meta_def extent_meta_decode_value_def to_le_bytes_def first_chunk_def EXTENT_META_LEN_def
      TAG_SET_SIZE_def TAG_ADD_DELETED_def status_from_u8_def upt_rec)
    (rule exI, rule refl)

text \<open>Swapping a binding away from an extent without metadata succeeds and leaves a value under its
  key that no longer decodes.\<close>

theorem swap_without_metadata:
  assumes "fmlookup d (extent_key old) = None"
  shows "\<exists>d'. swap_shard_binding s new old d = Ok d'
            \<and> get_extent_meta d' old = Err (IndexCorrupt ''extent_meta'' 9 ''short extent meta'')"
  using assms
  by (simp add: swap_shard_binding_def swap_shard_binding_with_def write_synced_def merge_meta_def
      get_extent_meta_def extent_meta_decode_value_def first_chunk_def EXTENT_META_LEN_def)

section \<open>Properties of the index\<close>

text \<open>deletes are idempotent and accounted once. On an index with view \<open>v\<close>, tombstoning a blob
  reports whether it was live; the new view is the old one with the flag set and the record's on-disk
  length added (saturating) to the extent's deleted bytes; tombstoning it again reports \<open>false\<close> and
  changes nothing at all.\<close>

theorem tombstone_once:
  assumes "index_rel d v" and "live_in v e b \<Longrightarrow> iv_meta v e \<noteq> None"
  shows "\<exists>d'. tombstone_blob e b d = Ok (live_in v e b, d') \<and> index_rel d' (view_tombstone e b v)
            \<and> \<not> live_in (view_tombstone e b v) e b \<and> tombstone_blob e b d' = Ok (False, d')"
proof -
  obtain d' where d': "tombstone_blob e b d = Ok (live_in v e b, d')" "index_rel d' (view_tombstone e b v)"
    using tombstone_blob_rel [OF assms] by blast
  have dead: "\<not> live_in (view_tombstone e b v) e b"
    by (cases "iv_blob v e b") (auto simp: live_in_def view_tombstone_def view_merge_def view_put_blobs_def)
  have "tombstone_blob e b d' = Ok (False, d')"
    using dead get_blob_rel [OF d'(2), of e b]
    by (auto simp: tombstone_blob_def live_in_def split: option.splits)
  then show ?thesis using d' dead by blast
qed

definition sample_index :: db where
  "sample_index = install_extent (ExtentId 9) sample_meta [(BlobId 3, blob_index_new 4096 100 0)] fmempty"

definition empty_view :: index_view where
  "empty_view = \<lparr>iv_meta = Map.empty, iv_bind = Map.empty, iv_blob = (\<lambda>_. Map.empty)\<rparr>"

lemma index_rel_empty: "index_rel fmempty empty_view"
  by (auto simp: index_rel_def value_at_def empty_view_def split: list.splits)

definition sample_view :: index_view where
  "sample_view = view_put_blobs (ExtentId 9) [(BlobId 3, blob_index_new 4096 100 0)]
     (view_bind (ShardId 7) (ExtentId 9) (view_put_meta (ExtentId 9) sample_meta empty_view))"

lemma sample_index_rel: "index_rel sample_index sample_view"
  using install_extent_rel [OF index_rel_empty, of "ExtentId 9" sample_meta "[(BlobId 3, blob_index_new 4096 100 0)]"]
  by (simp add: sample_index_def sample_view_def sample_meta_def)

lemma sample_view_simps [simp]:
  "iv_meta sample_view (ExtentId 9) = Some sample_meta"
  "iv_blob sample_view (ExtentId 9) (BlobId 3) = Some (blob_index_new 4096 100 0)"
  "live_in sample_view (ExtentId 9) (BlobId 3)"
  by (simp_all add: sample_view_def view_defs empty_view_def live_in_def is_tombstoned_def blob_index_new_def)

theorem tombstone_once_witness:
  "\<exists>d'. tombstone_blob (ExtentId 9) (BlobId 3) sample_index = Ok (True, d')
      \<and> tombstone_blob (ExtentId 9) (BlobId 3) d' = Ok (False, d')"
  using tombstone_once [OF sample_index_rel, of "ExtentId 9" "BlobId 3"] by auto



end
