(* ===== verification/Store_Write.thy ===== *)
theory Store_Write
  imports Store_Extent Store_Index "HOL-Library.Multiset"
begin

text \<open>
  The write and read paths of one extent in \<open>crates/epoch-store/src\<close>: the error classification
  (\<open>error.rs\<close>), the single-blob write (\<open>write.rs\<close>), the group-committing writer thread (\<open>writer.rs\<close>)
  and the read (\<open>read.rs\<close>). The state is the index database and the extent file. What the device
  does is the argument \<open>io_faults\<close>: an append may fail after part of its bytes were written, and an
  \<open>fsync\<close> may fail.
\<close>

section \<open>Errors\<close>

datatype disk_error =
    D_Io io_kind
  | D_Unregistered
  | D_SuperblockUnreadable superblock_error
  | D_ClusterMismatch u128 u128

datatype store_error =
    SE_Index index_error
  | SE_Extent extent_error
  | SE_Disk disk_error
  | SE_ExtentNotFound extent_id
  | SE_ShardUnbound shard_id
  | SE_Sealed
  | SE_Full
  | SE_NotWritable extent_status
  | SE_BodyTooLarge nat
  | SE_BlobMismatch blob_id blob_id

fun is_out_of_space :: "io_kind \<Rightarrow> bool" where
  "is_out_of_space IoStorageFull \<longleftrightarrow> True"
| "is_out_of_space (IoRawOs code) \<longleftrightarrow> code = 28 \<or> code = 69 \<or> code = 122"
| "is_out_of_space _ \<longleftrightarrow> False"

fun classify :: "store_error \<Rightarrow> epoch_error" where
  "classify SE_Sealed = E_Sealed"
| "classify SE_Full = E_ChunkFull"
| "classify (SE_NotWritable status) =
     (case status of
        Rebuilding \<Rightarrow> E_Rebuilding
      | Dropped \<Rightarrow> E_ShardNotFound
      | _ \<Rightarrow> E_Sealed)"
| "classify (SE_ExtentNotFound _) = E_ShardNotFound"
| "classify (SE_ShardUnbound _) = E_ShardNotFound"
| "classify (SE_Disk err) =
     (case err of
        D_Io k \<Rightarrow> if is_out_of_space k then E_OutOfSpace else E_DiskBroken
      | _ \<Rightarrow> E_DiskBroken)"
| "classify (SE_Extent err) =
     (case err of
        X_Io k \<Rightarrow> if is_out_of_space k then E_OutOfSpace else E_DiskBroken
      | _ \<Rightarrow> E_Internal)"
| "classify (SE_Index _) = E_Internal"
| "classify (SE_BodyTooLarge _) = E_Internal"
| "classify (SE_BlobMismatch _ _) = E_Internal"

definition to_epoch :: "store_error \<Rightarrow> epoch_error" where
  "to_epoch err = classify err"

section \<open>Writing one blob\<close>

datatype write_outcome = Written | AlreadyExists

record io_faults =
  append_fault :: "blob_id \<Rightarrow> (io_kind \<times> bytes) option"
  sync_fault :: "io_kind option"

definition no_faults :: io_faults where
  "no_faults = \<lparr>append_fault = (\<lambda>_. None), sync_fault = None\<rparr>"

text \<open>\<open>append_record\<close> on a device that may stop in the middle: the cursor moves on success only.\<close>

definition append_on ::
    "checksum \<Rightarrow> io_faults \<Rightarrow> blob_id \<Rightarrow> shard_id \<Rightarrow> bytes \<Rightarrow> extent_file
       \<Rightarrow> (extent_error, nat \<times> u32) result \<times> extent_file" where
  "append_on crc fl blob shard body ef =
     (case append_fault fl blob of
        Some (k, part) \<Rightarrow> (Err (X_Io k), ef\<lparr>ef_file := write_all_at part (ef_write_offset ef) (ef_file ef)\<rparr>)
      | None \<Rightarrow>
          (case append_record crc blob shard body ef of
             Ok (r, ef') \<Rightarrow> (Ok r, ef')
           | Err e \<Rightarrow> (Err e, ef)))"

definition extent_sync :: "io_faults \<Rightarrow> (extent_error, unit) result" where
  "extent_sync fl = (case sync_fault fl of None \<Rightarrow> Ok () | Some k \<Rightarrow> Err (X_Io k))"

definition writable_gate :: "extent_status \<Rightarrow> (store_error, unit) result" where
  "writable_gate status =
     (case status of
        Writable \<Rightarrow> Ok ()
      | Rebuilding \<Rightarrow> Ok ()
      | Sealed \<Rightarrow> Err SE_Sealed
      | Full \<Rightarrow> Err SE_Full
      | Dropped \<Rightarrow> Err (SE_NotWritable Dropped))"

definition load_writable_meta :: "db \<Rightarrow> extent_id \<Rightarrow> (store_error, unit) result" where
  "load_writable_meta d e =
     and_then (map_err SE_Index (get_extent_meta d e)) (\<lambda>found.
     and_then (ok_or (SE_ExtentNotFound e) found) (\<lambda>m.
     writable_gate (em_status m)))"

definition write_blob ::
    "checksum \<Rightarrow> io_faults \<Rightarrow> blob_id \<Rightarrow> bytes \<Rightarrow> db \<Rightarrow> extent_file
       \<Rightarrow> (store_error, write_outcome) result \<times> db \<times> extent_file" where
  "write_blob crc fl blob body d ef =
     (let e = ef_extent_id ef in
      case load_writable_meta d e of
        Err err \<Rightarrow> (Err err, d, ef)
      | Ok _ \<Rightarrow>
          (case map_err SE_Index (get_blob d e blob) of
             Err err \<Rightarrow> (Err err, d, ef)
           | Ok (Some _) \<Rightarrow> (Ok AlreadyExists, d, ef)
           | Ok None \<Rightarrow>
               if length body < 2 ^ 32 then
                 (case append_on crc fl blob (extent_shard_id e) body ef of
                    (Err err, ef') \<Rightarrow> (Err (SE_Extent err), d, ef')
                  | (Ok (offset, c), ef') \<Rightarrow>
                      (case extent_sync fl of
                         Err err \<Rightarrow> (Err (SE_Extent err), d, ef')
                       | Ok _ \<Rightarrow>
                           (Ok Written,
                            commit_blob e blob (blob_index_new (of_nat offset) (of_nat (length body)) c)
                              (of_nat (ef_write_offset ef')) d, ef')))
               else (Err (SE_BodyTooLarge (length body)), d, ef)))"

section \<open>The writer thread\<close>

definition MAX_BATCH_RECORDS :: nat where "MAX_BATCH_RECORDS = 64"
definition MAX_BATCH_BYTES :: nat where "MAX_BATCH_BYTES = 4 * 1024 * 1024"

text \<open>A queued request; its reply channel is a number.\<close>

record write_request =
  wq_blob :: blob_id
  wq_body :: bytes
  wq_reply :: nat

type_synonym write_reply = "nat \<times> (epoch_error, write_outcome) result"

text \<open>The batch the writer collects from the requests that are ready, and the rest of the queue.\<close>

fun fill_batch :: "write_request list \<Rightarrow> nat \<Rightarrow> write_request list \<Rightarrow> write_request list \<times> write_request list" where
  "fill_batch batch batch_bytes [] = (batch, [])"
| "fill_batch batch batch_bytes (req # rx) =
     (if length batch < MAX_BATCH_RECORDS \<and> batch_bytes < MAX_BATCH_BYTES
      then fill_batch (batch @ [req]) (batch_bytes + length (wq_body req)) rx
      else (batch, req # rx))"

fun take_batch :: "write_request list \<Rightarrow> write_request list \<times> write_request list" where
  "take_batch [] = ([], [])"
| "take_batch (first # rx) = fill_batch [first] (length (wq_body first)) rx"

record batch_state =
  bs_extent :: extent_file
  bs_appended :: "(blob_id \<times> blob_index) list"
  bs_appended_replies :: "nat list"
  bs_seen :: "blob_id list"
  bs_fatal :: "epoch_error option"
  bs_replies :: "write_reply list"

definition batch_reply :: "write_request \<Rightarrow> (epoch_error, write_outcome) result \<Rightarrow> batch_state \<Rightarrow> batch_state" where
  "batch_reply req r s = s\<lparr>bs_replies := bs_replies s @ [(wq_reply req, r)]\<rparr>"

definition batch_request :: "checksum \<Rightarrow> io_faults \<Rightarrow> db \<Rightarrow> write_request \<Rightarrow> batch_state \<Rightarrow> batch_state" where
  "batch_request crc fl d req s =
     (let e = ef_extent_id (bs_extent s) in
      case bs_fatal s of
        Some err \<Rightarrow> batch_reply req (Err err) s
      | None \<Rightarrow>
          (case get_blob d e (wq_blob req) of
             Ok (Some _) \<Rightarrow> batch_reply req (Ok AlreadyExists) s
           | Err err \<Rightarrow> batch_reply req (Err (to_epoch (SE_Index err))) s
           | Ok None \<Rightarrow>
               if wq_blob req \<in> set (bs_seen s) then batch_reply req (Ok AlreadyExists) s
               else
                 let s1 = s\<lparr>bs_seen := wq_blob req # bs_seen s\<rparr> in
                 if length (wq_body req) < 2 ^ 32 then
                   (case append_on crc fl (wq_blob req) (extent_shard_id e) (wq_body req) (bs_extent s1) of
                      (Ok (offset, c), ef') \<Rightarrow>
                        s1\<lparr>bs_extent := ef',
                           bs_appended := bs_appended s1 @
                             [(wq_blob req, blob_index_new (of_nat offset) (of_nat (length (wq_body req))) c)],
                           bs_appended_replies := bs_appended_replies s1 @ [wq_reply req]\<rparr>
                    | (Err err, ef') \<Rightarrow>
                        batch_reply req (Err (to_epoch (SE_Extent err)))
                          (s1\<lparr>bs_extent := ef', bs_fatal := Some (to_epoch (SE_Extent err))\<rparr>))
                 else batch_reply req (Err (to_epoch (SE_BodyTooLarge (length (wq_body req))))) s1))"

definition commit_group ::
    "io_faults \<Rightarrow> (blob_id \<times> blob_index) list \<Rightarrow> extent_file \<Rightarrow> db \<Rightarrow> (epoch_error, unit) result \<times> db" where
  "commit_group fl appended ef d =
     (case extent_sync fl of
        Err err \<Rightarrow> (Err (to_epoch (SE_Extent err)), d)
      | Ok _ \<Rightarrow> (Ok (), commit_blobs (ef_extent_id ef) appended (of_nat (ef_write_offset ef)) d))"

definition process_batch ::
    "checksum \<Rightarrow> io_faults \<Rightarrow> write_request list \<Rightarrow> db \<Rightarrow> extent_file \<Rightarrow> write_reply list \<times> db \<times> extent_file" where
  "process_batch crc fl batch d ef =
     (case load_writable_meta d (ef_extent_id ef) of
        Err err \<Rightarrow> (map (\<lambda>req. (wq_reply req, Err (to_epoch err))) batch, d, ef)
      | Ok _ \<Rightarrow>
          let s = fold (batch_request crc fl d) batch
                    \<lparr>bs_extent = ef, bs_appended = [], bs_appended_replies = [], bs_seen = [],
                     bs_fatal = None, bs_replies = []\<rparr> in
          if bs_appended s = [] then (bs_replies s, d, bs_extent s)
          else
            case commit_group fl (bs_appended s) (bs_extent s) d of
              (Ok _, d') \<Rightarrow> (bs_replies s @ map (\<lambda>r. (r, Ok Written)) (bs_appended_replies s), d', bs_extent s)
            | (Err err, d') \<Rightarrow> (bs_replies s @ map (\<lambda>r. (r, Err err)) (bs_appended_replies s), d', bs_extent s))"

section \<open>Reading\<close>

definition read_blob :: "checksum \<Rightarrow> db \<Rightarrow> extent_file \<Rightarrow> blob_id \<Rightarrow> (store_error, bytes option) result" where
  "read_blob crc d ef blob =
     and_then (map_err SE_Index (get_blob d (ef_extent_id ef) blob)) (\<lambda>found.
       case found of
         None \<Rightarrow> Ok None
       | Some entry \<Rightarrow>
           and_then (map_err SE_Extent (read_record crc (unat (bi_offset entry)) ef)) (\<lambda>(header, body).
             if rh_blob_id header \<noteq> blob then Err (SE_BlobMismatch blob (rh_blob_id header))
             else Ok (Some body)))"

section \<open>Draining a queue\<close>

lemma fill_batch_split: "fill_batch batch n rx = (b, rest) \<Longrightarrow> b @ rest = batch @ rx \<and> length batch \<le> length b"
proof (induction batch n rx rule: fill_batch.induct)
  case (2 batch n req rx)
  then show ?case by (cases "length batch < MAX_BATCH_RECORDS \<and> n < MAX_BATCH_BYTES") auto
qed simp

lemma take_batch_split:
  assumes "take_batch q = (b, rest)"
  shows "b @ rest = q" "q \<noteq> [] \<Longrightarrow> b \<noteq> []"
  using assms by (cases q; auto dest!: fill_batch_split)+

lemma take_batch_shorter: "q \<noteq> [] \<Longrightarrow> length (snd (take_batch q)) < length q"
proof -
  assume q: "q \<noteq> []"
  obtain b rest where "take_batch q = (b, rest)" by (cases "take_batch q")
  with take_batch_split [OF this] q show ?thesis by auto
qed

text \<open>The writer loop over a queue to which nothing more is sent: batch after batch until it is empty.\<close>

function writer_loop ::
    "checksum \<Rightarrow> io_faults \<Rightarrow> write_request list \<Rightarrow> db \<Rightarrow> extent_file \<Rightarrow> write_reply list \<times> db \<times> extent_file" where
  "writer_loop crc fl rx d ef =
     (if rx = [] then ([], d, ef)
      else
        let (rs, d1, ef1) = process_batch crc fl (fst (take_batch rx)) d ef;
            (rs', d2, ef2) = writer_loop crc fl (snd (take_batch rx)) d1 ef1
        in (rs @ rs', d2, ef2))"
  by pat_completeness auto
termination
  by (relation "measure (\<lambda>(crc, fl, rx, d, ef). length rx)") (simp_all add: take_batch_shorter)

declare writer_loop.simps [simp del]

section \<open>Records at an offset\<close>

definition record_at :: "checksum \<Rightarrow> bytes \<Rightarrow> nat \<Rightarrow> blob_record \<Rightarrow> bool" where
  "record_at crc f off r \<longleftrightarrow> record_fits r \<and> off \<le> length f \<and> prefix (record_core crc r) (drop off f)"

lemma record_at_split:
  assumes "record_at crc f off r"
  obtains post where "f = take off f @ record_core crc r @ post" "length (take off f) = off"
proof -
  from assms obtain post where "drop off f = record_core crc r @ post" and off: "off \<le> length f"
    by (auto simp: record_at_def prefix_def)
  then have "f = take off f @ record_core crc r @ post" by (metis append_take_drop_id)
  then show ?thesis using that off by simp
qed

lemma record_at_bound: "record_at crc f off r \<Longrightarrow> off + length (record_core crc r) \<le> length f"
  by (auto simp: record_at_def dest!: prefix_length_le)

lemma read_record_found:
  assumes "record_at crc (ef_file ef) off r"
  shows "read_record crc off ef = Ok (header_of r, body_of_record r)"
proof -
  from record_at_split [OF assms] obtain post
    where f: "ef_file ef = take off (ef_file ef) @ record_core crc r @ post" and len: "length (take off (ef_file ef)) = off" .
  have "ef = \<lparr>ef_file = take off (ef_file ef) @ record_core crc r @ post, ef_extent_id = ef_extent_id ef,
              ef_write_offset = ef_write_offset ef\<rparr>"
    using f by simp
  then show ?thesis
    using read_record_at [of r crc "take off (ef_file ef)" post "ef_extent_id ef" "ef_write_offset ef"] len assms
    by (simp add: record_at_def)
qed

text \<open>Bytes below a position fix the records that end below it.\<close>

lemma record_at_stable:
  assumes "record_at crc f off r" "off + length (record_core crc r) \<le> c" "take c f' = take c f"
  shows "record_at crc f' off r"
proof -
  let ?n = "length (record_core crc r)"
  have b: "off + ?n \<le> length f" by (rule record_at_bound [OF assms(1)])
  have core: "take ?n (drop off f) = record_core crc r"
    using assms(1) by (auto simp: record_at_def prefix_def)
  have eq: "take (off + ?n) f' = take (off + ?n) f"
    using assms(2) arg_cong [OF assms(3), of "take (off + ?n)"] by (simp add: min_absorb1)
  then have "length (take (off + ?n) f') = off + ?n" using b by simp
  then have b': "off + ?n \<le> length f'" by simp
  have "take ?n (drop off f') = record_core crc r"
    using core arg_cong [OF eq, of "drop off"] by (simp add: drop_take)
  then have "prefix (record_core crc r) (drop off f')" using take_is_prefix [of ?n "drop off f'"] by simp
  then show ?thesis using assms(1) b' by (simp add: record_at_def)
qed

lemma write_all_at_inside: "pos \<le> length f \<Longrightarrow> take pos (write_all_at data pos f) = take pos f"
  by (simp add: write_all_at_def)

lemma write_all_at_twice:
  assumes "p \<le> length f"
  shows "write_all_at b (p + length a) (write_all_at a p f) = write_all_at (a @ b) p f"
proof -
  have "write_all_at a p f = (take p f @ a) @ drop (p + length a) f" using assms by (simp add: write_all_at_def)
  moreover have "length (take p f @ a) = p + length a" using assms by simp
  moreover have "drop (length b) (drop (p + length a) f) = drop (p + length (a @ b)) f" by (simp add: add.commute add.left_commute)
  ultimately show ?thesis using assms by (simp add: write_all_at_def)
qed

lemma append_record_at_cursor:
  assumes "record_fits (b, s, body)" "ef_write_offset ef \<le> length (ef_file ef)"
  shows "append_record crc b s body ef = Ok ((ef_write_offset ef, crc body),
           ef\<lparr>ef_file := write_all_at (record_bytes crc (b, s, body)) (ef_write_offset ef) (ef_file ef),
              ef_write_offset := ef_write_offset ef + record_len (b, s, body)\<rparr>)"
proof -
  let ?r = "(b, s, body)" and ?c = "ef_write_offset ef" and ?f = "ef_file ef"
  let ?h = "header_of ?r" and ?core = "record_core crc (b, s, body)"
  have small: "length body < 2 ^ 32" using assms(1) by (simp add: record_fits_def body_of_record_def)
  have hdr: "record_header_new b s (length body) = Ok ?h"
    using small by (simp add: record_header_new_def header_of_def)
  have len: "record_on_disk_len (rh_body_len ?h) = record_len ?r"
    by (simp add: header_of_def record_len_def body_of_record_def)
  have core: "?core = record_header_encode crc ?h @ body @ encode_footer (crc body)"
    by (simp add: record_core_def body_of_record_def)
  have lcore: "length ?core = RECORD_HEADER_LEN + length body + RECORD_FOOTER_LEN"
    by (simp add: body_of_record_def)
  have three: "write_all_at (encode_footer (crc body)) (?c + RECORD_HEADER_LEN + length body)
      (write_all_at body (?c + RECORD_HEADER_LEN) (write_all_at (record_header_encode crc ?h) ?c ?f))
      = write_all_at ?core ?c ?f"
    using write_all_at_twice [OF assms(2), of body "record_header_encode crc ?h"]
      write_all_at_twice [OF assms(2), of "encode_footer (crc body)" "record_header_encode crc ?h @ body"]
    by (simp add: core add.assoc)
  have ge: "length ?core \<le> record_len ?r" by (rule record_len_ge [OF assms(1)])
  have pad: "?c + record_len ?r - (?c + RECORD_HEADER_LEN + length body + RECORD_FOOTER_LEN) = record_len ?r - length ?core"
    unfolding lcore by simp
  have pos: "?c + RECORD_HEADER_LEN + length body + RECORD_FOOTER_LEN = ?c + length ?core"
    unfolding lcore by simp
  have four: "write_all_at (replicate (record_len ?r - length ?core) 0) (?c + length ?core) (write_all_at ?core ?c ?f)
      = write_all_at (record_bytes crc ?r) ?c ?f"
    unfolding record_bytes_def by (rule write_all_at_twice [OF assms(2)])
  have zero: "record_len ?r - length ?core = 0 \<Longrightarrow> record_bytes crc ?r = ?core" by (simp add: record_bytes_def)
  show ?thesis
    unfolding append_record_def hdr map_err_simps and_then_simps Let_def len three pad unfolding pos
    using four zero by auto
qed

lemma append_record_effect:
  assumes "record_fits (b, s, body)" "ef_write_offset ef \<le> length (ef_file ef)"
    and "append_record crc b s body ef = Ok ((off, c), ef')"
  shows "off = ef_write_offset ef" "c = crc body" "ef_extent_id ef' = ef_extent_id ef"
    "ef_write_offset ef' = off + record_len (b, s, body)" "ef_write_offset ef' \<le> length (ef_file ef')"
    "take off (ef_file ef') = take off (ef_file ef)" "record_at crc (ef_file ef') off (b, s, body)"
proof -
  let ?r = "(b, s, body)" and ?f = "ef_file ef"
  have eqs: "off = ef_write_offset ef" "c = crc body"
    "ef' = ef\<lparr>ef_file := write_all_at (record_bytes crc ?r) (ef_write_offset ef) ?f,
              ef_write_offset := ef_write_offset ef + record_len ?r\<rparr>"
    using assms(3) unfolding append_record_at_cursor [OF assms(1,2)] by auto
  show "off = ef_write_offset ef" "c = crc body" "ef_extent_id ef' = ef_extent_id ef"
    "ef_write_offset ef' = off + record_len ?r"
    using eqs by simp_all
  have f': "ef_file ef' = take off ?f @ record_bytes crc ?r @ drop (off + record_len ?r) ?f"
    using assms(1,2) eqs by (simp add: write_all_at_def)
  show "take off (ef_file ef') = take off ?f" using assms(2) eqs(1) by (simp add: f')
  show "ef_write_offset ef' \<le> length (ef_file ef')"
    using assms(1,2) eqs(1) unfolding f' by (simp add: eqs(3))
  have "drop off (ef_file ef') = record_core crc ?r
     @ replicate (record_len ?r - length (record_core crc ?r)) 0 @ drop (off + record_len ?r) ?f"
    using assms(2) eqs(1) unfolding f' by (simp add: record_bytes_def)
  then show "record_at crc (ef_file ef') off ?r"
    using assms(1,2) eqs(1) unfolding record_at_def f' by (simp add: prefix_def)
qed

section \<open>The invariant of one extent\<close>

text \<open>An index entry that describes a whole record with this body, below the append cursor.\<close>

definition entry_at :: "checksum \<Rightarrow> extent_file \<Rightarrow> blob_id \<Rightarrow> blob_index \<Rightarrow> bytes \<Rightarrow> bool" where
  "entry_at crc ef b i body \<longleftrightarrow>
     (\<exists>s. record_at crc (ef_file ef) (unat (bi_offset i)) (b, s, body)
        \<and> unat (bi_offset i) + record_len (b, s, body) \<le> ef_write_offset ef)
     \<and> bi_size i = of_nat (length body) \<and> bi_crc i = crc body"

definition extent_ok :: "checksum \<Rightarrow> index_view \<Rightarrow> extent_file \<Rightarrow> bool" where
  "extent_ok crc v ef \<longleftrightarrow>
     ef_write_offset ef \<le> length (ef_file ef)
     \<and> (\<forall>b i. iv_blob v (ef_extent_id ef) b = Some i \<longrightarrow> (\<exists>body. entry_at crc ef b i body))"

text \<open>The body an extent holds for a blob, deleted or not.\<close>

definition stored_body :: "checksum \<Rightarrow> index_view \<Rightarrow> extent_file \<Rightarrow> blob_id \<Rightarrow> bytes option" where
  "stored_body crc v ef b =
     (case iv_blob v (ef_extent_id ef) b of
        None \<Rightarrow> None
      | Some i \<Rightarrow>
          (case read_record crc (unat (bi_offset i)) ef of
             Ok (_, body) \<Rightarrow> Some body
           | Err _ \<Rightarrow> None))"

lemma entry_at_read:
  assumes "entry_at crc ef b i body"
  obtains s where "read_record crc (unat (bi_offset i)) ef = Ok (header_of (b, s, body), body)"
  using assms read_record_found [of crc ef] by (auto simp: entry_at_def body_of_record_def)

lemma stored_body_entry:
  "iv_blob v (ef_extent_id ef) b = Some i \<Longrightarrow> entry_at crc ef b i body \<Longrightarrow> stored_body crc v ef b = Some body"
  by (erule entry_at_read) (simp add: stored_body_def)

lemma stored_body_cases:
  assumes "extent_ok crc v ef"
  obtains "iv_blob v (ef_extent_id ef) b = None" "stored_body crc v ef b = None"
  | i body where "iv_blob v (ef_extent_id ef) b = Some i" "entry_at crc ef b i body" "stored_body crc v ef b = Some body"
proof (cases "iv_blob v (ef_extent_id ef) b")
  case None
  then show thesis using that(1) by (simp add: stored_body_def)
next
  case (Some i)
  then obtain body where "entry_at crc ef b i body" using assms by (auto simp: extent_ok_def)
  then show thesis using that(2) Some stored_body_entry by blast
qed

lemma read_blob_ok:
  assumes "index_rel d v" "extent_ok crc v ef"
  shows "read_blob crc d ef b = Ok (stored_body crc v ef b)"
  by (rule stored_body_cases [OF assms(2), of b])
    (use assms(1) in \<open>auto simp: read_blob_def header_of_def elim: entry_at_read\<close>)

text \<open>Everything below the cursor stays, so entries stay.\<close>

definition extends :: "extent_file \<Rightarrow> extent_file \<Rightarrow> bool" where
  "extends ef ef' \<longleftrightarrow>
     ef_extent_id ef' = ef_extent_id ef \<and> ef_write_offset ef \<le> ef_write_offset ef'
     \<and> ef_write_offset ef' \<le> length (ef_file ef')
     \<and> take (ef_write_offset ef) (ef_file ef') = take (ef_write_offset ef) (ef_file ef)"

lemma extends_trans: "extends a b \<Longrightarrow> extends b c \<Longrightarrow> extends a c"
  unfolding extends_def by (metis le_trans min.absorb1 take_take)

lemma entry_at_extends:
  assumes "entry_at crc ef b i body" "extends ef ef'"
  shows "entry_at crc ef' b i body"
proof -
  from assms(1) obtain s where r: "record_at crc (ef_file ef) (unat (bi_offset i)) (b, s, body)"
    "unat (bi_offset i) + record_len (b, s, body) \<le> ef_write_offset ef"
    by (auto simp: entry_at_def)
  have "length (record_core crc (b, s, body)) \<le> record_len (b, s, body)"
    using r(1) by (intro record_len_ge) (simp add: record_at_def)
  then have "record_at crc (ef_file ef') (unat (bi_offset i)) (b, s, body)"
    using r(2) assms(2) by (intro record_at_stable [OF r(1), of "ef_write_offset ef"]) (auto simp: extends_def)
  moreover have "unat (bi_offset i) + record_len (b, s, body) \<le> ef_write_offset ef'"
    using r(2) assms(2) by (simp add: extends_def)
  ultimately show ?thesis using assms(1) unfolding entry_at_def by blast
qed

text \<open>An append, whether it succeeds or stops in the middle, extends the file.\<close>

lemma append_on_cases:
  assumes "ef_write_offset ef \<le> length (ef_file ef)" "length body < 2 ^ 32"
    and "ef_write_offset ef + record_len (b, s, body) < 2 ^ 64"
  obtains e ef' where "append_on crc fl b s body ef = (Err e, ef')" "extends ef ef'"
    "ef_write_offset ef' = ef_write_offset ef"
  | ef' where "append_on crc fl b s body ef = (Ok (ef_write_offset ef, crc body), ef')" "extends ef ef'"
    "ef_write_offset ef' = ef_write_offset ef + record_len (b, s, body)"
    "entry_at crc ef' b (blob_index_new (of_nat (ef_write_offset ef)) (of_nat (length body)) (crc body)) body"
proof (cases "append_fault fl b")
  case (Some a)
  then obtain k part where a: "append_fault fl b = Some (k, part)" by (cases a) auto
  have "extends ef (ef\<lparr>ef_file := write_all_at part (ef_write_offset ef) (ef_file ef)\<rparr>)"
    using assms(1) by (simp add: extends_def write_all_at_def)
  then show thesis using a that(1) by (simp add: append_on_def)
next
  case None
  have fits: "record_fits (b, s, body)" using assms(2) by (simp add: record_fits_def body_of_record_def)
  obtain ef' where ap: "append_record crc b s body ef = Ok ((ef_write_offset ef, crc body), ef')"
    using append_record_at_cursor [OF fits assms(1)] by blast
  note eff = append_record_effect [OF fits assms(1) ap]
  have un: "unat (of_nat (ef_write_offset ef) :: u64) = ef_write_offset ef"
    using assms(3) by (simp add: unsigned_of_nat take_bit_nat_eq_self)
  have "extends ef ef'" using eff by (simp add: extends_def)
  moreover have "entry_at crc ef' b (blob_index_new (of_nat (ef_write_offset ef)) (of_nat (length body)) (crc body)) body"
    using eff un by (auto simp: entry_at_def blob_index_new_def)
  ultimately show thesis using None ap eff(4) that(2) by (simp add: append_on_def)
qed

section \<open>Batches\<close>

definition batch_space :: "write_request list \<Rightarrow> nat" where
  "batch_space reqs = (\<Sum>req \<leftarrow> reqs. record_len (wq_blob req, ShardId 0, wq_body req))"

lemma record_len_body: "record_len (b, s, body) = record_len (b', s', body)"
  by (simp add: record_len_def body_of_record_def)

text \<open>What the loop over a batch maintains, for the requests handled so far.\<close>

definition batch_inv ::
    "checksum \<Rightarrow> index_view \<Rightarrow> extent_file \<Rightarrow> write_request list \<Rightarrow> batch_state \<Rightarrow> bool" where
  "batch_inv crc v ef reqs s \<longleftrightarrow>
     extends ef (bs_extent s)
     \<and> mset (map fst (bs_replies s)) + mset (bs_appended_replies s) = mset (map wq_reply reqs)
     \<and> length (bs_appended_replies s) = length (bs_appended s)
     \<and> distinct (map fst (bs_appended s)) \<and> fst ` set (bs_appended s) \<subseteq> set (bs_seen s)
     \<and> (\<forall>k < length (bs_appended s). \<exists>req \<in> set reqs.
          wq_reply req = bs_appended_replies s ! k \<and> wq_blob req = fst (bs_appended s ! k)
          \<and> iv_blob v (ef_extent_id ef) (wq_blob req) = None
          \<and> entry_at crc (bs_extent s) (wq_blob req) (snd (bs_appended s ! k)) (wq_body req)
          \<and> \<not> is_tombstoned (snd (bs_appended s ! k)))
     \<and> Written \<notin> {w. \<exists>n. (n, Ok w) \<in> set (bs_replies s)}"

lemma batch_inv_reply:
  assumes "batch_inv crc v ef reqs s" "r \<noteq> Ok Written"
  shows "batch_inv crc v ef (reqs @ [req]) (batch_reply req r s)"
  using assms unfolding batch_inv_def batch_reply_def by auto

lemma batch_inv_extent:
  assumes "batch_inv crc v ef reqs s" "extends (bs_extent s) ef'"
  shows "batch_inv crc v ef reqs (s\<lparr>bs_seen := b # bs_seen s, bs_extent := ef', bs_fatal := x\<rparr>)"
  using assms unfolding batch_inv_def
  by (auto intro: extends_trans) (meson entry_at_extends)

lemma not_tombstoned_new: "\<not> is_tombstoned (blob_index_new off len c)"
  by (simp add: is_tombstoned_def blob_index_new_def)

lemma batch_inv_append:
  assumes "batch_inv crc v ef reqs s" "extends (bs_extent s) ef'" "wq_blob req \<notin> set (bs_seen s)"
    and "iv_blob v (ef_extent_id ef) (wq_blob req) = None"
    and "entry_at crc ef' (wq_blob req) i (wq_body req)" "\<not> is_tombstoned i"
  shows "batch_inv crc v ef (reqs @ [req])
    (s\<lparr>bs_seen := wq_blob req # bs_seen s, bs_extent := ef', bs_appended := bs_appended s @ [(wq_blob req, i)],
       bs_appended_replies := bs_appended_replies s @ [wq_reply req]\<rparr>)"
proof -
  have entries: "\<exists>rq \<in> set (reqs @ [req]). wq_reply rq = (bs_appended_replies s @ [wq_reply req]) ! k
      \<and> wq_blob rq = fst ((bs_appended s @ [(wq_blob req, i)]) ! k) \<and> iv_blob v (ef_extent_id ef) (wq_blob rq) = None
      \<and> entry_at crc ef' (wq_blob rq) (snd ((bs_appended s @ [(wq_blob req, i)]) ! k)) (wq_body rq)
      \<and> \<not> is_tombstoned (snd ((bs_appended s @ [(wq_blob req, i)]) ! k))"
    if k: "k < Suc (length (bs_appended s))" for k
  proof (cases "k = length (bs_appended s)")
    case True
    then show ?thesis using assms(1,4-6) by (simp add: batch_inv_def nth_append)
  next
    case False
    then have "k < length (bs_appended s)" "k < length (bs_appended_replies s)"
      using k assms(1) by (auto simp: batch_inv_def)
    then show ?thesis
      using assms(1,2) entry_at_extends by (fastforce simp: batch_inv_def nth_append)
  qed
  show ?thesis
    using assms(1-3) entries unfolding batch_inv_def by (auto intro: extends_trans)
qed

lemma batch_request_inv:
  assumes inv: "batch_inv crc v ef reqs s" and rel: "index_rel d v"
    and space: "ef_write_offset (bs_extent s) + record_len (wq_blob req, ShardId 0, wq_body req) < 2 ^ 64"
  shows "batch_inv crc v ef (reqs @ [req]) (batch_request crc fl d req s)
       \<and> ef_write_offset (bs_extent (batch_request crc fl d req s))
           \<le> ef_write_offset (bs_extent s) + record_len (wq_blob req, ShardId 0, wq_body req)"
proof -
  let ?e = "ef_extent_id (bs_extent s)"
  have id: "?e = ef_extent_id ef" and off: "ef_write_offset (bs_extent s) \<le> length (ef_file (bs_extent s))"
    using inv by (auto simp: batch_inv_def extends_def)
  have refl: "extends (bs_extent s) (bs_extent s)" using off by (simp add: extends_def)
  consider "bs_fatal s \<noteq> None" | "bs_fatal s = None" "iv_blob v ?e (wq_blob req) \<noteq> None"
    | "bs_fatal s = None" "iv_blob v ?e (wq_blob req) = None" "wq_blob req \<in> set (bs_seen s)"
    | "bs_fatal s = None" "iv_blob v ?e (wq_blob req) = None" "wq_blob req \<notin> set (bs_seen s)" "\<not> length (wq_body req) < 2 ^ 32"
    | "bs_fatal s = None" "iv_blob v ?e (wq_blob req) = None" "wq_blob req \<notin> set (bs_seen s)" "length (wq_body req) < 2 ^ 32"
    by blast
  then show ?thesis
  proof cases
    case 4
    have "batch_inv crc v ef reqs (s\<lparr>bs_seen := wq_blob req # bs_seen s\<rparr>)"
      using batch_inv_extent [OF inv refl, where b = "wq_blob req" and x = "bs_fatal s"] by simp
    from batch_inv_reply [OF this, of "Err (to_epoch (SE_BodyTooLarge (length (wq_body req))))" req]
    show ?thesis
      using 4 rel by (simp add: batch_request_def batch_reply_def)
  next
    case 5
    let ?s = "extent_shard_id ?e"
    have sp: "ef_write_offset (bs_extent s) + record_len (wq_blob req, ?s, wq_body req) < 2 ^ 64"
      using space by (simp add: record_len_body [of _ ?s _ "wq_blob req" "ShardId 0"])
    show ?thesis
    proof (rule append_on_cases [OF off 5(4) sp, of crc fl])
      fix e ef' assume "append_on crc fl (wq_blob req) ?s (wq_body req) (bs_extent s) = (Err e, ef')"
        "extends (bs_extent s) ef'" "ef_write_offset ef' = ef_write_offset (bs_extent s)"
      then show ?thesis
        using 5 rel batch_inv_reply [OF batch_inv_extent [OF inv]]
        by (simp add: batch_request_def batch_reply_def)
    next
      fix ef' assume "append_on crc fl (wq_blob req) ?s (wq_body req) (bs_extent s)
          = (Ok (ef_write_offset (bs_extent s), crc (wq_body req)), ef')" "extends (bs_extent s) ef'"
        "ef_write_offset ef' = ef_write_offset (bs_extent s) + record_len (wq_blob req, ?s, wq_body req)"
        "entry_at crc ef' (wq_blob req) (blob_index_new (of_nat (ef_write_offset (bs_extent s)))
            (of_nat (length (wq_body req))) (crc (wq_body req))) (wq_body req)"
      then show ?thesis
        using 5 rel id batch_inv_append [OF inv]
          record_len_body [of "wq_blob req" ?s "wq_body req" "wq_blob req" "ShardId 0"]
        by (simp add: batch_request_def not_tombstoned_new)
    qed
  qed (use inv rel batch_inv_reply in \<open>auto simp: batch_request_def batch_reply_def\<close>)
qed

lemma batch_fold_inv:
  assumes "batch_inv crc v ef reqs s" "index_rel d v"
    and "ef_write_offset (bs_extent s) + batch_space batch < 2 ^ 64"
  shows "batch_inv crc v ef (reqs @ batch) (fold (batch_request crc fl d) batch s)
       \<and> ef_write_offset (bs_extent (fold (batch_request crc fl d) batch s)) \<le> ef_write_offset (bs_extent s) + batch_space batch"
  using assms
proof (induction batch arbitrary: reqs s)
  case (Cons req batch)
  have step: "batch_inv crc v ef (reqs @ [req]) (batch_request crc fl d req s)"
    "ef_write_offset (bs_extent (batch_request crc fl d req s))
           \<le> ef_write_offset (bs_extent s) + record_len (wq_blob req, ShardId 0, wq_body req)"
    using batch_request_inv [OF Cons.prems(1,2), of req fl] Cons.prems(3) by (auto simp: batch_space_def)
  have "ef_write_offset (bs_extent (batch_request crc fl d req s)) + batch_space batch < 2 ^ 64"
    using step(2) Cons.prems(3) by (simp add: batch_space_def)
  then show ?case using Cons.IH [OF step(1) Cons.prems(2)] step(2) by (simp add: batch_space_def)
qed simp

lemma view_put_blobs_lookup:
  assumes "distinct (map fst xs)"
  shows "iv_blob (view_put_blobs e xs v) e' b
           = (if e' = e then (case map_of xs b of Some i \<Rightarrow> Some i | None \<Rightarrow> iv_blob v e b) else iv_blob v e' b)"
proof -
  have "fold (\<lambda>(b, i) m. m(b \<mapsto> i)) xs m b = (case map_of xs b of Some i \<Rightarrow> Some i | None \<Rightarrow> m b)" for m
    using assms
  proof (induction xs arbitrary: m)
    case (Cons p xs)
    then show ?case
      by (cases p) (auto split: option.splits simp: map_of_eq_None_iff dest: map_of_SomeD
          intro: rev_image_eqI)
  qed simp
  then show ?thesis by (simp add: view_put_blobs_def)
qed

lemma view_merge_blob [simp]: "iv_blob (view_merge e op v) = iv_blob v"
  by (simp add: view_merge_def)

lemma extends_ok:
  assumes "extent_ok crc v ef" "extends ef ef'"
  shows "extent_ok crc v ef'" "stored_body crc v ef' b = stored_body crc v ef b"
proof -
  have id: "ef_extent_id ef' = ef_extent_id ef" using assms(2) by (simp add: extends_def)
  show "extent_ok crc v ef'"
    using assms(1) entry_at_extends [OF _ assms(2)] id assms(2) unfolding extent_ok_def extends_def by metis
  show "stored_body crc v ef' b = stored_body crc v ef b"
  proof (rule stored_body_cases [OF assms(1), of b])
    fix i body assume "iv_blob v (ef_extent_id ef) b = Some i" "entry_at crc ef b i body" "stored_body crc v ef b = Some body"
    then show ?thesis using stored_body_entry [of v ef' b i crc body] entry_at_extends [OF _ assms(2)] id by simp
  qed (simp add: stored_body_def id)
qed

text \<open>Committing entries that are at their place keeps the invariant and everything stored.\<close>

lemma commit_extent_ok:
  assumes ok: "extent_ok crc v ef" and ext: "extends ef ef'" and e: "e = ef_extent_id ef"
    and dist: "distinct (map fst xs)"
    and entries: "\<And>b i. (b, i) \<in> set xs \<Longrightarrow> iv_blob v e b = None \<and> (\<exists>body. entry_at crc ef' b i body)"
  shows "extent_ok crc (view_merge e (SetSize sz) (view_put_blobs e xs v)) ef'"
    and "stored_body crc v ef b = Some body \<Longrightarrow>
           stored_body crc (view_merge e (SetSize sz) (view_put_blobs e xs v)) ef' b = Some body"
    and "iv_blob v e b = Some i \<Longrightarrow> iv_blob (view_merge e (SetSize sz) (view_put_blobs e xs v)) e b = Some i"
proof -
  let ?v = "view_merge e (SetSize sz) (view_put_blobs e xs v)"
  have id: "ef_extent_id ef' = e" using ext e by (simp add: extends_def)
  have old: "iv_blob v e b = Some i \<Longrightarrow> map_of xs b = None" for b i
    using entries by (auto simp: map_of_eq_None_iff)
  show "iv_blob v e b = Some i \<Longrightarrow> iv_blob ?v e b = Some i"
    using old dist by (simp add: view_put_blobs_lookup)
  show "extent_ok crc ?v ef'"
  proof (unfold extent_ok_def, intro conjI allI impI)
    show "ef_write_offset ef' \<le> length (ef_file ef')" using ext by (simp add: extends_def)
  next
    fix b i assume "iv_blob ?v (ef_extent_id ef') b = Some i"
    then consider "(b, i) \<in> set xs" | "iv_blob v e b = Some i"
      using dist by (auto simp: id view_put_blobs_lookup split: option.splits dest: map_of_SomeD)
    then show "\<exists>body. entry_at crc ef' b i body"
    proof cases
      case 2
      then obtain body where "entry_at crc ef b i body" using ok e by (auto simp: extent_ok_def)
      then show ?thesis using entry_at_extends [OF _ ext] by blast
    qed (use entries in blast)
  qed
  assume "stored_body crc v ef b = Some body"
  then obtain i where "iv_blob v e b = Some i" "entry_at crc ef b i body"
    using stored_body_cases [OF ok, of b] e by auto
  then show "stored_body crc ?v ef' b = Some body"
    using old dist entry_at_extends [OF _ ext]
    by (intro stored_body_entry [where i = i]) (auto simp: id view_put_blobs_lookup)
qed

text \<open>The result of a batch: replies, database and file.\<close>

lemma process_batch_effect:
  assumes rel: "index_rel d v" and ok: "extent_ok crc v ef"
    and space: "ef_write_offset ef + batch_space batch < 2 ^ 64"
    and run: "process_batch crc fl batch d ef = (rs, d', ef')"
  shows "\<exists>xs v'. index_rel d' v' \<and> extent_ok crc v' ef' \<and> extends ef ef'
       \<and> ef_write_offset ef' \<le> ef_write_offset ef + batch_space batch
       \<and> mset (map fst rs) = mset (map wq_reply batch)
       \<and> (v' = v \<or> v' = view_merge (ef_extent_id ef) (SetSize (of_nat (ef_write_offset ef'))) (view_put_blobs (ef_extent_id ef) xs v))
       \<and> (\<forall>b body. stored_body crc v ef b = Some body \<longrightarrow> stored_body crc v' ef' b = Some body)
       \<and> (\<forall>b i. iv_blob v (ef_extent_id ef) b = Some i \<longrightarrow> iv_blob v' (ef_extent_id ef) b = Some i)
       \<and> (\<forall>n. (n, Ok Written) \<in> set rs \<longrightarrow>
            (\<exists>req \<in> set batch. wq_reply req = n \<and> stored_body crc v' ef' (wq_blob req) = Some (wq_body req)
               \<and> live_in v' (ef_extent_id ef) (wq_blob req)))"
proof (cases "load_writable_meta d (ef_extent_id ef)")
  case (Inl err)
  have refl: "extends ef ef" using ok by (simp add: extends_def extent_ok_def)
  have "rs = map (\<lambda>req. (wq_reply req, Err (to_epoch err))) batch" "d' = d" "ef' = ef"
    using run Inl by (auto simp: process_batch_def)
  then show ?thesis using rel ok refl by (intro exI [of _ "[]"] exI [of _ v]) (auto simp: comp_def)
next
  case (Inr u)
  let ?e = "ef_extent_id ef"
  let ?s0 = "\<lparr>bs_extent = ef, bs_appended = [], bs_appended_replies = [], bs_seen = [], bs_fatal = None, bs_replies = []\<rparr>"
  define s where "s = fold (batch_request crc fl d) batch ?s0"
  have "batch_inv crc v ef [] ?s0"
    using ok by (simp add: batch_inv_def extends_def extent_ok_def)
  from batch_fold_inv [OF this rel, of batch fl] have inv: "batch_inv crc v ef batch s"
    and grow: "ef_write_offset (bs_extent s) \<le> ef_write_offset ef + batch_space batch"
    using space by (simp_all add: s_def)
  have ext: "extends ef (bs_extent s)" and id: "ef_extent_id (bs_extent s) = ?e"
    and dist: "distinct (map fst (bs_appended s))"
    and reps: "mset (map fst (bs_replies s)) + mset (bs_appended_replies s) = mset (map wq_reply batch)"
    and nw: "(n, Ok Written) \<notin> set (bs_replies s)" for n
    using inv by (auto simp: batch_inv_def extends_def)
  have entries: "iv_blob v ?e b = None \<and> (\<exists>body. entry_at crc (bs_extent s) b i body)" if "(b, i) \<in> set (bs_appended s)" for b i
    using that inv by (fastforce simp: batch_inv_def in_set_conv_nth)
  have fsts: "map fst (map (\<lambda>r. (r, x)) rs) = rs" for x :: "(epoch_error, write_outcome) result" and rs :: "nat list"
    by (simp add: comp_def)
  obtain m where m: "iv_meta v ?e = Some m"
    using Inr rel by (auto simp: load_writable_meta_def result_simps)
  consider "bs_appended s = []" "rs = bs_replies s" "d' = d" "ef' = bs_extent s"
    | err where "rs = bs_replies s @ map (\<lambda>r. (r, Err err)) (bs_appended_replies s)" "d' = d" "ef' = bs_extent s"
    | "rs = bs_replies s @ map (\<lambda>r. (r, Ok Written)) (bs_appended_replies s)" "ef' = bs_extent s"
      "d' = commit_blobs ?e (bs_appended s) (of_nat (ef_write_offset (bs_extent s))) d"
    using run Inr unfolding process_batch_def s_def [symmetric] Let_def
    by (auto simp: commit_group_def id split: if_splits sum.splits)
  then show ?thesis
  proof cases
    case 3
    let ?v = "view_merge ?e (SetSize (of_nat (ef_write_offset (bs_extent s)))) (view_put_blobs ?e (bs_appended s) v)"
    note com = commit_extent_ok [OF ok ext refl dist entries, where sz = "of_nat (ef_write_offset (bs_extent s))"]
    have "\<exists>req \<in> set batch. wq_reply req = n \<and> stored_body crc ?v ef' (wq_blob req) = Some (wq_body req)
        \<and> live_in ?v ?e (wq_blob req)"
      if "(n, Ok Written) \<in> set rs" for n
    proof -
      have "n \<in> set (bs_appended_replies s)" using that nw 3(1) by auto
      then obtain k where k: "k < length (bs_appended s)" "bs_appended_replies s ! k = n"
        using inv by (auto simp: batch_inv_def in_set_conv_nth)
      obtain req where req: "req \<in> set batch" "wq_reply req = n" "wq_blob req = fst (bs_appended s ! k)"
        "entry_at crc (bs_extent s) (wq_blob req) (snd (bs_appended s ! k)) (wq_body req)"
        "\<not> is_tombstoned (snd (bs_appended s ! k))"
        using inv k by (auto simp: batch_inv_def)
      have mo: "map_of (bs_appended s) (wq_blob req) = Some (snd (bs_appended s ! k))"
        using dist k(1) req(3) by (metis map_of_eq_Some_iff nth_mem prod.collapse)
      then have "stored_body crc ?v ef' (wq_blob req) = Some (wq_body req)"
        using req(4) dist 3(2) by (intro stored_body_entry) (auto simp: id view_put_blobs_lookup)
      moreover have "live_in ?v ?e (wq_blob req)" using mo req(5) dist by (simp add: live_in_def view_put_blobs_lookup)
      ultimately show ?thesis using req by blast
    qed
    moreover have "index_rel d' ?v" unfolding 3 by (rule commit_blobs_rel [OF rel m])
    moreover have "mset (map fst rs) = mset (map wq_reply batch)"
      using reps unfolding 3 map_append fsts by simp
    ultimately show ?thesis using com ext grow 3(2) by (intro exI [of _ "bs_appended s"] exI [of _ ?v]) blast
  next
    case 1
    then have "bs_appended_replies s = []" using inv by (simp add: batch_inv_def)
    then show ?thesis
      using 1 rel ext grow extends_ok [OF ok ext] reps nw by (intro exI [of _ "[]"] exI [of _ v]) auto
  next
    case (2 err)
    have "mset (map fst rs) = mset (map wq_reply batch)"
      using reps unfolding 2 map_append fsts by simp
    then show ?thesis
      using 2 rel ext grow extends_ok [OF ok ext] nw by (intro exI [of _ "[]"] exI [of _ v]) auto
  qed
qed

text \<open>On a healthy device every request of a batch is acknowledged and stored.\<close>

definition batch_healthy :: "index_view \<Rightarrow> extent_id \<Rightarrow> write_request list \<Rightarrow> batch_state \<Rightarrow> bool" where
  "batch_healthy v e reqs s \<longleftrightarrow>
     bs_fatal s = None \<and> set (bs_seen s) = fst ` set (bs_appended s)
     \<and> (\<forall>r \<in> set (bs_replies s). snd r = Ok AlreadyExists)
     \<and> (\<forall>req \<in> set reqs. iv_blob v e (wq_blob req) \<noteq> None \<or> wq_blob req \<in> fst ` set (bs_appended s))"

lemma batch_request_healthy:
  assumes "batch_healthy v e reqs s" "index_rel d v" "ef_extent_id (bs_extent s) = e"
    and "ef_write_offset (bs_extent s) \<le> length (ef_file (bs_extent s))" "length (wq_body req) < 2 ^ 32"
  shows "batch_healthy v e (reqs @ [req]) (batch_request crc no_faults d req s)"
proof -
  let ?s = "extent_shard_id e"
  have fits: "record_fits (wq_blob req, ?s, wq_body req)"
    using assms(5) by (simp add: record_fits_def body_of_record_def)
  obtain off c ef' where "append_record crc (wq_blob req) ?s (wq_body req) (bs_extent s) = Ok ((off, c), ef')"
    using append_record_at_cursor [OF fits assms(4)] by blast
  then have ap: "append_on crc no_faults (wq_blob req) ?s (wq_body req) (bs_extent s) = (Ok (off, c), ef')"
    by (simp add: append_on_def no_faults_def)
  have fatal: "bs_fatal s = None" using assms(1) by (simp add: batch_healthy_def)
  consider i where "iv_blob v e (wq_blob req) = Some i"
    | "iv_blob v e (wq_blob req) = None" "wq_blob req \<in> set (bs_seen s)"
    | "iv_blob v e (wq_blob req) = None" "wq_blob req \<notin> set (bs_seen s)"
    by (cases "iv_blob v e (wq_blob req)") auto
  then show ?thesis
  proof cases
    case 1
    then show ?thesis using assms(1-3) fatal by (simp add: batch_request_def batch_reply_def batch_healthy_def)
  next
    case 2
    then show ?thesis using assms(1-3) fatal by (simp add: batch_request_def batch_reply_def batch_healthy_def)
  next
    case 3
    have "batch_request crc no_faults d req s = s\<lparr>bs_seen := wq_blob req # bs_seen s, bs_extent := ef',
        bs_appended := bs_appended s @ [(wq_blob req, blob_index_new (of_nat off) (of_nat (length (wq_body req))) c)],
        bs_appended_replies := bs_appended_replies s @ [wq_reply req]\<rparr>"
      using 3 assms(2,3,5) fatal ap by (simp add: batch_request_def)
    then show ?thesis using assms(1) by (auto simp: batch_healthy_def)
  qed
qed

lemma batch_fold_healthy:
  assumes "batch_healthy v (ef_extent_id ef) reqs s" "batch_inv crc v ef reqs s" "index_rel d v"
    and "ef_write_offset (bs_extent s) + batch_space batch < 2 ^ 64" "\<forall>req \<in> set batch. length (wq_body req) < 2 ^ 32"
  shows "batch_healthy v (ef_extent_id ef) (reqs @ batch) (fold (batch_request crc no_faults d) batch s)"
  using assms
proof (induction batch arbitrary: reqs s)
  case (Cons req batch)
  let ?s = "batch_request crc no_faults d req s"
  have step: "batch_inv crc v ef (reqs @ [req]) ?s"
    "ef_write_offset (bs_extent ?s) \<le> ef_write_offset (bs_extent s) + record_len (wq_blob req, ShardId 0, wq_body req)"
    using batch_request_inv [OF Cons.prems(2,3), of req no_faults] Cons.prems(4) by (auto simp: batch_space_def)
  have "batch_healthy v (ef_extent_id ef) (reqs @ [req]) ?s"
    using Cons.prems(2,5) by (intro batch_request_healthy [OF Cons.prems(1,3)]) (auto simp: batch_inv_def extends_def)
  moreover have "ef_write_offset (bs_extent ?s) + batch_space batch < 2 ^ 64"
    using step(2) Cons.prems(4) by (simp add: batch_space_def)
  ultimately show ?case using Cons.IH [OF _ step(1) Cons.prems(3)] Cons.prems(5) by simp
qed simp

lemma process_batch_healthy:
  assumes rel: "index_rel d v" and ok: "extent_ok crc v ef"
    and space: "ef_write_offset ef + batch_space batch < 2 ^ 64"
    and small: "\<forall>req \<in> set batch. length (wq_body req) < 2 ^ 32"
    and gate: "load_writable_meta d (ef_extent_id ef) = Ok ()"
    and run: "process_batch crc no_faults batch d ef = (rs, d', ef')"
  shows "(\<forall>r \<in> set rs. \<exists>w. snd r = Ok w)
       \<and> (\<forall>req \<in> set batch. \<exists>i. get_blob d' (ef_extent_id ef) (wq_blob req) = Ok (Some i))"
proof -
  let ?e = "ef_extent_id ef"
  let ?s0 = "\<lparr>bs_extent = ef, bs_appended = [], bs_appended_replies = [], bs_seen = [], bs_fatal = None, bs_replies = []\<rparr>"
  define s where "s = fold (batch_request crc no_faults d) batch ?s0"
  have inv0: "batch_inv crc v ef [] ?s0" using ok by (simp add: batch_inv_def extends_def extent_ok_def)
  have inv: "batch_inv crc v ef batch s" using batch_fold_inv [OF inv0 rel, of batch no_faults] space by (simp add: s_def)
  have "batch_healthy v ?e [] ?s0" by (simp add: batch_healthy_def)
  from batch_fold_healthy [OF this inv0 rel] have healthy: "batch_healthy v ?e batch s"
    using space small by (simp add: s_def)
  obtain m where m: "iv_meta v ?e = Some m" using gate rel by (auto simp: load_writable_meta_def result_simps)
  have id: "ef_extent_id (bs_extent s) = ?e" and dist: "distinct (map fst (bs_appended s))"
    using inv by (auto simp: batch_inv_def extends_def)
  have sync: "extent_sync no_faults = Ok ()" by (simp add: extent_sync_def no_faults_def)
  show ?thesis
  proof (cases "bs_appended s = []")
    case True
    then have "rs = bs_replies s" "d' = d"
      using run gate unfolding process_batch_def s_def [symmetric] Let_def by auto
    then show ?thesis using healthy True rel by (fastforce simp: batch_healthy_def)
  next
    case False
    then have rs: "rs = bs_replies s @ map (\<lambda>r. (r, Ok Written)) (bs_appended_replies s)"
      and d': "d' = commit_blobs ?e (bs_appended s) (of_nat (ef_write_offset (bs_extent s))) d"
      using run gate unfolding process_batch_def s_def [symmetric] Let_def by (auto simp: commit_group_def id sync)
    have "\<exists>i. get_blob d' ?e (wq_blob req) = Ok (Some i)" if "req \<in> set batch" for req
      using that healthy get_blob_rel [OF commit_blobs_rel [OF rel m]] dist
      by (auto simp: d' batch_healthy_def view_put_blobs_lookup split: option.splits)
    then show ?thesis using healthy by (auto simp: rs batch_healthy_def)
  qed
qed

lemma write_blob_cases:
  assumes "index_rel d v" "ef_write_offset ef \<le> length (ef_file ef)" "length body < 2 ^ 32"
    and "ef_write_offset ef + record_len (b, ShardId 0, body) < 2 ^ 64"
    and run: "write_blob crc fl b body d ef = (r, d', ef')"
  obtains err where "r = Err err" "d' = d" "extends ef ef'" "ef_write_offset ef' \<le> ef_write_offset ef + record_len (b, ShardId 0, body)"
  | i where "iv_blob v (ef_extent_id ef) b = Some i" "r = Ok AlreadyExists" "d' = d" "ef' = ef"
  | m where "iv_meta v (ef_extent_id ef) = Some m" "iv_blob v (ef_extent_id ef) b = None" "r = Ok Written" "extends ef ef'"
    "entry_at crc ef' b (blob_index_new (of_nat (ef_write_offset ef)) (of_nat (length body)) (crc body)) body"
    "d' = commit_blobs (ef_extent_id ef)
            [(b, blob_index_new (of_nat (ef_write_offset ef)) (of_nat (length body)) (crc body))]
            (of_nat (ef_write_offset ef')) d"
    "ef_write_offset ef' = ef_write_offset ef + record_len (b, ShardId 0, body)"
proof -
  let ?e = "ef_extent_id ef" and ?s = "extent_shard_id (ef_extent_id ef)"
  note off = assms(2)
  have ext0: "extends ef ef" using off by (simp add: extends_def)
  have len: "record_len (b, ?s, body) = record_len (b, ShardId 0, body)" by (rule record_len_body)
  then have sp: "ef_write_offset ef + record_len (b, ?s, body) < 2 ^ 64" using assms(4) by simp
  show thesis
  proof (cases "load_writable_meta d ?e")
    case (Inr u)
    then obtain m where m: "iv_meta v ?e = Some m" using assms(1) by (auto simp: load_writable_meta_def result_simps)
    show thesis
    proof (cases "iv_blob v ?e b")
      case None
      have run': "(r, d', ef') = (case append_on crc fl b ?s body ef of
            (Err err, ef') \<Rightarrow> (Err (SE_Extent err), d, ef')
          | (Ok (offset, c), ef') \<Rightarrow>
              (case extent_sync fl of
                 Err err \<Rightarrow> (Err (SE_Extent err), d, ef')
               | Ok _ \<Rightarrow> (Ok Written, commit_blob ?e b (blob_index_new (of_nat offset) (of_nat (length body)) c)
                              (of_nat (ef_write_offset ef')) d, ef')))"
        using run Inr None assms(1,3) by (simp add: write_blob_def Let_def)
      show thesis
      proof (rule append_on_cases [OF off assms(3) sp, of crc fl])
        fix err ef1 assume "append_on crc fl b ?s body ef = (Err err, ef1)" "extends ef ef1"
          "ef_write_offset ef1 = ef_write_offset ef"
        then show thesis using run' that(1) by simp
      next
        fix ef1 assume a: "append_on crc fl b ?s body ef = (Ok (ef_write_offset ef, crc body), ef1)" "extends ef ef1"
          "ef_write_offset ef1 = ef_write_offset ef + record_len (b, ?s, body)"
          "entry_at crc ef1 b (blob_index_new (of_nat (ef_write_offset ef)) (of_nat (length body)) (crc body)) body"
        show thesis
        proof (cases "extent_sync fl")
          case (Inl err)
          then show thesis using run' a(1-3) len that(1) by simp
        next
          case (Inr _)
          then show thesis using run' a len m None that(3) by (simp add: commit_blob_def)
        qed
      qed
    next
      case (Some i)
      then have "r = Ok AlreadyExists \<and> d' = d \<and> ef' = ef"
        using Inr assms(1) run by (simp add: write_blob_def Let_def)
      then show thesis using that(2) [OF Some] by blast
    qed
  next
    case (Inl err)
    then have "r = Err err \<and> d' = d \<and> ef' = ef" using run by (simp add: write_blob_def Let_def)
    then show thesis using that(1) ext0 by simp
  qed
qed

lemma write_blob_as_batch:
  assumes "index_rel d v" "extent_ok crc v ef" "length body < 2 ^ 32"
    and "ef_write_offset ef + record_len (b, ShardId 0, body) < 2 ^ 64"
    and run: "write_blob crc fl b body d ef = (r, d', ef')"
  shows "\<exists>v'. index_rel d' v' \<and> extent_ok crc v' ef' \<and> extends ef ef'
     \<and> (\<forall>c x. stored_body crc v ef c = Some x \<longrightarrow> stored_body crc v' ef' c = Some x)
     \<and> (r = Ok Written \<longrightarrow> stored_body crc v' ef' b = Some body
          \<and> v' = view_merge (ef_extent_id ef) (SetSize (of_nat (ef_write_offset ef')))
                   (view_put_blobs (ef_extent_id ef)
                      [(b, blob_index_new (of_nat (ef_write_offset ef)) (of_nat (length body)) (crc body))] v))
     \<and> (r = Ok AlreadyExists \<longrightarrow> d' = d \<and> ef' = ef \<and> stored_body crc v ef b \<noteq> None)
     \<and> (\<forall>err. r = Err err \<longrightarrow> d' = d)"
proof -
  let ?e = "ef_extent_id ef"
  have off: "ef_write_offset ef \<le> length (ef_file ef)" using assms(2) by (simp add: extent_ok_def)
  then have ext0: "extends ef ef" by (simp add: extends_def)
  show ?thesis using assms(1) off assms(3-5)
  proof (cases rule: write_blob_cases)
    case 1
    then show ?thesis using assms(1) extends_ok [OF assms(2) 1(3)] by (intro exI [of _ v]) auto
  next
    case 2
    then show ?thesis using assms(1,2) ext0 stored_body_cases [OF assms(2), of b] by (intro exI [of _ v]) auto
  next
    case (3 m)
    let ?i = "blob_index_new (of_nat (ef_write_offset ef)) (of_nat (length body)) (crc body)"
    let ?v = "view_merge ?e (SetSize (of_nat (ef_write_offset ef'))) (view_put_blobs ?e [(b, ?i)] v)"
    have entries: "iv_blob v ?e c = None \<and> (\<exists>body. entry_at crc ef' c j body)" if "(c, j) \<in> set [(b, ?i)]" for c j
      using that 3(2,5) by auto
    have rel': "index_rel d' ?v" unfolding 3(6) by (rule commit_blobs_rel [OF assms(1) 3(1)])
    have id: "ef_extent_id ef' = ?e" using 3(4) by (simp add: extends_def)
    have "stored_body crc ?v ef' b = Some body"
      using 3(5) by (intro stored_body_entry) (simp_all add: id view_put_blobs_lookup)
    moreover have "distinct (map fst [(b, ?i)])" by simp
    note com = commit_extent_ok [OF assms(2) 3(4) refl this entries, where sz = "of_nat (ef_write_offset ef')"]
    ultimately show ?thesis using rel' com 3(3,4) by (intro exI [of _ ?v]) simp
  qed
qed

section \<open>Properties\<close>

text \<open>A new extent in an otherwise empty index, for the witnesses.\<close>

definition new_meta :: extent_meta where
  "new_meta = \<lparr>em_shard_id = ShardId 0, em_status = Writable, em_size = 4096, em_deleted_bytes = 0, em_create_ts = 9\<rparr>"

definition new_db :: db where
  "new_db = install_extent (ExtentId 9) new_meta [] fmempty"

definition new_view :: index_view where
  "new_view = view_bind (ShardId 0) (ExtentId 9) (view_put_meta (ExtentId 9) new_meta empty_view)"

definition new_extent :: "checksum \<Rightarrow> extent_file" where
  "new_extent crc = \<lparr>ef_file = extent_header_encode crc (ExtentId 9), ef_extent_id = ExtentId 9,
                     ef_write_offset = EXTENT_HEADER_LEN\<rparr>"

lemma new_extent_facts:
  "index_rel new_db new_view" "extent_ok crc new_view (new_extent crc)"
  "ef_extent_id (new_extent crc) = ExtentId 9" "ef_write_offset (new_extent crc) = 4096"
  "iv_meta new_view (ExtentId 9) = Some new_meta"
proof -
  show "index_rel new_db new_view"
    using install_extent_rel [OF index_rel_empty, of "ExtentId 9" new_meta "[]"]
    by (simp add: new_db_def new_view_def new_meta_def)
  show "extent_ok crc new_view (new_extent crc)"
    by (simp add: extent_ok_def new_view_def new_extent_def view_defs empty_view_def extent_header.enc_length)
  show "iv_meta new_view (ExtentId 9) = Some new_meta"
    by (simp add: new_view_def view_defs empty_view_def)
qed (simp_all add: new_extent_def EXTENT_HEADER_LEN_def)


definition sample_batch :: "write_request list" where
  "sample_batch = [\<lparr>wq_blob = BlobId 3, wq_body = [1, 2], wq_reply = 0\<rparr>, \<lparr>wq_blob = BlobId 3, wq_body = [1, 2], wq_reply = 1\<rparr>]"

lemma sample_batch_space: "ef_write_offset (new_extent crc) + batch_space sample_batch < 2 ^ 64"
  by (simp add: new_extent_facts batch_space_def sample_batch_def record_len_def body_of_record_def record_on_disk_len_def
      next_multiple_of_def div_ceil_def RECORD_HEADER_LEN_def RECORD_FOOTER_LEN_def RECORD_ALIGN_def)






text \<open>A request that repeats a blob of its batch is answered \<open>AlreadyExists\<close> at once, before the group
  commit: when the \<open>fsync\<close> fails, it has acknowledged a blob that is not in the index.\<close>

theorem duplicate_acknowledged_before_commit:
  assumes "sync_fault fl = Some k" and "append_fault fl = (\<lambda>_. None)"
  shows "\<exists>rs d' ef'. process_batch crc fl sample_batch new_db (new_extent crc) = (rs, d', ef')
     \<and> (1, Ok AlreadyExists) \<in> set rs \<and> get_blob d' (ExtentId 9) (BlobId 3) = Ok None"
proof -
  let ?ef = "new_extent crc"
  have fits: "record_fits (BlobId 3, extent_shard_id (ExtentId 9), [1, 2])"
    and off: "ef_write_offset ?ef \<le> length (ef_file ?ef)"
    using new_extent_facts(2) by (auto simp: record_fits_def body_of_record_def extent_ok_def)
  have "load_writable_meta new_db (ExtentId 9) = Ok ()" "get_blob new_db (ExtentId 9) (BlobId 3) = Ok None"
    using new_extent_facts(1,5)
    by (auto simp: load_writable_meta_def writable_gate_def new_meta_def new_view_def view_defs empty_view_def)
  then show ?thesis
    using assms append_record_at_cursor [OF fits off, of crc]
    by (simp add: process_batch_def sample_batch_def batch_request_def batch_reply_def new_extent_facts
        append_on_def extent_sync_def commit_group_def Let_def)
qed

end
