(* ===== verification/Store_Disk.thy ===== *)
theory Store_Disk
  imports Store_Write
begin

text \<open>
  One data disk, \<open>crates/epoch-store/src/disk.rs\<close>: the two-copy superblock file, the names of extent
  files, the trash directory, loading and formatting. A directory is a finite map from file names
  to contents. Read-only opens (\<open>io_pool.rs\<close>) are here too; the descriptor cache in front of them
  has its own theory. The free-space query is a system call and is not modelled.
\<close>

definition SUPERBLOCK_FILE_SIZE :: nat where "SUPERBLOCK_FILE_SIZE = 2 * SUPERBLOCK_SIZE"

record disk =
  dk_superblock_file :: "bytes option"
  dk_superblock :: superblock
  dk_extents :: "(bytes, bytes) kv"
  dk_trash :: "(bytes, bytes) kv"

text \<open>The name of an extent file: two lower-case hexadecimal digits per byte of the id.\<close>

definition hex_digit :: "nat \<Rightarrow> byte" where
  "hex_digit n = (if n < 10 then 0x30 + of_nat n else 0x57 + of_nat n)"

definition hex_byte :: "byte \<Rightarrow> bytes" where
  "hex_byte b = [hex_digit (unat b div 16), hex_digit (unat b mod 16)]"

definition extent_file_name :: "extent_id \<Rightarrow> bytes" where
  "extent_file_name e = concat (map hex_byte (extent_as_bytes e))"

definition write_superblock :: "checksum \<Rightarrow> superblock \<Rightarrow> bytes option \<Rightarrow> bytes" where
  "write_superblock crc sb existing =
     (let bs = superblock_encode crc sb;
          f0 = set_len SUPERBLOCK_FILE_SIZE (case existing of None \<Rightarrow> [] | Some f \<Rightarrow> f);
          f1 = write_all_at bs SUPERBLOCK_SIZE f0
      in write_all_at bs 0 f1)"

definition read_superblock :: "checksum \<Rightarrow> bytes \<Rightarrow> (disk_error, superblock) result" where
  "read_superblock crc f =
     (case superblock_decode crc f of
        Ok sb \<Rightarrow> Ok sb
      | Err head_err \<Rightarrow>
          ok_or (D_SuperblockUnreadable head_err)
            (if SUPERBLOCK_SIZE \<le> length f
             then (case superblock_decode crc (drop SUPERBLOCK_SIZE f) of Ok sb \<Rightarrow> Some sb | Err _ \<Rightarrow> None)
             else None))"

text \<open>The contents of a root directory: the superblock file, the extent files and the trash.\<close>

record disk_root =
  dr_superblock_file :: "bytes option"
  dr_extents :: "(bytes, bytes) kv"
  dr_trash :: "(bytes, bytes) kv"

definition disk_format :: "checksum \<Rightarrow> superblock \<Rightarrow> disk_root \<Rightarrow> disk" where
  "disk_format crc sb root =
     \<lparr>dk_superblock_file = Some (write_superblock crc sb (dr_superblock_file root)), dk_superblock = sb,
      dk_extents = dr_extents root, dk_trash = dr_trash root\<rparr>"

definition disk_load :: "checksum \<Rightarrow> u128 \<Rightarrow> disk_root \<Rightarrow> (disk_error, disk) result" where
  "disk_load crc expected_cluster_id root =
     (case dr_superblock_file root of
        None \<Rightarrow> Err D_Unregistered
      | Some f \<Rightarrow>
          and_then (read_superblock crc f) (\<lambda>sb.
            if sb_cluster_id sb \<noteq> expected_cluster_id
            then Err (D_ClusterMismatch (sb_cluster_id sb) expected_cluster_id)
            else Ok \<lparr>dk_superblock_file = Some f, dk_superblock = sb,
                     dk_extents = dr_extents root, dk_trash = dr_trash root\<rparr>))"

definition disk_id_of :: "disk \<Rightarrow> disk_id" where
  "disk_id_of dk = sb_disk_id (dk_superblock dk)"

definition extent_bytes :: "disk \<Rightarrow> extent_id \<Rightarrow> bytes option" where
  "extent_bytes dk e = fmlookup (dk_extents dk) (extent_file_name e)"

definition put_extent_bytes :: "extent_id \<Rightarrow> bytes \<Rightarrow> disk \<Rightarrow> disk" where
  "put_extent_bytes e f dk = dk\<lparr>dk_extents := fmupd (extent_file_name e) f (dk_extents dk)\<rparr>"

definition move_extent_to_trash :: "extent_id \<Rightarrow> disk \<Rightarrow> (disk_error, disk) result" where
  "move_extent_to_trash e dk =
     (case extent_bytes dk e of
        None \<Rightarrow> Err (D_Io IoNotFound)
      | Some f \<Rightarrow> Ok (dk\<lparr>dk_extents := fmdrop (extent_file_name e) (dk_extents dk),
                       dk_trash := fmupd (extent_file_name e) f (dk_trash dk)\<rparr>))"

text \<open>The order in which a directory is listed is the file system's, a parameter.\<close>

type_synonym dir_order = "(bytes \<times> bytes) list \<Rightarrow> (bytes \<times> bytes) list"

definition list_extent_paths :: "dir_order \<Rightarrow> disk \<Rightarrow> (bytes \<times> bytes) list" where
  "list_extent_paths ord dk = ord (kv_entries (dk_extents dk))"

definition open_read :: "checksum \<Rightarrow> disk \<Rightarrow> extent_id \<Rightarrow> (store_error, extent_file) result" where
  "open_read crc dk e =
     (case extent_bytes dk e of
        None \<Rightarrow> Err (SE_ExtentNotFound e)
      | Some f \<Rightarrow> map_err SE_Extent (extent_open crc f))"

section \<open>Names\<close>

lemma hex_digit_inject: "m < 16 \<Longrightarrow> n < 16 \<Longrightarrow> hex_digit m = hex_digit n \<longleftrightarrow> m = n"
proof -
  have small: "unat (hex_digit k) = (if k < 10 then 0x30 + k else 0x57 + k)" if "k < 16" for k
    using that by (auto simp: hex_digit_def unat_word_ariths unsigned_of_nat take_bit_nat_def)
  assume mn: "m < 16" "n < 16"
  have "m = n" if "hex_digit m = hex_digit n"
    using arg_cong [OF that, of unat] small [OF mn(1)] small [OF mn(2)] by (auto split: if_splits)
  then show ?thesis by auto
qed

lemma hex_byte_inject: "hex_byte a = hex_byte b \<longleftrightarrow> a = b"
proof
  assume "hex_byte a = hex_byte b"
  moreover have "unat x < 256" for x :: byte using unsigned_less [of x, where ?'a = nat] by simp
  then have "unat x div 16 < 16" for x :: byte by (simp add: less_mult_imp_div_less)
  ultimately have "unat a div 16 = unat b div 16" "unat a mod 16 = unat b mod 16"
    by (simp_all add: hex_byte_def hex_digit_inject)
  then have "unat a = unat b" by (metis mult_div_mod_eq)
  then show "a = b" by (rule unsigned_word_eqI)
qed simp

lemma concat_hex_inject: "concat (map hex_byte xs) = concat (map hex_byte ys) \<longleftrightarrow> xs = ys"
proof (induction xs arbitrary: ys)
  case (Cons x xs)
  show ?case
  proof (cases ys)
    case (Cons y ys')
    have "length (hex_byte x) = length (hex_byte y)" by (simp add: hex_byte_def)
    then show ?thesis using Cons Cons.IH by (simp add: hex_byte_inject append_eq_append_conv)
  qed (simp add: hex_byte_def)
qed (case_tac ys; simp add: hex_byte_def)

lemma extent_file_name_inject [simp]: "extent_file_name a = extent_file_name b \<longleftrightarrow> a = b"
  by (simp add: extent_file_name_def concat_hex_inject extent_as_bytes_inject)

lemma extent_bytes_simps [simp]:
  "extent_bytes (put_extent_bytes e f dk) e' = (if e' = e then Some f else extent_bytes dk e')"
  by (auto simp: extent_bytes_def put_extent_bytes_def)

section \<open>The superblock file\<close>

lemma length_superblock [simp]: "length (superblock_encode crc sb) = SUPERBLOCK_SIZE"
  by (rule superblock.enc_length)

lemma write_superblock_new: "write_superblock crc sb existing = superblock_encode crc sb @ superblock_encode crc sb"
proof -
  let ?bs = "superblock_encode crc sb"
  define f where "f = set_len SUPERBLOCK_FILE_SIZE (case existing of None \<Rightarrow> [] | Some g \<Rightarrow> g)"
  have len: "length f = SUPERBLOCK_SIZE + SUPERBLOCK_SIZE"
    by (auto simp: f_def set_len_def SUPERBLOCK_FILE_SIZE_def split: option.splits)
  then have "write_all_at ?bs SUPERBLOCK_SIZE f = take SUPERBLOCK_SIZE f @ ?bs"
    by (simp add: write_all_at_def)
  then show ?thesis
    using len by (simp add: write_superblock_def f_def [symmetric] Let_def write_all_at_def)
qed

lemma superblock_decode_head:
  "length h = SUPERBLOCK_SIZE \<Longrightarrow> superblock_decode crc (h @ rest) = superblock_decode crc h"
  by (simp add: superblock_decode_def)

lemma read_superblock_copies:
  assumes "length h = SUPERBLOCK_SIZE"
  shows "read_superblock crc (h @ superblock_encode crc sb @ rest)
           = (case superblock_decode crc h of Ok sb' \<Rightarrow> Ok sb' | Err _ \<Rightarrow> Ok sb)"
  using assms superblock.dec_enc [of crc sb rest]
  by (cases "superblock_decode crc h") (simp_all add: read_superblock_def superblock_decode_head)

lemma read_written_superblock: "read_superblock crc (write_superblock crc sb existing) = Ok sb"
  using read_superblock_copies [of "superblock_encode crc sb" crc sb "[]"]
  by (simp add: write_superblock_new superblock.dec_exact)


definition sample_superblock :: "u32 \<Rightarrow> superblock" where
  "sample_superblock d = \<lparr>sb_disk_id = DiskId d, sb_cluster_id = 1, sb_created_at = 0, sb_flags = 0, sb_extent_size = 4096\<rparr>"


end
