(* ===== verification/Store_Compact.thy ===== *)
theory Store_Compact
  imports Store_Disk
begin

text \<open>
  Maintenance of one disk in \<open>crates/epoch-store/src\<close>: compaction of an extent into a fresh one
  (\<open>compact.rs\<close>), scrubbing and reclamation (\<open>scrub.rs\<close>). The state is the disk, the index and the
  map of open extent files; the rate limiter only delays and has its own theory. The main lemma is
  that a compaction keeps the body of every live blob, drops the deleted ones, and touches no other extent.
\<close>

record compact_outcome =
  co_new_extent :: extent_id
  co_live_blobs :: nat
  co_reclaimed_bytes :: u64

definition should_compact :: "extent_meta \<Rightarrow> byte \<Rightarrow> bool" where
  "should_compact m ratio_percent \<longleftrightarrow>
     em_deleted_bytes m > 0
     \<and> saturating_mul (em_deleted_bytes m) 100 \<ge> saturating_mul (em_size m) (ucast ratio_percent)"

type_synonym open_extents = "(extent_id, extent_file) kv"

definition reclaim_extent ::
    "extent_id \<Rightarrow> disk \<Rightarrow> db \<Rightarrow> open_extents \<Rightarrow> (store_error, unit) result \<times> disk \<times> db \<times> open_extents" where
  "reclaim_extent e dk d xs =
     (let xs' = fmdrop e xs in
      case move_extent_to_trash e dk of
        Ok dk' \<Rightarrow> (Ok (), dk', remove_extent e d, xs')
      | Err (D_Io IoNotFound) \<Rightarrow> (Ok (), dk, remove_extent e d, xs')
      | Err err \<Rightarrow> (Err (SE_Disk err), dk, d, xs'))"

text \<open>Step 3: copying the live blobs from the source handle into the destination.\<close>

fun copy_live ::
    "checksum \<Rightarrow> io_faults \<Rightarrow> open_extents \<Rightarrow> extent_id \<Rightarrow> (blob_id \<times> blob_index) list \<Rightarrow> db \<Rightarrow> extent_file
       \<Rightarrow> (store_error, unit) result \<times> db \<times> extent_file" where
  "copy_live crc fl xs e [] d dest = (Ok (), d, dest)"
| "copy_live crc fl xs e ((b, i) # live) d dest =
     (case fmlookup xs e of
        None \<Rightarrow> (Err (SE_ExtentNotFound e), d, dest)
      | Some src \<Rightarrow>
          (case read_record crc (unat (bi_offset i)) src of
             Err err \<Rightarrow> (Err (SE_Extent err), d, dest)
           | Ok (_, body) \<Rightarrow>
               (case write_blob crc fl b body d dest of
                  (Err err, d', dest') \<Rightarrow> (Err err, d', dest')
                | (Ok _, d', dest') \<Rightarrow> copy_live crc fl xs e live d' dest')))"

definition live_list :: "(blob_id \<times> blob_index) list \<Rightarrow> (blob_id \<times> blob_index) list" where
  "live_list xs = filter (\<lambda>(_, i). \<not> is_tombstoned i) xs"

definition dead_list :: "(blob_id \<times> blob_index) list \<Rightarrow> blob_id list" where
  "dead_list xs = map fst (filter (\<lambda>(_, i). is_tombstoned i) xs)"

text \<open>Steps 4 and 5, once the copies are in place: the binding swap and the retirement of the source.\<close>

definition compact_finish ::
    "shard_id \<Rightarrow> extent_id \<Rightarrow> extent_id \<Rightarrow> extent_meta \<Rightarrow> nat \<Rightarrow> extent_file \<Rightarrow> disk \<Rightarrow> db \<Rightarrow> open_extents
       \<Rightarrow> (store_error, compact_outcome) result \<times> disk \<times> db \<times> open_extents" where
  "compact_finish shard e new_id src_meta n_live dest dk d xs =
     (case list_blobs d e of
        Err err \<Rightarrow> (Err (SE_Index err), dk, d, xs)
      | Ok blobs \<Rightarrow>
          (case swap_shard_binding_with shard new_id e (dead_list blobs) d of
             Err err \<Rightarrow> (Err (SE_Index err), dk, d, xs)
           | Ok d1 \<Rightarrow>
               (case reclaim_extent e dk d1 (fmupd new_id dest xs) of
                  (Err err, dk2, d2, xs2) \<Rightarrow> (Err err, dk2, d2, xs2)
                | (Ok _, dk2, d2, xs2) \<Rightarrow>
                    (Ok \<lparr>co_new_extent = new_id, co_live_blobs = n_live,
                         co_reclaimed_bytes = saturating_sub (em_size src_meta) (of_nat (ef_write_offset dest))\<rparr>,
                     dk2, d2, xs2))))"

definition compact_extent ::
    "checksum \<Rightarrow> io_faults \<Rightarrow> extent_id \<Rightarrow> i64 \<Rightarrow> disk \<Rightarrow> db \<Rightarrow> open_extents
       \<Rightarrow> (store_error, compact_outcome) result \<times> disk \<times> db \<times> open_extents" where
  "compact_extent crc fl e new_create_ts dk d xs =
     (case and_then (map_err SE_Index (get_extent_meta d e)) (ok_or (SE_ExtentNotFound e)) of
        Err err \<Rightarrow> (Err err, dk, d, xs)
      | Ok src_meta \<Rightarrow>
          if em_status src_meta \<noteq> Writable \<and> em_status src_meta \<noteq> Full
          then (Err (SE_NotWritable (em_status src_meta)), dk, d, xs)
          else
            let shard = extent_shard_id e in
            case list_blobs d e of
              Err err \<Rightarrow> (Err (SE_Index err), dk, d, xs)
            | Ok blobs \<Rightarrow>
                let live = live_list blobs in
                case set_extent_status e Full d of
                  Err err \<Rightarrow> (Err (SE_Index err), dk, d, xs)
                | Ok d1 \<Rightarrow>
                    let new_id = extent_new shard new_create_ts in
                    case extent_create crc (extent_bytes dk new_id) new_id of
                      Err err \<Rightarrow> (Err (SE_Extent err), dk, d1, xs)
                    | Ok dest \<Rightarrow>
                        let d2 = put_extent_meta new_id
                                   \<lparr>em_shard_id = shard, em_status = Writable, em_size = of_nat (ef_write_offset dest),
                                    em_deleted_bytes = 0, em_create_ts = new_create_ts\<rparr> d1
                        in case copy_live crc fl xs e live d2 dest of
                             (Err err, d3, dest') \<Rightarrow> (Err err, put_extent_bytes new_id (ef_file dest') dk, d3, xs)
                           | (Ok _, d3, dest') \<Rightarrow>
                               compact_finish shard e new_id src_meta (length live) dest'
                                 (put_extent_bytes new_id (ef_file dest') dk) d3 xs)"

section \<open>Scrubbing and reclamation\<close>

record scrub_report =
  sr_extent :: extent_id
  sr_scanned :: nat
  sr_corrupt :: "blob_id list"

definition is_clean :: "scrub_report \<Rightarrow> bool" where
  "is_clean r \<longleftrightarrow> sr_corrupt r = []"

fun scrub_loop ::
    "checksum \<Rightarrow> extent_file \<Rightarrow> (blob_id \<times> blob_index) list \<Rightarrow> nat \<Rightarrow> blob_id list
       \<Rightarrow> (store_error, nat \<times> blob_id list) result" where
  "scrub_loop crc ef [] scanned corrupt = Ok (scanned, corrupt)"
| "scrub_loop crc ef ((b, i) # blobs) scanned corrupt =
     (if is_tombstoned i then scrub_loop crc ef blobs scanned corrupt
      else
        case read_record crc (unat (bi_offset i)) ef of
          Ok _ \<Rightarrow> scrub_loop crc ef blobs (scanned + 1) corrupt
        | Err (X_BodyChecksum _) \<Rightarrow> scrub_loop crc ef blobs (scanned + 1) (corrupt @ [b])
        | Err (X_Record _ _) \<Rightarrow> scrub_loop crc ef blobs (scanned + 1) (corrupt @ [b])
        | Err other \<Rightarrow> Err (SE_Extent other))"

definition scrub_extent :: "checksum \<Rightarrow> db \<Rightarrow> extent_file \<Rightarrow> (store_error, scrub_report) result" where
  "scrub_extent crc d ef =
     and_then (map_err SE_Index (list_blobs d (ef_extent_id ef))) (\<lambda>blobs.
     and_then (scrub_loop crc ef blobs 0 []) (\<lambda>(scanned, corrupt).
     Ok \<lparr>sr_extent = ef_extent_id ef, sr_scanned = scanned, sr_corrupt = corrupt\<rparr>))"

fun reclaim_all ::
    "extent_id list \<Rightarrow> disk \<Rightarrow> db \<Rightarrow> open_extents \<Rightarrow> (store_error, unit) result \<times> disk \<times> db \<times> open_extents" where
  "reclaim_all [] dk d xs = (Ok (), dk, d, xs)"
| "reclaim_all (e # es) dk d xs =
     (case reclaim_extent e dk d xs of
        (Err err, dk', d', xs') \<Rightarrow> (Err err, dk', d', xs')
      | (Ok _, dk', d', xs') \<Rightarrow> reclaim_all es dk' d' xs')"

definition reclaim_dropped ::
    "disk \<Rightarrow> db \<Rightarrow> open_extents \<Rightarrow> (store_error, extent_id list) result \<times> disk \<times> db \<times> open_extents" where
  "reclaim_dropped dk d xs =
     (case list_extents d of
        Err err \<Rightarrow> (Err (SE_Index err), dk, d, xs)
      | Ok extents \<Rightarrow>
          let dropped = map fst (filter (\<lambda>(_, m). em_status m = Dropped) extents) in
          case reclaim_all dropped dk d xs of
            (Err err, dk', d', xs') \<Rightarrow> (Err err, dk', d', xs')
          | (Ok _, dk', d', xs') \<Rightarrow> (Ok dropped, dk', d', xs'))"

fun find_orphans :: "db \<Rightarrow> (extent_id \<times> extent_meta) list \<Rightarrow> extent_id list \<Rightarrow> (store_error, extent_id list) result" where
  "find_orphans d [] orphans = Ok orphans"
| "find_orphans d ((e, m) # extents) orphans =
     (if em_status m = Dropped then find_orphans d extents orphans
      else
        and_then (map_err SE_Index (get_shard_binding d (em_shard_id m))) (\<lambda>bound.
          find_orphans d extents (if bound \<noteq> Some e then orphans @ [e] else orphans)))"

definition reclaim_orphans ::
    "disk \<Rightarrow> db \<Rightarrow> open_extents \<Rightarrow> (store_error, extent_id list) result \<times> disk \<times> db \<times> open_extents" where
  "reclaim_orphans dk d xs =
     (case and_then (map_err SE_Index (list_extents d)) (\<lambda>extents. find_orphans d extents []) of
        Err err \<Rightarrow> (Err err, dk, d, xs)
      | Ok orphans \<Rightarrow>
          (case reclaim_all orphans dk d xs of
             (Err err, dk', d', xs') \<Rightarrow> (Err err, dk', d', xs')
           | (Ok _, dk', d', xs') \<Rightarrow> (Ok orphans, dk', d', xs')))"

section \<open>Copying\<close>

text \<open>A view that differs from another at most in the metadata and the entries of one extent.\<close>

definition same_off :: "extent_id \<Rightarrow> index_view \<Rightarrow> index_view \<Rightarrow> bool" where
  "same_off n v v' \<longleftrightarrow>
     iv_bind v' = iv_bind v \<and> (\<forall>x. x \<noteq> n \<longrightarrow> iv_meta v' x = iv_meta v x \<and> iv_blob v' x = iv_blob v x)"

lemma same_off_trans: "same_off n a b \<Longrightarrow> same_off n b c \<Longrightarrow> same_off n a c"
  by (simp add: same_off_def)

lemma entry_at_length: "entry_at crc ef b i body \<Longrightarrow> length body < 2 ^ 32 \<and> record_len (b, s, body) = record_on_disk_len (bi_size i)"
  by (auto simp: entry_at_def record_at_def record_fits_def record_len_def body_of_record_def)

lemma write_blob_fresh:
  assumes rel: "index_rel d v" and ok: "extent_ok crc v ef" and small: "length body < 2 ^ 32"
    and space: "ef_write_offset ef + record_len (b, ShardId 0, body) < 2 ^ 64"
    and meta: "iv_meta v (ef_extent_id ef) = Some m" "em_status m = Writable" and fresh: "iv_blob v (ef_extent_id ef) b = None"
  obtains d' ef' i where "write_blob crc no_faults b body d ef = (Ok Written, d', ef')"
    "index_rel d' (view_merge (ef_extent_id ef) (SetSize (of_nat (ef_write_offset ef'))) (view_put_blobs (ef_extent_id ef) [(b, i)] v))"
    "extends ef ef'" "ef_write_offset ef' = ef_write_offset ef + record_len (b, ShardId 0, body)"
    "entry_at crc ef' b i body" "\<not> is_tombstoned i"
proof -
  let ?e = "ef_extent_id ef" and ?s = "extent_shard_id (ef_extent_id ef)"
  let ?i = "blob_index_new (of_nat (ef_write_offset ef)) (of_nat (length body)) (crc body)"
  have off: "ef_write_offset ef \<le> length (ef_file ef)" using ok by (simp add: extent_ok_def)
  have sp: "ef_write_offset ef + record_len (b, ?s, body) < 2 ^ 64" and
    len: "record_len (b, ?s, body) = record_len (b, ShardId 0, body)"
    using space record_len_body [of b ?s body b "ShardId 0"] by simp_all
  have fits: "record_fits (b, ?s, body)" using small by (simp add: record_fits_def body_of_record_def)
  have gate: "load_writable_meta d ?e = Ok ()" "get_blob d ?e b = Ok None"
    using rel meta fresh by (simp_all add: load_writable_meta_def writable_gate_def)
  show thesis
  proof (rule append_on_cases [OF off small sp, of crc no_faults])
    fix e ef' assume "append_on crc no_faults b ?s body ef = (Err e, ef')"
    then show thesis using append_record_at_cursor [OF fits off] by (simp add: append_on_def no_faults_def)
  next
    fix ef' assume a: "append_on crc no_faults b ?s body ef = (Ok (ef_write_offset ef, crc body), ef')" "extends ef ef'"
      "ef_write_offset ef' = ef_write_offset ef + record_len (b, ?s, body)" "entry_at crc ef' b ?i body"
    then have "write_blob crc no_faults b body d ef
        = (Ok Written, commit_blobs ?e [(b, ?i)] (of_nat (ef_write_offset ef')) d, ef')"
      using gate small by (simp add: write_blob_def Let_def extent_sync_def no_faults_def commit_blob_def)
    moreover have "\<not> is_tombstoned ?i" by (simp add: is_tombstoned_def blob_index_new_def)
    moreover note commit_blobs_rel [OF rel meta(1), of "[(b, ?i)]" "of_nat (ef_write_offset ef')"]
    ultimately show thesis using a(2-4) unfolding len by (metis that)
  qed
qed

lemma copy_live_ok:
  assumes "fmlookup xs e = Some src" "n \<noteq> e" "index_rel d v" "extent_ok crc v dest" "ef_extent_id dest = n"
    and "iv_meta v n = Some m" "em_status m = Writable" "em_size m = of_nat (ef_write_offset dest)"
    and "distinct (map fst live)" "\<And>b i. (b, i) \<in> set live \<Longrightarrow> entry_at crc src b i (body b) \<and> iv_blob v n b = None"
    and "ef_write_offset dest + (\<Sum>(b, i) \<leftarrow> live. record_on_disk_len (bi_size i)) < 2 ^ 64"
  shows "\<exists>d' dest' v' m'. copy_live crc no_faults xs e live d dest = (Ok (), d', dest')
     \<and> index_rel d' v' \<and> extent_ok crc v' dest' \<and> extends dest dest' \<and> same_off n v v'
     \<and> iv_meta v' n = Some m' \<and> em_status m' = Writable \<and> em_size m' = of_nat (ef_write_offset dest') \<and> em_shard_id m' = em_shard_id m
     \<and> (\<forall>b. b \<notin> fst ` set live \<longrightarrow> iv_blob v' n b = iv_blob v n b)
     \<and> (\<forall>b. b \<in> fst ` set live \<longrightarrow> live_in v' n b \<and> stored_body crc v' dest' b = Some (body b))"
  using assms(3-)
proof (induction live arbitrary: d v dest m)
  case Nil
  then have "extends dest dest" by (simp add: extends_def extent_ok_def)
  then show ?case using Nil by (auto simp: same_off_def)
next
  case (Cons p live)
  obtain b i where p: "p = (b, i)" by (cases p)
  have entry: "entry_at crc src b i (body b)" and fresh: "iv_blob v n b = None" using Cons.prems(8) p by auto
  obtain s where rd: "read_record crc (unat (bi_offset i)) src = Ok (header_of (b, s, body b), body b)"
    using entry by (rule entry_at_read)
  have len: "length (body b) < 2 ^ 32" "record_len (b, ShardId 0, body b) = record_on_disk_len (bi_size i)"
    using entry_at_length [OF entry] by blast+
  have sp: "ef_write_offset dest + record_len (b, ShardId 0, body b) < 2 ^ 64" using Cons.prems(9) p len by simp
  have meta: "iv_meta v (ef_extent_id dest) = Some m" and fr: "iv_blob v (ef_extent_id dest) b = None"
    using Cons.prems fresh by simp_all
  obtain d1 dest1 j where w: "write_blob crc no_faults b (body b) d dest = (Ok Written, d1, dest1)"
    and rel1: "index_rel d1 (view_merge (ef_extent_id dest) (SetSize (of_nat (ef_write_offset dest1)))
                 (view_put_blobs (ef_extent_id dest) [(b, j)] v))"
    and ext: "extends dest dest1" and off: "ef_write_offset dest1 = ef_write_offset dest + record_len (b, ShardId 0, body b)"
    and ent1: "entry_at crc dest1 b j (body b)" "\<not> is_tombstoned j"
    by (rule write_blob_fresh [OF Cons.prems(1,2) len(1) sp meta Cons.prems(5) fr])
  let ?v1 = "view_merge n (SetSize (of_nat (ef_write_offset dest1))) (view_put_blobs n [(b, j)] v)"
  have rel1': "index_rel d1 ?v1" using rel1 Cons.prems(3) by simp
  have id1: "ef_extent_id dest1 = n" using ext Cons.prems(3) by (simp add: extends_def)
  have ok1: "extent_ok crc ?v1 dest1"
    using Cons.prems(3) fresh ent1(1) by (intro commit_extent_ok(1) [OF Cons.prems(2) ext]) auto
  have blob1: "iv_blob ?v1 n c = (if c = b then Some j else iv_blob v n c)" for c
    by (auto simp: view_put_blobs_lookup)
  have meta1: "iv_meta ?v1 n = Some (m\<lparr>em_size := of_nat (ef_write_offset dest1)\<rparr>)"
    using Cons.prems(4) by (simp add: view_merge_def)
  have notin: "b \<notin> fst ` set live" using Cons.prems(7) p by simp
  have "\<exists>d' dest' v' m'. copy_live crc no_faults xs e live d1 dest1 = (Ok (), d', dest')
     \<and> index_rel d' v' \<and> extent_ok crc v' dest' \<and> extends dest1 dest' \<and> same_off n ?v1 v'
     \<and> iv_meta v' n = Some m' \<and> em_status m' = Writable \<and> em_size m' = of_nat (ef_write_offset dest')
     \<and> em_shard_id m' = em_shard_id (m\<lparr>em_size := of_nat (ef_write_offset dest1)\<rparr>)
     \<and> (\<forall>b. b \<notin> fst ` set live \<longrightarrow> iv_blob v' n b = iv_blob ?v1 n b)
     \<and> (\<forall>b. b \<in> fst ` set live \<longrightarrow> live_in v' n b \<and> stored_body crc v' dest' b = Some (body b))"
  proof (rule Cons.IH [OF rel1' ok1 id1 meta1])
    fix c k assume "(c, k) \<in> set live"
    then show "entry_at crc src c k (body c) \<and> iv_blob ?v1 n c = None"
      using Cons.prems(8) notin p unfolding blob1 by force
  next
    show "ef_write_offset dest1 + (\<Sum>(b, i) \<leftarrow> live. record_on_disk_len (bi_size i)) < 2 ^ 64"
      using Cons.prems(9) p off len by simp
  qed (use Cons.prems in auto)
  then obtain d' dest' v' m' where ih: "copy_live crc no_faults xs e live d1 dest1 = (Ok (), d', dest')"
     "index_rel d' v'" "extent_ok crc v' dest'" "extends dest1 dest'" "same_off n ?v1 v'"
     "iv_meta v' n = Some m'" "em_status m' = Writable" "em_size m' = of_nat (ef_write_offset dest')" "em_shard_id m' = em_shard_id m"
     "\<And>b. b \<notin> fst ` set live \<Longrightarrow> iv_blob v' n b = iv_blob ?v1 n b"
     "\<And>b. b \<in> fst ` set live \<Longrightarrow> live_in v' n b \<and> stored_body crc v' dest' b = Some (body b)"
    by auto
  have run: "copy_live crc no_faults xs e (p # live) d dest = (Ok (), d', dest')"
    using assms(1) rd w ih(1) by (simp add: p)
  have id': "ef_extent_id dest' = n" using ih(4) id1 by (simp add: extends_def)
  have new: "iv_blob v' n b = Some j" using ih(10) [OF notin] unfolding blob1 by simp
  have "live_in v' n b" using new ent1(2) by (simp add: live_in_def)
  moreover have "stored_body crc v' dest' b = Some (body b)"
    using new id' entry_at_extends [OF ent1(1) ih(4)] by (intro stored_body_entry) simp_all
  moreover have "extends dest dest'" by (rule extends_trans [OF ext ih(4)])
  moreover have "same_off n v v'"
    using ih(5) by (simp add: same_off_def view_merge_def view_put_blobs_def)
  moreover have "iv_blob v' n c = iv_blob v n c" if "c \<notin> fst ` set (p # live)" for c
    using that ih(10) [of c] p unfolding blob1 by auto
  ultimately show ?case using run ih(2,3,6-9,11) p by auto
qed

section \<open>Compaction\<close>

lemma stored_body_found:
  assumes "extent_ok crc v ef" "iv_blob v (ef_extent_id ef) b = Some i"
  shows "entry_at crc ef b i (the (stored_body crc v ef b))" "stored_body crc v ef b = Some (the (stored_body crc v ef b))"
  by (rule stored_body_cases [OF assms(1), of b]; use assms(2) in simp)+

lemma list_blobs_live:
  assumes "index_rel d v" "list_blobs d e = Ok blobs"
  shows "(b, i) \<in> set blobs \<longleftrightarrow> iv_blob v e b = Some i" "distinct (map fst blobs)"
    "(b, i) \<in> set (live_list blobs) \<longleftrightarrow> iv_blob v e b = Some i \<and> \<not> is_tombstoned i"
    "b \<in> fst ` set (live_list blobs) \<longleftrightarrow> live_in v e b" "distinct (map fst (live_list blobs))"
    "b \<in> set (dead_list blobs) \<Longrightarrow> \<not> live_in v e b"
proof -
  have dist: "distinct (map fst blobs)" and mem': "\<forall>b i. (b, i) \<in> set blobs \<longleftrightarrow> iv_blob v e b = Some i"
    using list_blobs_rel [OF assms(1), of e] assms(2) by auto
  have mem: "(b, i) \<in> set blobs \<longleftrightarrow> iv_blob v e b = Some i" for b i using mem' by blast
  show "(b, i) \<in> set blobs \<longleftrightarrow> iv_blob v e b = Some i" "distinct (map fst blobs)" by (rule mem, rule dist)
  show "(b, i) \<in> set (live_list blobs) \<longleftrightarrow> iv_blob v e b = Some i \<and> \<not> is_tombstoned i"
    by (simp add: live_list_def mem)
  show "b \<in> fst ` set (live_list blobs) \<longleftrightarrow> live_in v e b"
    using mem by (force simp: live_list_def live_in_def split: option.splits)
  show "distinct (map fst (live_list blobs))" unfolding live_list_def by (rule distinct_filter_fst [OF dist])
  show "b \<in> set (dead_list blobs) \<Longrightarrow> \<not> live_in v e b"
    using mem by (force simp: dead_list_def live_in_def)
qed

lemma reclaim_extent_ok:
  "\<exists>dk'. reclaim_extent e dk d xs = (Ok (), dk', remove_extent e d, fmdrop e xs)
     \<and> extent_bytes dk' e = None \<and> (\<forall>x. x \<noteq> e \<longrightarrow> extent_bytes dk' x = extent_bytes dk x)"
  by (cases "extent_bytes dk e") (auto simp: reclaim_extent_def move_extent_to_trash_def extent_bytes_def)

lemma compact_finish_ok:
  assumes rel: "index_rel d v" and ne: "n \<noteq> e" and meta: "iv_meta v e = Some me" "iv_meta v n = Some mn"
    and sub: "\<And>b. iv_blob v n b \<noteq> None \<Longrightarrow> live_in v e b"
  shows "\<exists>out dk' d'. compact_finish shard e n src_meta k dest dk d xs = (Ok out, dk', d', fmdrop e (fmupd n dest xs))
     \<and> co_new_extent out = n \<and> index_rel d' (view_remove e (view_merge e (SetStatus Dropped) (view_bind shard n v)))
     \<and> extent_bytes dk' e = None \<and> (\<forall>x. x \<noteq> e \<longrightarrow> extent_bytes dk' x = extent_bytes dk x)"
proof -
  obtain blobs where blobs: "list_blobs d e = Ok blobs" using list_blobs_rel [OF rel] by blast
  have "\<not> live_in v n b" if "b \<in> set (dead_list blobs)" for b
    using list_blobs_live(6) [OF rel blobs that] sub [of b] by (auto simp: live_in_def split: option.splits)
  then have none: "carried_live v n (dead_list blobs) = []" by (simp add: carried_live_def filter_empty_conv)
  then have swap: "view_swap shard n e (dead_list blobs) v = view_merge e (SetStatus Dropped) (view_bind shard n v)"
    by (simp add: view_swap_def carried_size_def)
  obtain d1 where d1: "swap_shard_binding_with shard n e (dead_list blobs) d = Ok d1"
    "index_rel d1 (view_merge e (SetStatus Dropped) (view_bind shard n v))"
    using swap_shard_binding_with_rel [OF rel, of e n shard "dead_list blobs"] meta swap by auto
  obtain dk' where "reclaim_extent e dk d1 (fmupd n dest xs) = (Ok (), dk', remove_extent e d1, fmdrop e (fmupd n dest xs))"
    "extent_bytes dk' e = None" "\<forall>x. x \<noteq> e \<longrightarrow> extent_bytes dk' x = extent_bytes dk x"
    using reclaim_extent_ok by blast
  then show ?thesis
    using blobs d1(1) remove_extent_rel [OF d1(2)] by (simp add: compact_finish_def)
qed

lemma compact_extent_ok:
  assumes rel: "index_rel d v"
    and src: "fmlookup xs e = Some src" "ef_extent_id src = e" "extent_ok crc v src"
    and meta: "iv_meta v e = Some m" "em_status m = Writable \<or> em_status m = Full"
    and n: "n = extent_new (extent_shard_id e) ts"
    and fresh: "iv_meta v n = None" "\<And>b. iv_blob v n b = None" "extent_bytes dk n = None"
    and blobs: "list_blobs d e = Ok blobs"
    and space: "EXTENT_HEADER_LEN + (\<Sum>(b, i) \<leftarrow> live_list blobs. record_on_disk_len (bi_size i)) < 2 ^ 64"
  shows "\<exists>out dk' d' dest v' m'. compact_extent crc no_faults e ts dk d xs = (Ok out, dk', d', fmdrop e (fmupd n dest xs))
     \<and> co_new_extent out = n \<and> index_rel d' v' \<and> ef_extent_id dest = n \<and> extent_ok crc v' dest
     \<and> extent_bytes dk' n = Some (ef_file dest) \<and> extent_bytes dk' e = None
     \<and> (\<forall>x. x \<noteq> e \<and> x \<noteq> n \<longrightarrow> extent_bytes dk' x = extent_bytes dk x)
     \<and> iv_bind v' = (iv_bind v)(shard_prefix (extent_shard_id e) \<mapsto> n)
     \<and> iv_meta v' n = Some m' \<and> em_status m' = Writable \<and> em_size m' = of_nat (ef_write_offset dest)
     \<and> em_shard_id m' = extent_shard_id e
     \<and> iv_meta v' e = None \<and> (\<forall>b. iv_blob v' e b = None)
     \<and> (\<forall>x. x \<noteq> e \<and> x \<noteq> n \<longrightarrow> iv_meta v' x = iv_meta v x \<and> iv_blob v' x = iv_blob v x)
     \<and> (\<forall>b. live_in v' n b = live_in v e b
          \<and> stored_body crc v' dest b = (if live_in v e b then stored_body crc v src b else None))"
proof -
  have ne: "n \<noteq> e" using meta(1) fresh(1) by auto
  let ?shard = "extent_shard_id e" and ?live = "live_list blobs"
  let ?d1 = "apply_batch_op (BatchMerge (extent_key e) (merge_op_encode (SetStatus Full))) d"
  let ?v1 = "view_merge e (SetStatus Full) v"
  have st: "set_extent_status e Full d = Ok ?d1" using status_merge_rel(1) [OF rel] meta(1) by simp
  have rel1: "index_rel ?d1 ?v1" by (rule rel_merge [OF rel meta(1)])
  obtain dest where cr: "extent_create crc (extent_bytes dk n) n = Ok dest"
    and dest: "ef_extent_id dest = n" "ef_write_offset dest = EXTENT_HEADER_LEN" "ef_write_offset dest \<le> length (ef_file dest)"
    using fresh(3) extent_header.enc_length [of crc n] by (auto simp: extent_create_def write_all_at_def)
  define mn where "mn = \<lparr>em_shard_id = ?shard, em_status = Writable, em_size = of_nat (ef_write_offset dest),
                          em_deleted_bytes = 0, em_create_ts = ts\<rparr>"
  let ?d2 = "put_extent_meta n mn ?d1" and ?v2 = "view_put_meta n mn ?v1"
  have rel2: "index_rel ?d2 ?v2" unfolding put_extent_meta_def by (rule rel_put_meta [OF rel1])
  have blob2: "iv_blob ?v2 = iv_blob v" by (simp add: view_put_meta_def)
  have ok2: "extent_ok crc ?v2 dest" using dest fresh(2) by (simp add: extent_ok_def blob2)
  define body where "body = (\<lambda>b. the (stored_body crc v src b))"
  have entries: "entry_at crc src b i (body b) \<and> iv_blob ?v2 n b = None" if "(b, i) \<in> set ?live" for b i
  proof -
    have "iv_blob v (ef_extent_id src) b = Some i" using that list_blobs_live(3) [OF rel blobs] src(2) by simp
    then show ?thesis
      using stored_body_found [OF src(3)] fresh(2) by (simp add: blob2 body_def)
  qed
  have "\<exists>d' dest' v' m'. copy_live crc no_faults xs e ?live ?d2 dest = (Ok (), d', dest')
     \<and> index_rel d' v' \<and> extent_ok crc v' dest' \<and> extends dest dest' \<and> same_off n ?v2 v'
     \<and> iv_meta v' n = Some m' \<and> em_status m' = Writable \<and> em_size m' = of_nat (ef_write_offset dest') \<and> em_shard_id m' = em_shard_id mn
     \<and> (\<forall>b. b \<notin> fst ` set ?live \<longrightarrow> iv_blob v' n b = iv_blob ?v2 n b)
     \<and> (\<forall>b. b \<in> fst ` set ?live \<longrightarrow> live_in v' n b \<and> stored_body crc v' dest' b = Some (body b))"
  proof (rule copy_live_ok [OF src(1) ne rel2 ok2 dest(1)])
    show "iv_meta ?v2 n = Some mn" by (simp add: view_put_meta_def)
    show "em_status mn = Writable" "em_size mn = of_nat (ef_write_offset dest)" by (simp_all add: mn_def)
    show "distinct (map fst ?live)" by (rule list_blobs_live(5) [OF rel blobs])
    show "ef_write_offset dest + (\<Sum>(b, i) \<leftarrow> ?live. record_on_disk_len (bi_size i)) < 2 ^ 64"
      using space dest(2) by simp
  qed (rule entries)
  then obtain d3 dest3 v3 m3 where c0: "copy_live crc no_faults xs e ?live ?d2 dest = (Ok (), d3, dest3)
     \<and> index_rel d3 v3 \<and> extent_ok crc v3 dest3 \<and> extends dest dest3 \<and> same_off n ?v2 v3
     \<and> iv_meta v3 n = Some m3 \<and> em_status m3 = Writable \<and> em_size m3 = of_nat (ef_write_offset dest3) \<and> em_shard_id m3 = em_shard_id mn
     \<and> (\<forall>b. b \<notin> fst ` set ?live \<longrightarrow> iv_blob v3 n b = iv_blob ?v2 n b)
     \<and> (\<forall>b. b \<in> fst ` set ?live \<longrightarrow> live_in v3 n b \<and> stored_body crc v3 dest3 b = Some (body b))"
    by (elim exE)
  have c: "copy_live crc no_faults xs e ?live ?d2 dest = (Ok (), d3, dest3)"
     "index_rel d3 v3" "extent_ok crc v3 dest3" "extends dest dest3" "same_off n ?v2 v3"
     "iv_meta v3 n = Some m3" "em_status m3 = Writable" "em_size m3 = of_nat (ef_write_offset dest3)" "em_shard_id m3 = em_shard_id mn"
    using c0 by - (elim conjE, assumption)+
  have old: "\<forall>b. b \<notin> fst ` set ?live \<longrightarrow> iv_blob v3 n b = iv_blob ?v2 n b"
    and copied: "\<forall>b. b \<in> fst ` set ?live \<longrightarrow> live_in v3 n b \<and> stored_body crc v3 dest3 b = Some (body b)"
    using c0 by - (elim conjE, assumption)+
  have c10: "iv_blob v3 n b = None" if "b \<notin> fst ` set ?live" for b
    using old [rule_format, OF that] fresh(2) by (simp add: blob2)
  note c11 = copied [rule_format]
  have live_mem: "b \<in> fst ` set ?live \<longleftrightarrow> live_in v e b" for b by (rule list_blobs_live(4) [OF rel blobs])
  have e3: "iv_blob v3 e = iv_blob v e" "iv_meta v3 e = Some (m\<lparr>em_status := Full\<rparr>)"
    using c(5) ne meta(1) by (simp_all add: same_off_def blob2 view_put_meta_def view_merge_def)
  have sub: "live_in v3 e b" if "iv_blob v3 n b \<noteq> None" for b
    using that c10 [of b] live_mem [of b] e3(1) by (auto simp: live_in_def)
  have "\<exists>out dk' d'. compact_finish ?shard e n m (length ?live) dest3 (put_extent_bytes n (ef_file dest3) dk) d3 xs
        = (Ok out, dk', d', fmdrop e (fmupd n dest3 xs)) \<and> co_new_extent out = n
      \<and> index_rel d' (view_remove e (view_merge e (SetStatus Dropped) (view_bind ?shard n v3)))
      \<and> extent_bytes dk' e = None
      \<and> (\<forall>x. x \<noteq> e \<longrightarrow> extent_bytes dk' x = extent_bytes (put_extent_bytes n (ef_file dest3) dk) x)"
    by (rule compact_finish_ok [OF c(2) ne e3(2) c(6)]) (rule sub)
  then obtain out dk' d' where fin: "compact_finish ?shard e n m (length ?live) dest3 (put_extent_bytes n (ef_file dest3) dk) d3 xs
        = (Ok out, dk', d', fmdrop e (fmupd n dest3 xs))" "co_new_extent out = n"
      "index_rel d' (view_remove e (view_merge e (SetStatus Dropped) (view_bind ?shard n v3)))"
      "extent_bytes dk' e = None" "\<forall>x. x \<noteq> e \<longrightarrow> extent_bytes dk' x = extent_bytes (put_extent_bytes n (ef_file dest3) dk) x"
    by (elim exE conjE)
  let ?v' = "view_remove e (view_merge e (SetStatus Dropped) (view_bind ?shard n v3))"
  have run: "compact_extent crc no_faults e ts dk d xs = (Ok out, dk', d', fmdrop e (fmupd n dest3 xs))"
    using meta(2) unfolding compact_extent_def get_extent_meta_rel [OF rel] meta(1) blobs st Let_def n [symmetric] cr
    by (auto simp: c(1) [unfolded mn_def] fin(1) simp del: apply_batch_op.simps merge_op_encode.simps)
  have id3: "ef_extent_id dest3 = n" using c(4) dest(1) by (simp add: extends_def)
  have blob': "iv_blob ?v' n = iv_blob v3 n" using ne by (simp add: view_remove_def view_bind_def)
  have stored': "stored_body crc ?v' dest3 b = stored_body crc v3 dest3 b" for b
    by (simp add: stored_body_def id3 blob')
  have ok': "extent_ok crc ?v' dest3" using c(3) by (simp add: extent_ok_def id3 blob')
  have live': "live_in ?v' n b = live_in v e b
      \<and> stored_body crc ?v' dest3 b = (if live_in v e b then stored_body crc v src b else None)" for b
  proof (cases "live_in v e b")
    case True
    then obtain i where "iv_blob v (ef_extent_id src) b = Some i" using src(2) by (auto simp: live_in_def split: option.splits)
    then have "stored_body crc v src b = Some (body b)"
      using stored_body_found(2) [OF src(3)] by (simp add: body_def)
    then show ?thesis using True c11 [of b] live_mem [of b] by (simp add: stored' blob' live_in_def)
  next
    case False
    then have "iv_blob v3 n b = None" using c10 [of b] live_mem [of b] by blast
    then show ?thesis using False by (simp add: stored' blob' live_in_def) (simp add: stored_body_def id3)
  qed
  have frame: "iv_meta ?v' x = iv_meta v x \<and> iv_blob ?v' x = iv_blob v x" if "x \<noteq> e" "x \<noteq> n" for x
    using that c(5) by (simp add: view_remove_def view_merge_def view_bind_def same_off_def view_put_meta_def)
  show ?thesis
    apply (rule exI [of _ out], rule exI [of _ dk'], rule exI [of _ d'], rule exI [of _ dest3], rule exI [of _ ?v'], rule exI [of _ m3])
    using run fin(2-5) id3 ok' live' frame c(5-9) ne
    by (auto simp: view_remove_def view_merge_def view_bind_def same_off_def view_put_meta_def mn_def)
qed

text \<open>C13: compaction keeps every live blob and nothing else. Compacting a writable or full extent into a
  fresh id succeeds; afterwards the shard is bound to the new extent, whose file is on disk and holds
  exactly the blobs that were live in the source, with the same bodies and not deleted; deleted blobs
  stay deleted; the source's file, metadata and entries are gone; and every other extent, its
  metadata, its entries and its file are as before.\<close>

theorem compaction_keeps_live:
  assumes "index_rel d v"
    and "fmlookup xs e = Some src" "ef_extent_id src = e" "extent_ok crc v src"
    and "iv_meta v e = Some m" "em_status m = Writable \<or> em_status m = Full"
    and "n = extent_new (extent_shard_id e) ts"
    and "iv_meta v n = None" "\<And>b. iv_blob v n b = None" "extent_bytes dk n = None"
    and "list_blobs d e = Ok blobs"
    and "EXTENT_HEADER_LEN + (\<Sum>(b, i) \<leftarrow> live_list blobs. record_on_disk_len (bi_size i)) < 2 ^ 64"
  shows "\<exists>out dk' d' xs' dest. compact_extent crc no_faults e ts dk d xs = (Ok out, dk', d', xs')
     \<and> co_new_extent out = n \<and> fmlookup xs' n = Some dest
     \<and> extent_bytes dk' n = Some (ef_file dest) \<and> extent_bytes dk' e = None
     \<and> get_shard_binding d' (extent_shard_id e) = Ok (Some n) \<and> get_extent_meta d' e = Ok None
     \<and> (\<forall>b. read_blob crc d' dest b = (if live_in v e b then read_blob crc d src b else Ok None))
     \<and> (\<forall>b i. get_blob d' n b = Ok (Some i) \<longrightarrow> \<not> is_tombstoned i) \<and> (\<forall>b. get_blob d' e b = Ok None)
     \<and> (\<forall>x. x \<noteq> e \<and> x \<noteq> n \<longrightarrow> get_extent_meta d' x = get_extent_meta d x \<and> extent_bytes dk' x = extent_bytes dk x
           \<and> (\<forall>b. get_blob d' x b = get_blob d x b))"
proof -
  obtain out dk' d' dest v' m' where c: "compact_extent crc no_faults e ts dk d xs = (Ok out, dk', d', fmdrop e (fmupd n dest xs))"
     "co_new_extent out = n" "index_rel d' v'" "ef_extent_id dest = n" "extent_ok crc v' dest"
     "extent_bytes dk' n = Some (ef_file dest)" "extent_bytes dk' e = None"
     "\<forall>x. x \<noteq> e \<and> x \<noteq> n \<longrightarrow> extent_bytes dk' x = extent_bytes dk x"
     "iv_bind v' = (iv_bind v)(shard_prefix (extent_shard_id e) \<mapsto> n)"
     "iv_meta v' e = None" "\<forall>b. iv_blob v' e b = None"
     "\<forall>x. x \<noteq> e \<and> x \<noteq> n \<longrightarrow> iv_meta v' x = iv_meta v x \<and> iv_blob v' x = iv_blob v x"
     "\<forall>b. live_in v' n b = live_in v e b
          \<and> stored_body crc v' dest b = (if live_in v e b then stored_body crc v src b else None)"
    using compact_extent_ok [OF assms] by (elim exE conjE)
  have ne: "n \<noteq> e" using assms(5,8) by auto
  have dead: "\<not> is_tombstoned i" if "iv_blob v' n b = Some i" for b i
  proof -
    have "stored_body crc v' dest b \<noteq> None" using stored_body_found(2) [OF c(5), of b i] that c(4) by auto
    then have "live_in v' n b" using c(13) [rule_format, of b] by (auto split: if_splits)
    then show ?thesis using that by (simp add: live_in_def)
  qed
  have rd: "read_blob crc d' dest b = (if live_in v e b then read_blob crc d src b else Ok None)" for b
    using c(13) [rule_format, of b] unfolding read_blob_ok [OF c(3,5)] read_blob_ok [OF assms(1,4)] by simp
  show ?thesis
    by (rule exI [of _ out], rule exI [of _ dk'], rule exI [of _ d'], rule exI [of _ "fmdrop e (fmupd n dest xs)"], rule exI [of _ dest])
      (use c(1,2,6-12) rd dead ne get_extent_meta_rel [OF c(3)] get_blob_rel [OF c(3)] get_shard_binding_rel [OF c(3)]
        get_extent_meta_rel [OF assms(1)] get_blob_rel [OF assms(1)] in \<open>simp\<close>)
qed

lemma new_disk_free: "extent_bytes (disk_format crc sb \<lparr>dr_superblock_file = None, dr_extents = fmempty, dr_trash = fmempty\<rparr>) e = None"
  by (simp add: extent_bytes_def disk_format_def)

theorem compaction_keeps_live_witness:
  "\<exists>out dk' d' xs'. compact_extent (\<lambda>_. 0) no_faults (ExtentId 9) 7
       (disk_format (\<lambda>_. 0) (sample_superblock 1) \<lparr>dr_superblock_file = None, dr_extents = fmempty, dr_trash = fmempty\<rparr>)
       new_db (fmupd (ExtentId 9) (new_extent (\<lambda>_. 0)) fmempty) = (Ok out, dk', d', xs')
     \<and> get_extent_meta d' (ExtentId 9) = Ok None"
proof -
  let ?n = "extent_new (extent_shard_id (ExtentId 9)) 7"
  have ne: "?n \<noteq> ExtentId 9"
  proof
    assume "?n = ExtentId 9"
    then have "extent_create_ts (ExtentId 9) = 7" by (metis extent_fields(2))
    moreover have "extent_create_ts (ExtentId 9) \<noteq> 7" by code_simp
    ultimately show False by simp
  qed
  obtain blobs where blobs: "list_blobs new_db (ExtentId 9) = Ok blobs" "blobs = []"
    using list_blobs_rel [OF new_extent_facts(1), of "ExtentId 9"]
    by (auto simp: new_view_def view_defs empty_view_def) (metis list.set_intros(1) neq_Nil_conv prod.collapse)
  have facts: "fmlookup (fmupd (ExtentId 9) (new_extent (\<lambda>_. 0)) fmempty) (ExtentId 9) = Some (new_extent (\<lambda>_. 0))"
    "em_status new_meta = Writable \<or> em_status new_meta = Full" "iv_meta new_view ?n = None" "\<And>b. iv_blob new_view ?n b = None"
    "EXTENT_HEADER_LEN + (\<Sum>(b, i) \<leftarrow> live_list blobs. record_on_disk_len (bi_size i)) < 2 ^ 64"
    using ne blobs(2)
    by (simp_all add: new_meta_def new_view_def view_defs empty_view_def live_list_def EXTENT_HEADER_LEN_def)
  from compaction_keeps_live [OF new_extent_facts(1) facts(1) new_extent_facts(3,2,5) facts(2) refl facts(3,4) new_disk_free [of "\<lambda>_. 0" "sample_superblock 1"] blobs(1) facts(5)]
  show ?thesis by - (elim exE conjE, intro exI conjI, assumption+)
qed

section \<open>Scrubbing\<close>

text \<open>Whether the record behind an entry fails verification.\<close>

definition record_corrupt :: "checksum \<Rightarrow> extent_file \<Rightarrow> blob_index \<Rightarrow> bool" where
  "record_corrupt crc ef i \<longleftrightarrow>
     (case read_record crc (unat (bi_offset i)) ef of
        Err (X_Record _ _) \<Rightarrow> True
      | Err (X_BodyChecksum _) \<Rightarrow> True
      | _ \<Rightarrow> False)"

lemma read_record_errors:
  "read_record crc off ef = Err x \<Longrightarrow> (\<exists>k. x = X_Io k) \<or> (\<exists>e. x = X_Record off e) \<or> x = X_BodyChecksum off"
  by (auto simp: read_record_def read_exact_at_def result_simps split: if_splits)

lemma scrub_loop_spec:
  assumes "\<And>b i k. (b, i) \<in> set blobs \<Longrightarrow> \<not> is_tombstoned i \<Longrightarrow> read_record crc (unat (bi_offset i)) ef \<noteq> Err (X_Io k)"
  shows "scrub_loop crc ef blobs n bad
    = Ok (n + length (live_list blobs), bad @ map fst (filter (\<lambda>(_, i). record_corrupt crc ef i) (live_list blobs)))"
  using assms
proof (induction blobs arbitrary: n bad)
  case (Cons p blobs)
  obtain b i where p: "p = (b, i)" by (cases p)
  have ih: "scrub_loop crc ef blobs n bad
      = Ok (n + length (live_list blobs), bad @ map fst (filter (\<lambda>(_, i). record_corrupt crc ef i) (live_list blobs)))" for n bad
    using Cons.prems by (intro Cons.IH) (auto simp: p)
  show ?case
  proof (cases "is_tombstoned i")
    case True
    then show ?thesis by (simp add: p ih live_list_def)
  next
    case False
    consider r where "read_record crc (unat (bi_offset i)) ef = Ok r"
      | e where "read_record crc (unat (bi_offset i)) ef = Err (X_Record (unat (bi_offset i)) e)"
      | "read_record crc (unat (bi_offset i)) ef = Err (X_BodyChecksum (unat (bi_offset i)))"
    proof (cases "read_record crc (unat (bi_offset i)) ef")
      case (Inl x)
      then show thesis using read_record_errors [OF Inl] Cons.prems [of b i] False p that by auto
    qed (rule that(1))
    then show ?thesis
      by cases (use False in \<open>simp_all add: p ih live_list_def record_corrupt_def\<close>)
  qed
qed (simp add: live_list_def)

text \<open>C14: a scrub reports exactly the damaged blobs. When the file can be read, the scrub of an extent
  visits each live blob once and reports, in id order, exactly those whose record fails its header,
  footer or checksum verification; on an extent whose entries describe whole records it is clean.\<close>

theorem scrub_reports_corrupt:
  assumes "index_rel d v"
    and "\<And>b i k. iv_blob v (ef_extent_id ef) b = Some i \<Longrightarrow> \<not> is_tombstoned i \<Longrightarrow>
           read_record crc (unat (bi_offset i)) ef \<noteq> Err (X_Io k)"
  shows "\<exists>r. scrub_extent crc d ef = Ok r \<and> sorted (sr_corrupt r) \<and> distinct (sr_corrupt r)
     \<and> (\<forall>b. b \<in> set (sr_corrupt r) \<longleftrightarrow>
          (\<exists>i. iv_blob v (ef_extent_id ef) b = Some i \<and> \<not> is_tombstoned i \<and> record_corrupt crc ef i))
     \<and> (extent_ok crc v ef \<longrightarrow> is_clean r)"
proof -
  obtain blobs where bl: "list_blobs d (ef_extent_id ef) = Ok blobs"
    "\<forall>b i. (b, i) \<in> set blobs \<longleftrightarrow> iv_blob v (ef_extent_id ef) b = Some i" "sorted (map fst blobs)" "distinct (map fst blobs)"
    using list_blobs_rel [OF assms(1), of "ef_extent_id ef"] by blast
  let ?bad = "filter (\<lambda>(_, i). record_corrupt crc ef i) (live_list blobs)"
  have "scrub_loop crc ef blobs 0 [] = Ok (length (live_list blobs), map fst ?bad)"
    using assms(2) bl(2) by (subst scrub_loop_spec) auto
  then have run: "scrub_extent crc d ef = Ok \<lparr>sr_extent = ef_extent_id ef, sr_scanned = length (live_list blobs), sr_corrupt = map fst ?bad\<rparr>"
    using bl(1) by (simp add: scrub_extent_def)
  have srt: "sorted (map fst ?bad)" "distinct (map fst ?bad)"
    unfolding live_list_def by (intro sorted_filter_fst bl(3), intro distinct_filter_fst bl(4))
  have mem: "b \<in> set (map fst ?bad) \<longleftrightarrow>
      (\<exists>i. iv_blob v (ef_extent_id ef) b = Some i \<and> \<not> is_tombstoned i \<and> record_corrupt crc ef i)" for b
    using bl(2) by (force simp: live_list_def)
  have "map fst ?bad = []" if "extent_ok crc v ef"
  proof (rule ccontr)
    assume "map fst ?bad \<noteq> []"
    then obtain b where "b \<in> set (map fst ?bad)" by (meson last_in_set)
    then obtain i where i: "iv_blob v (ef_extent_id ef) b = Some i" "record_corrupt crc ef i" using mem by blast
    from stored_body_found(1) [OF that i(1)] show False
      by (rule entry_at_read) (use i(2) in \<open>simp add: record_corrupt_def\<close>)
  qed
  then show ?thesis using run srt mem by (intro exI conjI) (auto simp: is_clean_def)
qed

theorem scrub_reports_corrupt_witness:
  "\<exists>r. scrub_extent (\<lambda>_. 0) new_db (new_extent (\<lambda>_. 0)) = Ok r \<and> is_clean r"
  using scrub_reports_corrupt [OF new_extent_facts(1), of "new_extent (\<lambda>_. 0)" "\<lambda>_. 0"] new_extent_facts(2) [of "\<lambda>_. 0"]
  by (auto simp: new_view_def view_defs empty_view_def)

section \<open>Reclamation\<close>

lemma reclaim_all_ok:
  assumes "index_rel d v"
  shows "\<exists>dk' d' xs'. reclaim_all es dk d xs = (Ok (), dk', d', xs') \<and> index_rel d' (fold view_remove es v)
     \<and> (\<forall>x. extent_bytes dk' x = (if x \<in> set es then None else extent_bytes dk x))"
  using assms
proof (induction es arbitrary: dk d xs v)
  case (Cons e es)
  obtain dk1 where r: "reclaim_extent e dk d xs = (Ok (), dk1, remove_extent e d, fmdrop e xs)"
    "extent_bytes dk1 e = None" "\<forall>x. x \<noteq> e \<longrightarrow> extent_bytes dk1 x = extent_bytes dk x"
    using reclaim_extent_ok by blast
  from Cons.IH [OF remove_extent_rel [OF Cons.prems, of e], of dk1 "fmdrop e xs"] show ?case
    using r by fastforce
qed simp

lemma fold_view_remove:
  "iv_meta (fold view_remove es v) x = (if x \<in> set es then None else iv_meta v x)"
  "iv_blob (fold view_remove es v) x = (if x \<in> set es then (\<lambda>_. None) else iv_blob v x)"
  "iv_bind (fold view_remove es v) = iv_bind v"
  by (induction es arbitrary: v) (auto simp: view_remove_def)

lemma find_orphans_rel:
  assumes "index_rel d v"
  shows "find_orphans d extents acc = Ok (acc @ map fst (filter (\<lambda>(e, m). em_status m \<noteq> Dropped
           \<and> iv_bind v (shard_prefix (em_shard_id m)) \<noteq> Some e) extents))"
proof (induction extents arbitrary: acc)
  case (Cons p extents)
  then show ?case using assms by (cases p) simp
qed simp

end
