(* ===== verification/Rpc_Server.thy ===== *)
theory Rpc_Server
  imports Rpc_Codec "HOL-Library.AList"
begin

text \<open>
  The data-plane server of \<open>crates/epoch-rpc/src/server.rs\<close> and the in-process transport of
  \<open>crates/epoch-rpc/src/transport.rs\<close>. The trait \<open>ShardHandler\<close> is a record of state-passing
  functions over the handler's state \<open>'h\<close>. The map of open write streams is an association list
  with distinct keys; \<open>Instant::now()\<close> is an argument (milliseconds).
\<close>

section \<open>The handler interface\<close>

record 'h shard_handler =
  h_create_extent :: "create_extent_req \<Rightarrow> 'h \<Rightarrow> (epoch_error, extent_id) result \<times> 'h"
  h_open_blob :: "open_req \<Rightarrow> 'h \<Rightarrow> (epoch_error, extent_id) result \<times> 'h"
  h_commit_blob :: "extent_id \<Rightarrow> blob_id \<Rightarrow> u32 \<Rightarrow> end_req \<Rightarrow> bytes \<Rightarrow> 'h \<Rightarrow> (epoch_error, unit) result \<times> 'h"
  h_read_shard :: "read_shard_req \<Rightarrow> 'h \<Rightarrow> (epoch_error, bytes option) result \<times> 'h"
  h_seal_extent :: "seal_req \<Rightarrow> 'h \<Rightarrow> (epoch_error, unit) result \<times> 'h"
  h_delete_blob :: "delete_blob_req \<Rightarrow> 'h \<Rightarrow> (epoch_error, unit) result \<times> 'h"
  h_list_blobs :: "list_blobs_req \<Rightarrow> 'h \<Rightarrow> (epoch_error, blob_id list) result \<times> 'h"

section \<open>Dispatch\<close>

definition MAX_STREAM_BYTES :: nat where "MAX_STREAM_BYTES = 48 * 1024 * 1024"
definition MAX_OPEN_STREAMS :: nat where "MAX_OPEN_STREAMS = 128"
definition STREAM_IDLE_TIMEOUT :: nat where "STREAM_IDLE_TIMEOUT = 60000"

record write_accum =
  wa_extent :: extent_id
  wa_blob :: blob_id
  wa_buf :: bytes
  wa_frames :: u32
  wa_last_activity :: nat

type_synonym streams = "(u32 \<times> write_accum) list"

text \<open>A reply before it is framed: opcode, flags, stream and payload; \<open>None\<close> when none is sent.\<close>

type_synonym server_reply = "(pcode \<times> byte \<times> u32 \<times> bytes) option"

definition reply_error :: "u32 \<Rightarrow> epoch_error \<Rightarrow> server_reply" where
  "reply_error sid err = Some (P_Error, 0, sid, error_resp_encode (error_resp_from_error err))"

text \<open>\<open>reply\<close>: the header and payload on the wire, an I/O error for a payload of 4 GiB or more.\<close>

definition reply_bytes :: "checksum \<Rightarrow> nat \<Rightarrow> server_reply \<Rightarrow> (io_error, bytes) result" where
  "reply_bytes crc n r =
     (case r of
        None \<Rightarrow> Ok []
      | Some (pc, flags, sid, payload) \<Rightarrow>
          if length payload < 2 ^ 32
          then Ok (send_frame n (frame_header_encode crc
                 \<lparr>fh_pcode = to_u16 pc, fh_flags = flags, fh_stream_id = sid, fh_seq = 0, fh_session = 0,
                  fh_payload_len = of_nat (length payload), fh_trace_id = 0, fh_deadline_ms = 0\<rparr>) payload)
          else Err ReplyTooLarge)"

definition commit_stream ::
  "'h shard_handler \<Rightarrow> u32 \<Rightarrow> write_accum \<Rightarrow> end_req \<Rightarrow> 'h \<Rightarrow> 'h \<times> server_reply" where
  "commit_stream hdl sid acc fin h =
     (case h_commit_blob hdl (wa_extent acc) (wa_blob acc) (wa_frames acc) fin (wa_buf acc) h of
        (Inr _, h') \<Rightarrow> (h', Some (P_CommitAck, 0, sid, []))
      | (Inl err, h') \<Rightarrow> (h', reply_error sid err))"

text \<open>The one-shot requests: decode, call the handler, answer with its result or its error.\<close>

definition unary ::
  "streams \<Rightarrow> u32 \<Rightarrow> (codec_error, 'q) result \<Rightarrow> ('q \<Rightarrow> 'h \<Rightarrow> (epoch_error, 'a) result \<times> 'h) \<Rightarrow>
     ('a \<Rightarrow> pcode \<times> byte \<times> bytes) \<Rightarrow> 'h \<Rightarrow> streams \<times> 'h \<times> server_reply" where
  "unary strs sid decoded call ans h =
     (case decoded of
        Inr req \<Rightarrow>
          (case call req h of
             (Inr x, h') \<Rightarrow> (strs, h', case ans x of (pc, flags, payload) \<Rightarrow> Some (pc, flags, sid, payload))
           | (Inl err, h') \<Rightarrow> (strs, h', reply_error sid err))
      | Inl _ \<Rightarrow> (strs, h, reply_error sid E_Internal))"

definition dispatch ::
  "'h shard_handler \<Rightarrow> nat \<Rightarrow> frame_header \<Rightarrow> bytes \<Rightarrow> streams \<Rightarrow> 'h \<Rightarrow> streams \<times> 'h \<times> server_reply" where
  "dispatch hdl now header body strs h =
     (let sid = fh_stream_id header in
      case from_u16 (fh_pcode header) of
        Some P_CreateExtent \<Rightarrow>
          unary strs sid (create_extent_req_decode body) (h_create_extent hdl)
            (\<lambda>extent. (P_CreateExtentResp, 0, create_extent_resp_encode \<lparr>cep_extent_id = extent\<rparr>)) h
      | Some P_Open \<Rightarrow>
          (case open_req_decode body of
             Inr req \<Rightarrow>
               if MAX_OPEN_STREAMS \<le> length strs then (strs, h, reply_error sid E_Busy)
               else
                 (case h_open_blob hdl req h of
                    (Inr extent, h') \<Rightarrow>
                      (AList.update sid \<lparr>wa_extent = extent, wa_blob = or_blob_id req, wa_buf = [],
                                         wa_frames = 0, wa_last_activity = now\<rparr> strs,
                       h', Some (P_OpenAck, 0, sid, []))
                  | (Inl err, h') \<Rightarrow> (strs, h', reply_error sid err))
           | Inl _ \<Rightarrow> (strs, h, reply_error sid E_Internal))
      | Some P_Data \<Rightarrow>
          (case map_of strs sid of
             Some acc \<Rightarrow>
               if MAX_STREAM_BYTES < length (wa_buf acc) + length body
               then (AList.delete sid strs, h, reply_error sid E_Internal)
               else (AList.update sid (acc\<lparr>wa_buf := wa_buf acc @ body, wa_frames := wa_frames acc + 1,
                                          wa_last_activity := now\<rparr>) strs, h, None)
           | None \<Rightarrow> (strs, h, None))
      | Some P_Abort \<Rightarrow> (AList.delete sid strs, h, None)
      | Some P_End \<Rightarrow>
          (case end_req_decode body of
             Inl _ \<Rightarrow> (strs, h, reply_error sid E_Internal)
           | Inr fin \<Rightarrow>
               (case map_of strs sid of
                  Some acc \<Rightarrow> (AList.delete sid strs, commit_stream hdl sid acc fin h)
                | None \<Rightarrow> (strs, h, None)))
      | Some P_ReadShard \<Rightarrow>
          unary strs sid (read_shard_req_decode body) (h_read_shard hdl)
            (\<lambda>hit. case hit of Some bs \<Rightarrow> (P_ReadShardResp, FLAG_READ_HIT, bs)
                            | None \<Rightarrow> (P_ReadShardResp, 0, [])) h
      | Some P_Seal \<Rightarrow>
          unary strs sid (seal_req_decode body) (h_seal_extent hdl)
            (\<lambda>_. (P_SealResp, 0, seal_resp_encode ())) h
      | Some P_DeleteBlob \<Rightarrow>
          unary strs sid (delete_blob_req_decode body) (h_delete_blob hdl)
            (\<lambda>_. (P_DeleteBlobResp, 0, delete_blob_resp_encode ())) h
      | Some P_ListBlobs \<Rightarrow>
          unary strs sid (list_blobs_req_decode body) (h_list_blobs hdl)
            (\<lambda>ids. (P_ListBlobsResp, 0, list_blobs_resp_encode \<lparr>lp_blob_ids = ids\<rparr>)) h
      | None \<Rightarrow> (strs, h, reply_error sid E_Internal)
      | Some _ \<Rightarrow> (strs, h, None))"

text \<open>\<open>reap_idle\<close>, with the clock read at \<open>now\<close>.\<close>

definition reap_idle :: "nat \<Rightarrow> streams \<Rightarrow> streams" where
  "reap_idle now strs = filter (\<lambda>(_, acc). now - wa_last_activity acc < STREAM_IDLE_TIMEOUT) strs"

text \<open>
  The connection loop, on the bytes the peer sends. \<open>clock\<close> gives the two clock readings of each
  round, \<open>accepts\<close> the bytes the first vectored write of each reply takes. It ends when a frame
  cannot be read or a reply cannot be written.
\<close>

function handle_conn_loop ::
  "checksum \<Rightarrow> 'h shard_handler \<Rightarrow> (nat \<Rightarrow> nat) \<Rightarrow> (nat \<Rightarrow> nat) \<Rightarrow> nat \<Rightarrow> streams \<Rightarrow> nat \<Rightarrow> 'h \<Rightarrow> bytes \<Rightarrow> bytes
     \<Rightarrow> 'h \<times> bytes" where
  "handle_conn_loop crc hdl clock accepts k strs last_reap h input out =
     (case read_header crc input of
        Inl _ \<Rightarrow> (h, out)
      | Inr (header, s1) \<Rightarrow>
          (case read_body (fh_payload_len header) s1 of
             Inl _ \<Rightarrow> (h, out)
           | Inr (body, s2) \<Rightarrow>
               (case dispatch hdl (clock (2 * k)) header body strs h of
                  (strs', h', r) \<Rightarrow>
                    (case reply_bytes crc (accepts k) r of
                       Inl _ \<Rightarrow> (h', out)
                     | Inr bs \<Rightarrow>
                         let now = clock (2 * k + 1);
                             reap = STREAM_IDLE_TIMEOUT \<le> now - last_reap in
                         handle_conn_loop crc hdl clock accepts (Suc k)
                           (if reap then reap_idle now strs' else strs')
                           (if reap then now else last_reap) h' s2 (out @ bs)))))"
  by pat_completeness auto
termination
  by (relation "measure (\<lambda>(crc, hdl, clock, accepts, k, strs, lr, h, input, out). length input)")
    (auto dest!: read_header_shorter read_body_shorter simp: FRAME_HEADER_LEN_def)

declare handle_conn_loop.simps [simp del]

definition handle_conn ::
  "checksum \<Rightarrow> 'h shard_handler \<Rightarrow> (nat \<Rightarrow> nat) \<Rightarrow> (nat \<Rightarrow> nat) \<Rightarrow> nat \<Rightarrow> 'h \<Rightarrow> bytes \<Rightarrow> 'h \<times> bytes" where
  "handle_conn crc hdl clock accepts start h input =
     handle_conn_loop crc hdl clock accepts 0 [] start h input []"

section \<open>The in-process transport\<close>

record local_write_stream =
  lw_extent :: extent_id
  lw_blob :: blob_id
  lw_buf :: bytes
  lw_frames :: u32

definition local_open_write ::
  "'h shard_handler \<Rightarrow> open_req \<Rightarrow> 'h \<Rightarrow> (epoch_error, local_write_stream) result \<times> 'h" where
  "local_open_write hdl req h =
     (case h_open_blob hdl req h of
        (Inl e, h') \<Rightarrow> (Inl e, h')
      | (Inr extent, h') \<Rightarrow>
          (Inr \<lparr>lw_extent = extent, lw_blob = or_blob_id req, lw_buf = [], lw_frames = 0\<rparr>, h'))"

definition local_send_frame :: "bytes \<Rightarrow> local_write_stream \<Rightarrow> local_write_stream" where
  "local_send_frame frame w = w\<lparr>lw_buf := lw_buf w @ frame, lw_frames := lw_frames w + 1\<rparr>"

definition local_finish ::
  "'h shard_handler \<Rightarrow> end_req \<Rightarrow> local_write_stream \<Rightarrow> 'h \<Rightarrow> (epoch_error, unit) result \<times> 'h" where
  "local_finish hdl fin w h =
     h_commit_blob hdl (lw_extent w) (lw_blob w) (lw_frames w) fin (lw_buf w) h"

section \<open>Bounded memory\<close>

definition streams_ok :: "streams \<Rightarrow> bool" where
  "streams_ok strs \<longleftrightarrow>
     distinct (map fst strs) \<and> length strs \<le> MAX_OPEN_STREAMS \<and>
     (\<forall>(sid, acc) \<in> set strs. length (wa_buf acc) \<le> MAX_STREAM_BYTES)"

text \<open>The states a connection can reach: any frames, at any times, with idle reaps in between.\<close>

inductive conn_reachable :: "'h shard_handler \<Rightarrow> streams \<Rightarrow> 'h \<Rightarrow> bool" for hdl where
  start: "conn_reachable hdl [] h"
| frame: "conn_reachable hdl strs h \<Longrightarrow> dispatch hdl now header body strs h = (strs', h', r)
            \<Longrightarrow> conn_reachable hdl strs' h'"
| reap: "conn_reachable hdl strs h \<Longrightarrow> conn_reachable hdl (reap_idle now strs) h"

lemma set_update_subset: "set (AList.update k v xs) \<subseteq> insert (k, v) (set xs)"
  by (induction xs) auto

lemma length_update_le: "length (AList.update k v xs) \<le> Suc (length xs)"
  by (induction xs) auto

lemma length_update_mem: "map_of xs k \<noteq> None \<Longrightarrow> length (AList.update k v xs) = length xs"
  by (induction xs) auto

lemma set_delete_subset: "set (AList.delete k xs) \<subseteq> set xs"
  by (auto simp: AList.delete_eq)

lemma streams_ok_filter: "streams_ok strs \<Longrightarrow> streams_ok (filter P strs)"
  by (auto simp: streams_ok_def distinct_map_filter intro: le_trans [OF length_filter_le])

lemma streams_ok_delete: "streams_ok strs \<Longrightarrow> streams_ok (AList.delete sid strs)"
  by (simp add: AList.delete_eq streams_ok_filter)

lemma streams_ok_reap: "streams_ok strs \<Longrightarrow> streams_ok (reap_idle now strs)"
  by (simp add: reap_idle_def streams_ok_filter)

lemma streams_ok_update:
  assumes "streams_ok strs" and "length (wa_buf acc) \<le> MAX_STREAM_BYTES"
    and "map_of strs sid \<noteq> None \<or> length strs < MAX_OPEN_STREAMS"
  shows "streams_ok (AList.update sid acc strs)"
proof -
  have "length (AList.update sid acc strs) \<le> MAX_OPEN_STREAMS"
    using assms(1,3) length_update_le [of sid acc strs] length_update_mem [of strs sid acc]
    by (cases "map_of strs sid = None") (simp_all add: streams_ok_def)
  then show ?thesis
    using assms(1,2) set_update_subset [of sid acc strs] by (auto simp: streams_ok_def distinct_update)
qed

text \<open>What a dispatch does to the open streams, whatever the handler answers.\<close>

lemma unary_streams: "unary strs sid decoded call ans h = (strs', h', r) \<Longrightarrow> strs' = strs"
  by (auto simp: unary_def split: sum.splits prod.splits)

lemma dispatch_unary:
  assumes "dispatch hdl now header body strs h = (strs', h', r)" and "from_u16 (fh_pcode header) = Some pc"
    and "pc \<notin> {P_Open, P_Data, P_Abort, P_End}"
  shows "strs' = strs"
  using assms unfolding dispatch_def Let_def assms(2) option.case
  by (cases pc) (auto dest: unary_streams)

lemma dispatch_open:
  assumes "dispatch hdl now header body strs h = (strs', h', r)" and "from_u16 (fh_pcode header) = Some P_Open"
    and "strs' \<noteq> strs"
  obtains acc where "strs' = AList.update (fh_stream_id header) acc strs" and "wa_buf acc = []"
    and "length strs < MAX_OPEN_STREAMS"
  using assms(1,3) that unfolding dispatch_def Let_def assms(2) option.case pcode.case
  by (auto split: sum.splits prod.splits if_splits)

lemma dispatch_streams:
  assumes "dispatch hdl now header body strs h = (strs', h', r)"
  shows "strs' = strs \<or> strs' = AList.delete (fh_stream_id header) strs \<or>
    (\<exists>acc. strs' = AList.update (fh_stream_id header) acc strs \<and> wa_buf acc = [] \<and>
           length strs < MAX_OPEN_STREAMS) \<or>
    (\<exists>acc acc'. map_of strs (fh_stream_id header) = Some acc \<and>
       strs' = AList.update (fh_stream_id header) acc' strs \<and> wa_buf acc' = wa_buf acc @ body \<and>
       length (wa_buf acc @ body) \<le> MAX_STREAM_BYTES)"
proof -
  consider "from_u16 (fh_pcode header) = None" | "from_u16 (fh_pcode header) = Some P_Open"
    | "from_u16 (fh_pcode header) = Some P_Data" | "from_u16 (fh_pcode header) = Some P_Abort"
    | "from_u16 (fh_pcode header) = Some P_End"
    | pc where "from_u16 (fh_pcode header) = Some pc" "pc \<notin> {P_Open, P_Data, P_Abort, P_End}"
    by (cases "from_u16 (fh_pcode header)") auto
  then show ?thesis
  proof cases
    case 2
    then show ?thesis using dispatch_open [OF assms] by blast
  next
    case 3
    show ?thesis
    proof (cases "map_of strs (fh_stream_id header)")
      case None
      then show ?thesis using 3 assms by (simp add: dispatch_def)
    next
      case (Some acc)
      show ?thesis
      proof (cases "MAX_STREAM_BYTES < length (wa_buf acc) + length body")
        case True
        then show ?thesis using 3 Some assms by (simp add: dispatch_def Let_def)
      next
        case False
        then show ?thesis using 3 Some assms by (auto simp: dispatch_def Let_def)
      qed
    qed
  next
    case 5
    show ?thesis
      using assms unfolding dispatch_def Let_def 5 option.case pcode.case
      by (auto split: sum.splits option.splits)
  next
    case 6
    then show ?thesis using dispatch_unary [OF assms] by blast
  qed (use assms in \<open>simp_all add: dispatch_def Let_def\<close>)
qed

lemma streams_ok_dispatch:
  assumes "streams_ok strs" and "dispatch hdl now header body strs h = (strs', h', r)"
  shows "streams_ok strs'"
  using dispatch_streams [OF assms(2)]
proof (elim disjE exE conjE)
  fix acc assume "strs' = AList.update (fh_stream_id header) acc strs" "wa_buf acc = []"
    "length strs < MAX_OPEN_STREAMS"
  then show ?thesis using assms(1) streams_ok_update by simp
next
  fix acc acc' assume "map_of strs (fh_stream_id header) = Some acc"
    "strs' = AList.update (fh_stream_id header) acc' strs" "wa_buf acc' = wa_buf acc @ body"
    "length (wa_buf acc @ body) \<le> MAX_STREAM_BYTES"
  then show ?thesis using assms(1) streams_ok_update by simp
qed (use assms(1) streams_ok_delete in simp_all)

lemma conn_reachable_ok: "conn_reachable hdl strs h \<Longrightarrow> streams_ok strs"
proof (induction rule: conn_reachable.induct)
  case (start h)
  then show ?case by (simp add: streams_ok_def)
next
  case (frame strs h now header body strs' h' r)
  from streams_ok_dispatch [OF frame.IH frame.hyps(2)] show ?case .
next
  case (reap strs h now)
  then show ?case by (simp add: streams_ok_reap)
qed

section \<open>Streams do not interfere\<close>

lemma dispatch_other:
  assumes "dispatch hdl now header body strs h = (strs', h', r)" and "fh_stream_id header \<noteq> sid"
  shows "map_of strs' sid = map_of strs sid"
  using dispatch_streams [OF assms(1)] assms(2) by (auto simp: update_conv' delete_conv')

lemma dispatch_data:
  assumes "fh_pcode header = to_u16 P_Data" and "map_of strs (fh_stream_id header) = Some acc"
    and "length (wa_buf acc) + length body \<le> MAX_STREAM_BYTES"
  shows "dispatch hdl now header body strs h =
    (AList.update (fh_stream_id header) (acc\<lparr>wa_buf := wa_buf acc @ body, wa_frames := wa_frames acc + 1,
       wa_last_activity := now\<rparr>) strs, h, None)"
  using assms by (simp add: dispatch_def Let_def del: to_u16.simps)

text \<open>A sequence of frames: \<open>(now, header, body)\<close> each.\<close>

fun dispatch_all ::
  "'h shard_handler \<Rightarrow> (nat \<times> frame_header \<times> bytes) list \<Rightarrow> streams \<Rightarrow> 'h \<Rightarrow> streams \<times> 'h \<times> server_reply list" where
  "dispatch_all hdl [] strs h = (strs, h, [])"
| "dispatch_all hdl ((now, header, body) # fs) strs h =
     (case dispatch hdl now header body strs h of
        (strs', h', r) \<Rightarrow> (case dispatch_all hdl fs strs' h' of (strs'', h'', rs) \<Rightarrow> (strs'', h'', r # rs)))"

definition bodies_of :: "u32 \<Rightarrow> (nat \<times> frame_header \<times> bytes) list \<Rightarrow> bytes list" where
  "bodies_of sid fs = map (\<lambda>(_, _, b). b) (filter (\<lambda>(_, hd, _). fh_stream_id hd = sid) fs)"

lemma dispatch_all_stream:
  assumes "dispatch_all hdl fs strs h = (strs', h', rs)" and "map_of strs sid = Some acc"
    and "\<forall>(_, hd, _) \<in> set fs. fh_stream_id hd = sid \<longrightarrow> fh_pcode hd = to_u16 P_Data"
    and "length (wa_buf acc) + length (concat (bodies_of sid fs)) \<le> MAX_STREAM_BYTES"
  shows "\<exists>acc'. map_of strs' sid = Some acc' \<and> wa_extent acc' = wa_extent acc \<and> wa_blob acc' = wa_blob acc \<and>
    wa_buf acc' = wa_buf acc @ concat (bodies_of sid fs) \<and>
    wa_frames acc' = wa_frames acc + of_nat (length (bodies_of sid fs))"
  using assms
proof (induction fs arbitrary: strs h acc rs)
  case Nil
  then show ?case by (simp add: bodies_of_def)
next
  case (Cons f fs)
  obtain now header body where f: "f = (now, header, body)" by (cases f)
  obtain strs1 h1 r rs1 where d: "dispatch hdl now header body strs h = (strs1, h1, r)"
    and rest: "dispatch_all hdl fs strs1 h1 = (strs', h', rs1)"
    using Cons.prems(1) f by (auto split: prod.splits)
  show ?case
  proof (cases "fh_stream_id header = sid")
    case False
    then have "map_of strs1 sid = Some acc" using dispatch_other [OF d] Cons.prems(2) by simp
    then show ?thesis
      using Cons.IH [OF rest] Cons.prems(3,4) False f by (simp add: bodies_of_def)
  next
    case True
    let ?acc = "acc\<lparr>wa_buf := wa_buf acc @ body, wa_frames := wa_frames acc + 1, wa_last_activity := now\<rparr>"
    have bs: "bodies_of sid (f # fs) = body # bodies_of sid fs" using True f by (simp add: bodies_of_def)
    have "map_of strs1 sid = Some ?acc"
      using d dispatch_data [of header strs acc body hdl now h] Cons.prems(2-4) True f bs
      by (auto simp: update_conv')
    from Cons.IH [OF rest this] show ?thesis
      using Cons.prems(3,4) f bs by (simp add: add.assoc)
  qed
qed

lemma local_send_all:
  "foldl (\<lambda>w f. local_send_frame f w) w cs =
     w\<lparr>lw_buf := lw_buf w @ concat cs, lw_frames := lw_frames w + of_nat (length cs)\<rparr>"
  by (induction cs arbitrary: w) (simp_all add: local_send_frame_def add.assoc)

lemma unary_reply: "unary strs sid decoded call ans h = (strs', h', r) \<Longrightarrow> \<exists>pc fl pl. r = Some (pc, fl, sid, pl)"
  by (auto simp: unary_def reply_error_def split: sum.splits prod.splits)

lemma commit_stream_reply: "commit_stream hdl sid acc fin h = (h', r) \<Longrightarrow> \<exists>pc fl pl. r = Some (pc, fl, sid, pl)"
  by (auto simp: commit_stream_def reply_error_def split: sum.splits prod.splits)

section \<open>Properties\<close>

text \<open>C19: bounded server memory. In every state a connection can reach, whatever frames a peer sends
  and however the handler answers, each stream id has at most one accumulator, there are at most
  \<open>MAX_OPEN_STREAMS\<close> of them, each holds at most \<open>MAX_STREAM_BYTES\<close>, and so the connection buffers
  at most their product.\<close>

theorem conn_memory_bounded:
  assumes "conn_reachable hdl strs h"
  shows "distinct (map fst strs) \<and> length strs \<le> MAX_OPEN_STREAMS \<and>
    (\<forall>(sid, acc) \<in> set strs. length (wa_buf acc) \<le> MAX_STREAM_BYTES) \<and>
    sum_list (map (\<lambda>(sid, acc). length (wa_buf acc)) strs) \<le> MAX_OPEN_STREAMS * MAX_STREAM_BYTES"
proof -
  have ok: "streams_ok strs" using assms by (rule conn_reachable_ok)
  have "sum_list (map (\<lambda>(sid, acc). length (wa_buf acc)) strs) \<le> sum_list (map (\<lambda>_. MAX_STREAM_BYTES) strs)"
    using ok by (intro sum_list_mono) (auto simp: streams_ok_def)
  also have "\<dots> \<le> MAX_OPEN_STREAMS * MAX_STREAM_BYTES"
    using ok by (simp add: sum_list_triv streams_ok_def)
  finally show ?thesis using ok by (simp add: streams_ok_def)
qed

text \<open>A handler that accepts everything, for the concrete inputs.\<close>

definition null_handler :: "bytes list shard_handler" where
  "null_handler =
     \<lparr>h_create_extent = \<lambda>r h. (Ok (extent_new (cer_shard_id r) (cer_create_ts r)), h),
      h_open_blob = \<lambda>r h. (Ok (extent_new (or_shard_id r) 0), h),
      h_commit_blob = \<lambda>e b n fin body h. (Ok (), h @ [body]),
      h_read_shard = \<lambda>r h. (Ok None, h),
      h_seal_extent = \<lambda>r h. (Ok (), h),
      h_delete_blob = \<lambda>r h. (Ok (), h),
      h_list_blobs = \<lambda>r h. (Ok [], h)\<rparr>"

definition frame_of :: "pcode \<Rightarrow> u32 \<Rightarrow> frame_header" where
  "frame_of pc sid = \<lparr>fh_pcode = to_u16 pc, fh_flags = 0, fh_stream_id = sid, fh_seq = 0, fh_session = 0,
     fh_payload_len = 0, fh_trace_id = 0, fh_deadline_ms = 0\<rparr>"

theorem conn_memory_bounded_witness:
  "\<exists>strs h. dispatch null_handler 5 (frame_of P_Open 7)
      (open_req_encode \<lparr>or_blob_id = BlobId 1, or_shard_id = ShardId 2\<rparr>) [] [] = (strs, h, Some (P_OpenAck, 0, 7, []))
    \<and> length strs = 1 \<and> length strs \<le> MAX_OPEN_STREAMS"
proof -
  let ?strs = "[(7, \<lparr>wa_extent = extent_new (ShardId 2) 0, wa_blob = BlobId 1, wa_buf = [], wa_frames = 0, wa_last_activity = 5\<rparr>)]"
  have d: "dispatch null_handler 5 (frame_of P_Open 7)
      (open_req_encode \<lparr>or_blob_id = BlobId 1, or_shard_id = ShardId 2\<rparr>) [] [] = (?strs, [], Some (P_OpenAck, 0, 7, []))"
    by (simp add: dispatch_def frame_of_def null_handler_def open_req.dec_exact MAX_OPEN_STREAMS_def del: to_u16.simps)
  have "conn_reachable null_handler ?strs []"
    by (rule conn_reachable.frame [OF conn_reachable.start d])
  from conn_memory_bounded [OF this] show ?thesis using d by (intro exI [of _ ?strs] exI [of _ "[]"]) simp
qed



definition silent_opcodes :: "pcode set" where
  "silent_opcodes = {P_Data, P_Abort, P_CreateExtentResp, P_CommitAck, P_ReadShardResp, P_Error,
     P_OpenAck, P_SealResp, P_DeleteBlobResp, P_ListBlobsResp}"

lemma dispatch_reply_cases:
  assumes "dispatch hdl now header body strs h = (strs', h', r)" and "from_u16 (fh_pcode header) = Some pc"
  shows "(r = None \<longrightarrow> pc \<in> silent_opcodes \<or> pc = P_End \<and> map_of strs (fh_stream_id header) = None) \<and>
    (\<forall>pc fl sid pl. r = Some (pc, fl, sid, pl) \<longrightarrow> sid = fh_stream_id header)"
proof (cases "pc \<in> {P_Open, P_Data, P_End}")
  case True
  then consider "pc = P_Open" | "pc = P_Data" | "pc = P_End" by blast
  then show ?thesis
  proof cases
    case 1
    show ?thesis
      using assms(1) unfolding dispatch_def Let_def assms(2) 1 option.case pcode.case
      by (auto simp: reply_error_def split: sum.splits prod.splits if_splits)
  next
    case 2
    show ?thesis
      using assms(1) unfolding dispatch_def Let_def assms(2) 2 option.case pcode.case
      by (auto simp: reply_error_def silent_opcodes_def split: option.splits if_splits)
  next
    case 3
    show ?thesis
      using assms(1) unfolding dispatch_def Let_def assms(2) 3 option.case pcode.case
      by (auto simp: reply_error_def split: sum.splits option.splits dest!: commit_stream_reply)
  qed
next
  case False
  then show ?thesis
    using assms(1) unfolding dispatch_def Let_def assms(2) option.case
    by (cases pc) (auto dest!: unary_reply simp: silent_opcodes_def)
qed



end
