(* ===== verification/Store_Service.thy ===== *)
theory Store_Service
  imports Store_Compact Rpc_Server
begin

text \<open>
  The storage engine of one disk, \<open>crates/epoch-store/src/service.rs\<close>, and its data-plane handler,
  \<open>handler.rs\<close>. The state is the disk, the index, the broken flag and, per active extent, the writer
  thread: its append cursor and the requests queued for it. Each engine call is one step; a writer
  thread takes its own steps, one batch each. Read handles are opened per read; the descriptor
  cache that saves those opens has its own theory. The clock is an argument.
\<close>

record writer =
  wt_offset :: nat
  wt_queue :: "write_request list"

record engine =
  en_disk :: disk
  en_index :: db
  en_broken :: bool
  en_writers :: "(extent_id, writer) kv"

definition WRITER_QUEUE_DEPTH :: nat where "WRITER_QUEUE_DEPTH = 256"
definition SHARD_LOCK_SHARDS :: nat where "SHARD_LOCK_SHARDS = 16"

definition shard_delete_lock :: "shard_id \<Rightarrow> nat" where
  "shard_delete_lock shard = unat (shard_prefix shard) mod SHARD_LOCK_SHARDS"

section \<open>Open handles of writer threads\<close>

text \<open>A writer's handle follows its file into the trash.\<close>

definition handle_bytes :: "disk \<Rightarrow> extent_id \<Rightarrow> bytes" where
  "handle_bytes dk e =
     (case extent_bytes dk e of
        Some f \<Rightarrow> f
      | None \<Rightarrow> (case fmlookup (dk_trash dk) (extent_file_name e) of Some f \<Rightarrow> f | None \<Rightarrow> []))"

definition put_handle_bytes :: "extent_id \<Rightarrow> bytes \<Rightarrow> disk \<Rightarrow> disk" where
  "put_handle_bytes e f dk =
     (case extent_bytes dk e of
        Some _ \<Rightarrow> put_extent_bytes e f dk
      | None \<Rightarrow>
          (case fmlookup (dk_trash dk) (extent_file_name e) of
             Some _ \<Rightarrow> dk\<lparr>dk_trash := fmupd (extent_file_name e) f (dk_trash dk)\<rparr>
           | None \<Rightarrow> dk))"

definition writer_file :: "engine \<Rightarrow> extent_id \<Rightarrow> writer \<Rightarrow> extent_file" where
  "writer_file en e w =
     \<lparr>ef_file = handle_bytes (en_disk en) e, ef_extent_id = e, ef_write_offset = wt_offset w\<rparr>"

definition spawn_writer :: "extent_id \<Rightarrow> extent_file \<Rightarrow> engine \<Rightarrow> engine" where
  "spawn_writer e ef en = en\<lparr>en_writers := fmupd e \<lparr>wt_offset = ef_write_offset ef, wt_queue = []\<rparr> (en_writers en)\<rparr>"

text \<open>One round of a writer thread: collect a batch, process it, keep the rest of the queue.\<close>

definition writer_round :: "checksum \<Rightarrow> io_faults \<Rightarrow> extent_id \<Rightarrow> engine \<Rightarrow> write_reply list \<times> engine" where
  "writer_round crc fl e en =
     (case fmlookup (en_writers en) e of
        None \<Rightarrow> ([], en)
      | Some w \<Rightarrow>
          let (batch, rest) = take_batch (wt_queue w);
              (rs, d', ef') = process_batch crc fl batch (en_index en) (writer_file en e w)
          in (rs, en\<lparr>en_index := d', en_disk := put_handle_bytes e (ef_file ef') (en_disk en),
                     en_writers := fmupd e \<lparr>wt_offset = ef_write_offset ef', wt_queue = rest\<rparr> (en_writers en)\<rparr>))"

text \<open>Dropping the sender and joining the thread: it drains its queue and ends.\<close>

definition stop_writer :: "checksum \<Rightarrow> io_faults \<Rightarrow> extent_id \<Rightarrow> engine \<Rightarrow> write_reply list \<times> engine" where
  "stop_writer crc fl e en =
     (case fmlookup (en_writers en) e of
        None \<Rightarrow> ([], en)
      | Some w \<Rightarrow>
          let (rs, d', ef') = writer_loop crc fl (wt_queue w) (en_index en) (writer_file en e w)
          in (rs, en\<lparr>en_index := d', en_disk := put_handle_bytes e (ef_file ef') (en_disk en),
                     en_writers := fmdrop e (en_writers en)\<rparr>))"

fun stop_all :: "checksum \<Rightarrow> io_faults \<Rightarrow> extent_id list \<Rightarrow> engine \<Rightarrow> write_reply list \<times> engine" where
  "stop_all crc fl [] en = ([], en)"
| "stop_all crc fl (e # es) en =
     (let (rs, en1) = stop_writer crc fl e en; (rs', en2) = stop_all crc fl es en1 in (rs @ rs', en2))"

definition engine_shutdown :: "checksum \<Rightarrow> io_faults \<Rightarrow> engine \<Rightarrow> write_reply list \<times> engine" where
  "engine_shutdown crc fl en = stop_all crc fl (map fst (kv_entries (en_writers en))) en"

section \<open>Engine calls\<close>

definition mark_broken :: "engine \<Rightarrow> engine" where
  "mark_broken en = en\<lparr>en_broken := True\<rparr>"

definition observe :: "(epoch_error, 'a) result \<Rightarrow> engine \<Rightarrow> engine" where
  "observe r en = (case r of Err E_DiskBroken \<Rightarrow> mark_broken en | _ \<Rightarrow> en)"

definition run_blocking :: "(store_error, 'a) result \<Rightarrow> (epoch_error, 'a) result" where
  "run_blocking r = map_err to_epoch r"

definition install_created :: "shard_id \<Rightarrow> i64 \<Rightarrow> extent_status \<Rightarrow> extent_id \<Rightarrow> extent_file \<Rightarrow> engine \<Rightarrow> engine" where
  "install_created shard create_ts status e ef en =
     spawn_writer e ef
       (en\<lparr>en_disk := put_extent_bytes e (ef_file ef) (en_disk en),
           en_index := install_extent e
             \<lparr>em_shard_id = shard, em_status = status, em_size = of_nat (ef_write_offset ef),
              em_deleted_bytes = 0, em_create_ts = create_ts\<rparr> [] (en_index en)\<rparr>)"

definition create_extent_with_status ::
    "checksum \<Rightarrow> shard_id \<Rightarrow> i64 \<Rightarrow> extent_status \<Rightarrow> engine \<Rightarrow> (store_error, extent_id) result \<times> engine" where
  "create_extent_with_status crc shard create_ts status en =
     (let e = extent_new shard create_ts in
      case extent_create crc (extent_bytes (en_disk en) e) e of
        Ok ef \<Rightarrow> (Ok e, install_created shard create_ts status e ef en)
      | Err (X_Io IoAlreadyExists) \<Rightarrow>
          (case get_extent_meta (en_index en) e of
             Err err \<Rightarrow> (Err (SE_Index err), en)
           | Ok (Some _) \<Rightarrow> (Ok e, en)
           | Ok None \<Rightarrow>
               (case move_extent_to_trash e (en_disk en) of
                  Err err \<Rightarrow> (Err (SE_Disk err), en)
                | Ok dk \<Rightarrow>
                    (case extent_create crc (extent_bytes dk e) e of
                       Err err \<Rightarrow> (Err (SE_Extent err), en\<lparr>en_disk := dk\<rparr>)
                     | Ok ef \<Rightarrow> (Ok e, install_created shard create_ts status e ef (en\<lparr>en_disk := dk\<rparr>)))))
      | Err err \<Rightarrow> (Err (SE_Extent err), en))"

definition create_extent_at ::
    "checksum \<Rightarrow> shard_id \<Rightarrow> i64 \<Rightarrow> engine \<Rightarrow> (epoch_error, extent_id) result \<times> engine" where
  "create_extent_at crc shard create_ts en =
     (let (r, en') = create_extent_with_status crc shard create_ts Writable en; r' = run_blocking r
      in (r', observe r' en'))"

definition create_rebuilding_extent ::
    "checksum \<Rightarrow> shard_id \<Rightarrow> i64 \<Rightarrow> engine \<Rightarrow> (epoch_error, extent_id) result \<times> engine" where
  "create_rebuilding_extent crc shard create_ts en =
     (let (r, en') = create_extent_with_status crc shard create_ts Rebuilding en; r' = run_blocking r
      in (r', observe r' en'))"

definition promote_rebuilt_blocking :: "extent_id \<Rightarrow> engine \<Rightarrow> (store_error, unit) result \<times> engine" where
  "promote_rebuilt_blocking e en =
     (case and_then (map_err SE_Index (get_extent_meta (en_index en) e)) (ok_or (SE_ExtentNotFound e)) of
        Err err \<Rightarrow> (Err err, en)
      | Ok m \<Rightarrow>
          (case em_status m of
             Writable \<Rightarrow> (Ok (), en)
           | Rebuilding \<Rightarrow>
               (case set_extent_status e Writable (en_index en) of
                  Err err \<Rightarrow> (Err (SE_Index err), en)
                | Ok d \<Rightarrow> (Ok (), en\<lparr>en_index := d\<rparr>))
           | other \<Rightarrow> (Err (SE_NotWritable other), en)))"

definition promote_rebuilt :: "extent_id \<Rightarrow> engine \<Rightarrow> (epoch_error, unit) result \<times> engine" where
  "promote_rebuilt e en =
     (let (r, en') = promote_rebuilt_blocking e en; r' = run_blocking r in (r', observe r' en'))"

definition writable_extent_blocking :: "shard_id \<Rightarrow> engine \<Rightarrow> (store_error, extent_id) result" where
  "writable_extent_blocking shard en =
     and_then (map_err SE_Index (get_shard_binding (en_index en) shard)) (\<lambda>bound.
     and_then (ok_or (SE_ShardUnbound shard) bound) (\<lambda>e.
     and_then (map_err SE_Index (get_extent_meta (en_index en) e)) (\<lambda>found.
     and_then (ok_or (SE_ExtentNotFound e) found) (\<lambda>m.
       if em_status m = Rebuilding then Err (SE_NotWritable Rebuilding)
       else and_then (writable_gate (em_status m)) (\<lambda>_. Ok e)))))"

definition writable_extent :: "shard_id \<Rightarrow> engine \<Rightarrow> (epoch_error, extent_id) result" where
  "writable_extent shard en = run_blocking (writable_extent_blocking shard en)"

definition seal_extent_blocking ::
    "checksum \<Rightarrow> io_faults \<Rightarrow> extent_id \<Rightarrow> engine \<Rightarrow> (store_error, unit) result \<times> engine" where
  "seal_extent_blocking crc fl e en =
     (case and_then (map_err SE_Index (get_extent_meta (en_index en) e)) (ok_or (SE_ExtentNotFound e)) of
        Err err \<Rightarrow> (Err err, en)
      | Ok m \<Rightarrow>
          if em_status m = Sealed then (Ok (), en)
          else if em_status m = Rebuilding \<or> em_status m = Dropped then (Err (SE_NotWritable (em_status m)), en)
          else
            let en1 = snd (stop_writer crc fl e en) in
            case index_seal_extent e (en_index en1) of
              Err err \<Rightarrow> (Err (SE_Index err), en1)
            | Ok d \<Rightarrow> (Ok (), en1\<lparr>en_index := d\<rparr>))"

definition engine_seal_extent ::
    "checksum \<Rightarrow> io_faults \<Rightarrow> extent_id \<Rightarrow> engine \<Rightarrow> (epoch_error, unit) result \<times> engine" where
  "engine_seal_extent crc fl e en = (let (r, en') = seal_extent_blocking crc fl e en in (run_blocking r, en'))"

text \<open>\<open>write\<close> up to the point where the request is queued; the reply comes from a writer round.\<close>

definition enqueue_write :: "extent_id \<Rightarrow> blob_id \<Rightarrow> bytes \<Rightarrow> nat \<Rightarrow> engine \<Rightarrow> (epoch_error, unit) result \<times> engine" where
  "enqueue_write e blob body reply en =
     (case fmlookup (en_writers en) e of
        None \<Rightarrow> (Err E_ShardNotFound, en)
      | Some w \<Rightarrow>
          (Ok (), en\<lparr>en_writers := fmupd e
             (w\<lparr>wt_queue := wt_queue w @ [\<lparr>wq_blob = blob, wq_body = body, wq_reply = reply\<rparr>]\<rparr>) (en_writers en)\<rparr>))"

text \<open>\<open>write\<close> when the writer serves its queue before anything else happens.\<close>

definition engine_write ::
    "checksum \<Rightarrow> io_faults \<Rightarrow> extent_id \<Rightarrow> blob_id \<Rightarrow> bytes \<Rightarrow> engine \<Rightarrow> (epoch_error, write_outcome) result \<times> engine" where
  "engine_write crc fl e blob body en =
     (case fmlookup (en_writers en) e of
        None \<Rightarrow> (Err E_ShardNotFound, en)
      | Some w \<Rightarrow>
          let reply = Suc (Max (insert 0 (set (map wq_reply (wt_queue w)))));
              q = wt_queue w @ [\<lparr>wq_blob = blob, wq_body = body, wq_reply = reply\<rparr>];
              (rs, d', ef') = writer_loop crc fl q (en_index en) (writer_file en e w);
              en' = en\<lparr>en_index := d', en_disk := put_handle_bytes e (ef_file ef') (en_disk en),
                       en_writers := fmupd e \<lparr>wt_offset = ef_write_offset ef', wt_queue = []\<rparr> (en_writers en)\<rparr>;
              r = (case map_of rs reply of Some r \<Rightarrow> r | None \<Rightarrow> Err E_Internal)
          in (r, observe r en'))"

definition read_blocking :: "checksum \<Rightarrow> extent_id \<Rightarrow> blob_id \<Rightarrow> engine \<Rightarrow> (store_error, bytes option) result" where
  "read_blocking crc e blob en =
     and_then (open_read crc (en_disk en) e) (\<lambda>ef. read_blob crc (en_index en) ef blob)"

definition read_shard_blocking :: "checksum \<Rightarrow> shard_id \<Rightarrow> blob_id \<Rightarrow> engine \<Rightarrow> (store_error, bytes option) result" where
  "read_shard_blocking crc shard blob en =
     and_then (map_err SE_Index (get_shard_binding (en_index en) shard)) (\<lambda>bound.
       case bound of
         None \<Rightarrow> Ok None
       | Some e \<Rightarrow> and_then (open_read crc (en_disk en) e) (\<lambda>ef. read_blob crc (en_index en) ef blob))"

definition engine_read :: "checksum \<Rightarrow> extent_id \<Rightarrow> blob_id \<Rightarrow> engine \<Rightarrow> (epoch_error, bytes option) result" where
  "engine_read crc e blob en = run_blocking (read_blocking crc e blob en)"

definition read_shard :: "checksum \<Rightarrow> shard_id \<Rightarrow> blob_id \<Rightarrow> engine \<Rightarrow> (epoch_error, bytes option) result" where
  "read_shard crc shard blob en = run_blocking (read_shard_blocking crc shard blob en)"

definition list_live_blobs :: "extent_id \<Rightarrow> engine \<Rightarrow> (epoch_error, blob_id list) result" where
  "list_live_blobs e en =
     run_blocking (and_then (map_err SE_Index (list_blobs (en_index en) e)) (\<lambda>blobs.
       Ok (map fst (filter (\<lambda>(_, i). \<not> is_tombstoned i) blobs))))"

definition delete_blocking :: "extent_id \<Rightarrow> blob_id \<Rightarrow> engine \<Rightarrow> (store_error, bool) result \<times> engine" where
  "delete_blocking e blob en =
     (case get_shard_binding (en_index en) (extent_shard_id e) of
        Err err \<Rightarrow> (Err (SE_Index err), en)
      | Ok bound \<Rightarrow>
          let target = (case bound of Some x \<Rightarrow> x | None \<Rightarrow> e) in
          case tombstone_blob target blob (en_index en) of
            Err err \<Rightarrow> (Err (SE_Index err), en)
          | Ok (hit, d) \<Rightarrow> (Ok hit, en\<lparr>en_index := d\<rparr>))"

definition engine_delete :: "extent_id \<Rightarrow> blob_id \<Rightarrow> engine \<Rightarrow> (epoch_error, bool) result \<times> engine" where
  "engine_delete e blob en = (let (r, en') = delete_blocking e blob en in (run_blocking r, en'))"

definition list_extent_ids :: "engine \<Rightarrow> (epoch_error, extent_id list) result" where
  "list_extent_ids en =
     (case list_extents (en_index en) of Ok xs \<Rightarrow> Ok (map fst xs) | Err _ \<Rightarrow> Err E_Internal)"

text \<open>Worst first, then by id.\<close>

definition list_compaction_candidates :: "byte \<Rightarrow> engine \<Rightarrow> (epoch_error, extent_id list) result" where
  "list_compaction_candidates ratio_percent en =
     (case list_extents (en_index en) of
        Err _ \<Rightarrow> Err E_Internal
      | Ok xs \<Rightarrow>
          Ok (map fst (sort_key (\<lambda>(e, m). - int (unat (em_deleted_bytes m)))
                (sort_key fst (filter (\<lambda>(_, m). should_compact m ratio_percent) xs)))))"

definition compact_blocking ::
    "checksum \<Rightarrow> io_faults \<Rightarrow> extent_id \<Rightarrow> i64 \<Rightarrow> engine \<Rightarrow> (store_error, compact_outcome) result \<times> engine" where
  "compact_blocking crc fl e now_ts en =
     (let en1 = snd (stop_writer crc fl e en) in
      case open_read crc (en_disk en1) e of
        Err err \<Rightarrow> (Err err, en1)
      | Ok src \<Rightarrow>
          (case compact_extent crc fl e now_ts (en_disk en1) (en_index en1) (fmupd e src fmempty) of
             (Err err, dk, d, xs) \<Rightarrow> (Err err, en1\<lparr>en_disk := dk, en_index := d\<rparr>)
           | (Ok out, dk, d, xs) \<Rightarrow>
               let en2 = en1\<lparr>en_disk := dk, en_index := d\<rparr> in
               (Ok out,
                case fmlookup xs (co_new_extent out) of
                  Some dest \<Rightarrow> spawn_writer (co_new_extent out) dest en2
                | None \<Rightarrow> en2)))"

definition engine_compact ::
    "checksum \<Rightarrow> io_faults \<Rightarrow> extent_id \<Rightarrow> i64 \<Rightarrow> engine \<Rightarrow> (epoch_error, compact_outcome) result \<times> engine" where
  "engine_compact crc fl e now_ts en = (let (r, en') = compact_blocking crc fl e now_ts en in (run_blocking r, en'))"

definition scrub_blocking :: "checksum \<Rightarrow> extent_id \<Rightarrow> engine \<Rightarrow> (store_error, scrub_report) result" where
  "scrub_blocking crc e en =
     and_then (open_read crc (en_disk en) e) (\<lambda>ef. scrub_extent crc (en_index en) ef)"

definition reclaim_dropped_blocking :: "engine \<Rightarrow> (store_error, extent_id list) result \<times> engine" where
  "reclaim_dropped_blocking en =
     (case reclaim_dropped (en_disk en) (en_index en) fmempty of
        (r, dk, d, xs) \<Rightarrow> (r, en\<lparr>en_disk := dk, en_index := d\<rparr>))"

definition reclaim_orphans_blocking :: "engine \<Rightarrow> (store_error, extent_id list) result \<times> engine" where
  "reclaim_orphans_blocking en =
     (case reclaim_orphans (en_disk en) (en_index en) fmempty of
        (r, dk, d, xs) \<Rightarrow> (r, en\<lparr>en_disk := dk, en_index := d\<rparr>))"

section \<open>Startup\<close>

definition is_format_error :: "extent_error \<Rightarrow> bool" where
  "is_format_error err =
     (case err of
        X_BadHeaderMagic \<Rightarrow> True
      | X_Version _ _ \<Rightarrow> True
      | X_HeaderChecksum _ _ \<Rightarrow> True
      | X_Io k \<Rightarrow> k = IoUnexpectedEof
      | _ \<Rightarrow> False)"

definition recover_extent :: "checksum \<Rightarrow> db \<Rightarrow> extent_file \<Rightarrow> (store_error, db \<times> extent_file) result" where
  "recover_extent crc d ef =
     (let e = ef_extent_id ef in
      and_then (map_err SE_Index (get_extent_meta d e)) (\<lambda>found.
        case found of
          Some m \<Rightarrow>
            Ok (d, if unat (em_size m) < ef_write_offset ef then truncate_to (unat (em_size m)) ef else ef)
        | None \<Rightarrow>
            and_then (map_err SE_Extent (scan crc ef)) (\<lambda>rec.
              let ef' = (if rc_truncated rec then truncate_to (rc_valid_end rec) ef else ef);
                  m = \<lparr>em_shard_id = extent_shard_id e, em_status = Writable, em_size = of_nat (rc_valid_end rec),
                       em_deleted_bytes = 0, em_create_ts = extent_create_ts e\<rparr>;
                  blobs = map (\<lambda>r. (rr_blob r, blob_index_new (of_nat (rr_offset r)) (rr_body_len r) (rr_crc r)))
                            (filter (\<lambda>r. rr_shard r = extent_shard_id e) (rc_records rec))
              in Ok (install_extent e m blobs d, ef'))))"

text \<open>The loop over the extent files: an undecodable file is moved to the trash under its name.\<close>

fun recover_files ::
    "checksum \<Rightarrow> (bytes \<times> bytes) list \<Rightarrow> disk \<Rightarrow> db \<Rightarrow> extent_file list
       \<Rightarrow> (store_error, disk \<times> db \<times> extent_file list) result" where
  "recover_files crc [] dk d recovered = Ok (dk, d, recovered)"
| "recover_files crc ((name, f) # files) dk d recovered =
     (case extent_open crc f of
        Err err \<Rightarrow>
          if is_format_error err
          then recover_files crc files
                 (dk\<lparr>dk_extents := fmdrop name (dk_extents dk), dk_trash := fmupd name f (dk_trash dk)\<rparr>) d recovered
          else Err (SE_Extent err)
      | Ok ef \<Rightarrow>
          and_then (recover_extent crc d ef) (\<lambda>(d', ef').
            recover_files crc files (dk\<lparr>dk_extents := fmupd name (ef_file ef') (dk_extents dk)\<rparr>) d' (recovered @ [ef'])))"

fun spawn_writers_for :: "extent_file list \<Rightarrow> engine \<Rightarrow> (store_error, engine) result" where
  "spawn_writers_for [] en = Ok en"
| "spawn_writers_for (ef # efs) en =
     (let e = ef_extent_id ef in
      and_then (map_err SE_Index (get_extent_meta (en_index en) e)) (\<lambda>found.
      and_then (case found of
                  Some m \<Rightarrow>
                    if em_status m = Writable
                    then map_err SE_Index (and_then (get_shard_binding (en_index en) (em_shard_id m)) (\<lambda>b. Ok (b = Some e)))
                    else Ok False
                | None \<Rightarrow> Ok False) (\<lambda>keep.
      spawn_writers_for efs (if keep then spawn_writer e ef en else en))))"

definition engine_open :: "dir_order \<Rightarrow> checksum \<Rightarrow> u128 \<Rightarrow> disk_root \<Rightarrow> db \<Rightarrow> (store_error, engine) result" where
  "engine_open ord crc cluster_id root d =
     and_then (map_err SE_Disk (disk_load crc cluster_id root)) (\<lambda>dk.
     and_then (recover_files crc (list_extent_paths ord dk) dk d []) (\<lambda>(dk', d', recovered).
     spawn_writers_for recovered
       \<lparr>en_disk = dk', en_index = d', en_broken = False, en_writers = fmempty\<rparr>))"

section \<open>The data-plane handler\<close>

definition engine_commit_blob ::
    "checksum \<Rightarrow> io_faults \<Rightarrow> extent_id \<Rightarrow> blob_id \<Rightarrow> u32 \<Rightarrow> end_req \<Rightarrow> bytes \<Rightarrow> engine
       \<Rightarrow> (epoch_error, unit) result \<times> engine" where
  "engine_commit_blob crc fl e blob frames fin body en =
     (if frames \<noteq> er_frame_count fin \<or> crc body \<noteq> er_blob_crc fin then (Err E_Internal, en)
      else
        case engine_write crc fl e blob body en of
          (Ok _, en') \<Rightarrow> (Ok (), en')
        | (Err err, en') \<Rightarrow> (Err err, en'))"

definition engine_handler :: "checksum \<Rightarrow> io_faults \<Rightarrow> engine shard_handler" where
  "engine_handler crc fl =
     \<lparr>h_create_extent = (\<lambda>req en. create_extent_at crc (cer_shard_id req) (cer_create_ts req) en),
      h_open_blob = (\<lambda>req en. (writable_extent (or_shard_id req) en, en)),
      h_commit_blob = engine_commit_blob crc fl,
      h_read_shard = (\<lambda>req en. (read_shard crc (rr_shard_id req) (rr_blob_id req) en, en)),
      h_seal_extent = (\<lambda>req en. engine_seal_extent crc fl (sr_extent_id req) en),
      h_delete_blob = (\<lambda>req en.
        case engine_delete (dr_extent_id req) (dr_blob_id req) en of
          (Ok _, en') \<Rightarrow> (Ok (), en')
        | (Err err, en') \<Rightarrow> (Err err, en')),
      h_list_blobs = (\<lambda>req en. (list_live_blobs (lr_extent_id req) en, en))\<rparr>"

end
