(* ===== verification/Store_Invariant.thy ===== *)
theory Store_Invariant
  imports Store_Service
begin

text \<open>
  The invariant of the storage engine and its preservation by every engine call, by the rounds of
  the writer threads, by maintenance and by a crash with restart: in every reachable state each
  index entry describes a whole, intact record of the extent's file.
\<close>

section \<open>The invariant\<close>

text \<open>One extent with metadata: its file starts with its header, the committed size lies within the
  cursor, and every entry describes a record below the committed size.\<close>

definition ext_state :: "checksum \<Rightarrow> index_view \<Rightarrow> extent_id \<Rightarrow> bytes \<Rightarrow> nat \<Rightarrow> bool" where
  "ext_state crc v e f cur \<longleftrightarrow>
     cur \<le> length f \<and> prefix (extent_header_encode crc e) f
     \<and> (\<exists>m. iv_meta v e = Some m \<and> EXTENT_HEADER_LEN \<le> unat (em_size m) \<and> unat (em_size m) \<le> cur
          \<and> em_shard_id m = extent_shard_id e
          \<and> (\<forall>b i. iv_blob v e b = Some i \<longrightarrow>
               (\<exists>body. entry_at crc \<lparr>ef_file = f, ef_extent_id = e, ef_write_offset = unat (em_size m)\<rparr> b i body)))"

definition cursor_of :: "engine \<Rightarrow> extent_id \<Rightarrow> bytes \<Rightarrow> nat" where
  "cursor_of en e f = (case fmlookup (en_writers en) e of Some w \<Rightarrow> wt_offset w | None \<Rightarrow> length f)"

definition ext_ok :: "checksum \<Rightarrow> index_view \<Rightarrow> engine \<Rightarrow> extent_id \<Rightarrow> bool" where
  "ext_ok crc v en e \<longleftrightarrow>
     (case iv_meta v e of
        None \<Rightarrow> extent_bytes (en_disk en) e = None \<and> (\<forall>b. iv_blob v e b = None)
      | Some m \<Rightarrow> \<exists>f. extent_bytes (en_disk en) e = Some f \<and> ext_state crc v e f (cursor_of en e f))"

definition bind_ok :: "index_view \<Rightarrow> bool" where
  "bind_ok v \<longleftrightarrow>
     (\<forall>p e. iv_bind v p = Some e \<longrightarrow> (\<exists>m. iv_meta v e = Some m \<and> em_status m \<noteq> Dropped \<and> shard_prefix (em_shard_id m) = p))"

text \<open>Every file of the extent directory carries an extent's name.\<close>

definition names_ok :: "disk \<Rightarrow> bool" where
  "names_ok dk \<longleftrightarrow> (\<forall>name f. fmlookup (dk_extents dk) name = Some f \<longrightarrow> (\<exists>e. name = extent_file_name e))"

definition engine_inv :: "checksum \<Rightarrow> index_view \<Rightarrow> engine \<Rightarrow> bool" where
  "engine_inv crc v en \<longleftrightarrow> index_rel (en_index en) v \<and> bind_ok v \<and> names_ok (en_disk en) \<and> (\<forall>e. ext_ok crc v en e)"

lemma engine_inv_rel: "engine_inv crc v en \<Longrightarrow> index_rel (en_index en) v"
  by (simp add: engine_inv_def)

lemma engine_inv_ext:
  assumes "engine_inv crc v en" "iv_meta v e = Some m"
  shows "\<exists>f. extent_bytes (en_disk en) e = Some f \<and> ext_state crc v e f (cursor_of en e f)"
proof -
  have "ext_ok crc v en e" using assms(1) by (simp add: engine_inv_def)
  then show ?thesis using assms(2) by (simp add: ext_ok_def)
qed

lemma engine_inv_bind: "engine_inv crc v en \<Longrightarrow> iv_bind v p = Some e \<Longrightarrow> \<exists>m. iv_meta v e = Some m"
  unfolding engine_inv_def bind_ok_def by blast

lemma engine_inv_blob_meta:
  assumes "engine_inv crc v en" "iv_blob v e b = Some i"
  shows "\<exists>m. iv_meta v e = Some m"
proof -
  have "ext_ok crc v en e" using assms(1) by (simp add: engine_inv_def)
  then show ?thesis using assms(2) by (cases "iv_meta v e") (simp_all add: ext_ok_def)
qed

text \<open>An extent none of whose parts changed.\<close>

lemma ext_state_cong:
  "iv_meta v' e = iv_meta v e \<Longrightarrow> iv_blob v' e = iv_blob v e \<Longrightarrow> ext_state crc v' e f cur = ext_state crc v e f cur"
  by (simp add: ext_state_def)

lemma ext_ok_frame:
  assumes "ext_ok crc v en e" "iv_meta v' e = iv_meta v e" "iv_blob v' e = iv_blob v e"
    and "extent_bytes (en_disk en') e = extent_bytes (en_disk en) e" "fmlookup (en_writers en') e = fmlookup (en_writers en) e"
  shows "ext_ok crc v' en' e"
  using assms(1) unfolding ext_ok_def cursor_of_def assms(2-5) ext_state_cong [OF assms(2,3)] .

text \<open>An extent with a later cursor.\<close>

lemma ext_state_cursor: "ext_state crc v e f cur \<Longrightarrow> cur \<le> cur' \<Longrightarrow> cur' \<le> length f \<Longrightarrow> ext_state crc v e f cur'"
  by (auto simp: ext_state_def)

text \<open>Changes of metadata and entries that keep sizes, shards and record positions.\<close>

lemma ext_state_refresh:
  assumes "ext_state crc v e f cur" "iv_meta v e = Some m" "iv_meta v' e = Some m'"
    and "em_size m' = em_size m" "em_shard_id m' = em_shard_id m"
    and "\<And>b i'. iv_blob v' e b = Some i' \<Longrightarrow>
           \<exists>i. iv_blob v e b = Some i \<and> bi_offset i' = bi_offset i \<and> bi_size i' = bi_size i \<and> bi_crc i' = bi_crc i"
  shows "ext_state crc v' e f cur"
proof -
  have "\<exists>body. entry_at crc \<lparr>ef_file = f, ef_extent_id = e, ef_write_offset = unat (em_size m)\<rparr> b i' body"
    if new: "iv_blob v' e b = Some i'" for b i'
  proof -
    obtain i where i: "iv_blob v e b = Some i" "bi_offset i' = bi_offset i" "bi_size i' = bi_size i" "bi_crc i' = bi_crc i"
      using assms(6) [OF new] by blast
    then show ?thesis using assms(1,2) by (auto simp: ext_state_def entry_at_def)
  qed
  then show ?thesis using assms(1-5) by (auto simp: ext_state_def)
qed

section \<open>Reading\<close>

lemma extent_open_header:
  assumes "prefix (extent_header_encode crc e) f"
  shows "extent_open crc f = Ok \<lparr>ef_file = f, ef_extent_id = e, ef_write_offset = length f\<rparr>"
proof -
  obtain r where f: "f = extent_header_encode crc e @ r" using assms by (auto simp: prefix_def)
  have len: "length (extent_header_encode crc e) = EXTENT_HEADER_LEN" by (rule extent_header.enc_length)
  then have "read_exact_at EXTENT_HEADER_LEN 0 f = Ok (extent_header_encode crc e)"
    by (simp add: f read_exact_at_def)
  then show ?thesis
    using len by (simp add: extent_open_def extent_header.dec_exact) (simp add: f)
qed

lemma ext_state_extent_ok:
  assumes "ext_state crc v e f cur"
  shows "extent_ok crc v \<lparr>ef_file = f, ef_extent_id = e, ef_write_offset = cur\<rparr>"
proof -
  obtain m where m: "iv_meta v e = Some m" "unat (em_size m) \<le> cur" "cur \<le> length f"
    "\<And>b i. iv_blob v e b = Some i \<Longrightarrow>
       \<exists>body. entry_at crc \<lparr>ef_file = f, ef_extent_id = e, ef_write_offset = unat (em_size m)\<rparr> b i body"
    using assms by (auto simp: ext_state_def)
  have ext: "extends \<lparr>ef_file = f, ef_extent_id = e, ef_write_offset = unat (em_size m)\<rparr>
      \<lparr>ef_file = f, ef_extent_id = e, ef_write_offset = cur\<rparr>"
    using m(2,3) by (simp add: extends_def)
  have "\<exists>body. entry_at crc \<lparr>ef_file = f, ef_extent_id = e, ef_write_offset = cur\<rparr> b i body"
    if "iv_blob v e b = Some i" for b i
    using m(4) [OF that] entry_at_extends [OF _ ext] by blast
  then show ?thesis using m(3) by (simp add: extent_ok_def)
qed

text \<open>The body an engine serves for a blob of an extent.\<close>

definition engine_body :: "checksum \<Rightarrow> index_view \<Rightarrow> engine \<Rightarrow> extent_id \<Rightarrow> blob_id \<Rightarrow> bytes option" where
  "engine_body crc v en e b =
     (case extent_bytes (en_disk en) e of
        None \<Rightarrow> None
      | Some f \<Rightarrow> stored_body crc v \<lparr>ef_file = f, ef_extent_id = e, ef_write_offset = length f\<rparr> b)"

lemma open_read_ok:
  assumes "engine_inv crc v en" "iv_meta v e = Some m"
  obtains f where "extent_bytes (en_disk en) e = Some f"
    "open_read crc (en_disk en) e = Ok \<lparr>ef_file = f, ef_extent_id = e, ef_write_offset = length f\<rparr>"
    "extent_ok crc v \<lparr>ef_file = f, ef_extent_id = e, ef_write_offset = length f\<rparr>"
proof -
  obtain f where f: "extent_bytes (en_disk en) e = Some f" "ext_state crc v e f (cursor_of en e f)"
    using engine_inv_ext [OF assms] by blast
  then have "ext_state crc v e f (length f)" by (auto simp: ext_state_def)
  then show thesis
    using that [OF f(1)] extent_open_header [of crc e f] ext_state_extent_ok f(2)
    by (simp add: open_read_def f(1) ext_state_def)
qed

lemma read_blocking_ok:
  assumes "engine_inv crc v en" "iv_meta v e = Some m"
  shows "read_blocking crc e b en = Ok (engine_body crc v en e b)"
proof -
  from open_read_ok [OF assms] obtain f where f: "extent_bytes (en_disk en) e = Some f"
    "open_read crc (en_disk en) e = Ok \<lparr>ef_file = f, ef_extent_id = e, ef_write_offset = length f\<rparr>"
    "extent_ok crc v \<lparr>ef_file = f, ef_extent_id = e, ef_write_offset = length f\<rparr>" .
  have "read_blob crc (en_index en) \<lparr>ef_file = f, ef_extent_id = e, ef_write_offset = length f\<rparr> b
      = Ok (stored_body crc v \<lparr>ef_file = f, ef_extent_id = e, ef_write_offset = length f\<rparr> b)"
    by (intro read_blob_ok engine_inv_rel [OF assms(1)] f(3))
  then show ?thesis by (simp add: read_blocking_def f engine_body_def)
qed

lemma read_shard_blocking_ok:
  assumes "engine_inv crc v en"
  shows "read_shard_blocking crc s b en
    = Ok (case iv_bind v (shard_prefix s) of None \<Rightarrow> None | Some e \<Rightarrow> engine_body crc v en e b)"
proof (cases "iv_bind v (shard_prefix s)")
  case None
  then show ?thesis by (simp add: read_shard_blocking_def get_shard_binding_rel [OF engine_inv_rel [OF assms]])
next
  case (Some e)
  then obtain m where "iv_meta v e = Some m" using engine_inv_bind [OF assms] by blast
  from read_blocking_ok [OF assms this, of b] show ?thesis
    using Some by (simp add: read_shard_blocking_def read_blocking_def get_shard_binding_rel [OF engine_inv_rel [OF assms]])
qed

lemma engine_body_entry:
  assumes "engine_inv crc v en" "iv_blob v e b = Some i"
  shows "\<exists>body. engine_body crc v en e b = Some body \<and> bi_size i = of_nat (length body) \<and> bi_crc i = crc body"
proof -
  obtain m where "iv_meta v e = Some m" using engine_inv_blob_meta [OF assms] by blast
  from open_read_ok [OF assms(1) this] obtain f where f: "extent_bytes (en_disk en) e = Some f"
    "extent_ok crc v \<lparr>ef_file = f, ef_extent_id = e, ef_write_offset = length f\<rparr>" by blast
  from stored_body_found [OF f(2), of b i] assms(2) show ?thesis
    by (auto simp: engine_body_def f(1) entry_at_def)
qed

section \<open>Writer rounds\<close>

text \<open>What a writer may do to its extent: more entries, a larger committed size, a longer file.\<close>

definition writer_post :: "checksum \<Rightarrow> index_view \<Rightarrow> extent_id \<Rightarrow> bytes \<Rightarrow> nat \<Rightarrow> index_view \<Rightarrow> bytes \<Rightarrow> nat \<Rightarrow> bool" where
  "writer_post crc v e f cur v' f' cur' \<longleftrightarrow>
     ext_state crc v' e f' cur' \<and> same_off e v v'
     \<and> (\<exists>m m'. iv_meta v e = Some m \<and> iv_meta v' e = Some m'
          \<and> em_status m' = em_status m \<and> em_shard_id m' = em_shard_id m)
     \<and> (\<forall>b body. stored_body crc v \<lparr>ef_file = f, ef_extent_id = e, ef_write_offset = cur\<rparr> b = Some body \<longrightarrow>
          stored_body crc v' \<lparr>ef_file = f', ef_extent_id = e, ef_write_offset = cur'\<rparr> b = Some body)
     \<and> (\<forall>b i. iv_blob v e b = Some i \<longrightarrow> iv_blob v' e b = Some i)"

lemma writer_post_refl: "ext_state crc v e f cur \<Longrightarrow> writer_post crc v e f cur v f cur"
  by (auto simp: writer_post_def same_off_def ext_state_def)

lemma writer_post_trans:
  assumes "writer_post crc v e f cur v1 f1 cur1" "writer_post crc v1 e f1 cur1 v2 f2 cur2"
  shows "writer_post crc v e f cur v2 f2 cur2"
proof -
  have "same_off e v v2" using assms same_off_trans unfolding writer_post_def by blast
  moreover have "\<exists>m m'. iv_meta v e = Some m \<and> iv_meta v2 e = Some m'
      \<and> em_status m' = em_status m \<and> em_shard_id m' = em_shard_id m"
    using assms unfolding writer_post_def by (metis option.inject)
  ultimately show ?thesis using assms unfolding writer_post_def by blast
qed

text \<open>Growing the file and the cursor without committing.\<close>

lemma ext_state_extends:
  assumes "ext_state crc v e f cur"
    and "extends \<lparr>ef_file = f, ef_extent_id = e, ef_write_offset = cur\<rparr> \<lparr>ef_file = f', ef_extent_id = e, ef_write_offset = cur'\<rparr>"
  shows "ext_state crc v e f' cur'"
proof -
  from assms(1) obtain m where m: "cur \<le> length f" "prefix (extent_header_encode crc e) f" "iv_meta v e = Some m"
    "EXTENT_HEADER_LEN \<le> unat (em_size m)" "unat (em_size m) \<le> cur" "em_shard_id m = extent_shard_id e"
    "\<And>b i. iv_blob v e b = Some i \<Longrightarrow>
       \<exists>body. entry_at crc \<lparr>ef_file = f, ef_extent_id = e, ef_write_offset = unat (em_size m)\<rparr> b i body"
    unfolding ext_state_def by blast
  have x: "cur \<le> cur'" "cur' \<le> length f'" "take cur f' = take cur f" using assms(2) by (simp_all add: extends_def)
  have tk: "take n f' = take n f" if "n \<le> cur" for n
    using arg_cong [OF x(3), of "take n"] that by (simp add: min_absorb1)
  have "extends \<lparr>ef_file = f, ef_extent_id = e, ef_write_offset = unat (em_size m)\<rparr>
      \<lparr>ef_file = f', ef_extent_id = e, ef_write_offset = unat (em_size m)\<rparr>"
    using m(5) x tk [OF m(5)] by (simp add: extends_def)
  then have ent: "\<exists>body. entry_at crc \<lparr>ef_file = f', ef_extent_id = e, ef_write_offset = unat (em_size m)\<rparr> b i body"
    if "iv_blob v e b = Some i" for b i
    using m(7) [OF that] entry_at_extends by blast
  have "prefix (extent_header_encode crc e) f'"
    using m(2) tk [of EXTENT_HEADER_LEN] m(4,5) extent_header.enc_length [of crc e]
    by (metis append_eq_conv_conj le_trans prefix_def take_is_prefix)
  then show ?thesis using m x ent unfolding ext_state_def by (metis le_trans)
qed

lemma writer_post_stay:
  assumes "ext_state crc v e f cur" "extends \<lparr>ef_file = f, ef_extent_id = e, ef_write_offset = cur\<rparr> ef'"
  shows "writer_post crc v e f cur v (ef_file ef') (ef_write_offset ef')"
proof -
  let ?ef = "\<lparr>ef_file = f, ef_extent_id = e, ef_write_offset = cur\<rparr>"
  have "ef_extent_id ef' = e" using assms(2) by (simp add: extends_def)
  then have ef': "\<lparr>ef_file = ef_file ef', ef_extent_id = e, ef_write_offset = ef_write_offset ef'\<rparr> = ef'" by simp
  have "ext_state crc v e (ef_file ef') (ef_write_offset ef')"
    by (rule ext_state_extends [OF assms(1)]) (use assms(2) ef' in simp)
  moreover have "\<exists>m. iv_meta v e = Some m" using assms(1) by (auto simp: ext_state_def)
  moreover have "stored_body crc v ef' b = stored_body crc v ?ef b" for b
    by (rule extends_ok(2) [OF ext_state_extent_ok [OF assms(1)] assms(2)])
  ultimately show ?thesis unfolding writer_post_def ef' same_off_def by auto
qed

lemma writer_post_commit:
  assumes st: "ext_state crc v e f cur" and ext: "extends \<lparr>ef_file = f, ef_extent_id = e, ef_write_offset = cur\<rparr> ef'"
    and small: "ef_write_offset ef' < 2 ^ 64" and ok: "extent_ok crc v' ef'"
    and v': "v' = view_merge e (SetSize (of_nat (ef_write_offset ef'))) (view_put_blobs e xs v)"
    and keep: "\<And>b body. stored_body crc v \<lparr>ef_file = f, ef_extent_id = e, ef_write_offset = cur\<rparr> b = Some body \<Longrightarrow>
       stored_body crc v' ef' b = Some body" "\<And>b i. iv_blob v e b = Some i \<Longrightarrow> iv_blob v' e b = Some i"
  shows "writer_post crc v e f cur v' (ef_file ef') (ef_write_offset ef')"
proof -
  have id: "ef_extent_id ef' = e" using ext by (simp add: extends_def)
  then have ef': "\<lparr>ef_file = ef_file ef', ef_extent_id = e, ef_write_offset = ef_write_offset ef'\<rparr> = ef'" by simp
  have st': "ext_state crc v e (ef_file ef') (ef_write_offset ef')"
    by (rule ext_state_extends [OF st]) (use ext ef' in simp)
  obtain m where m: "iv_meta v e = Some m" using st by (auto simp: ext_state_def)
  then have m': "iv_meta v' e = Some (m\<lparr>em_size := of_nat (ef_write_offset ef')\<rparr>)"
    by (simp add: v' view_merge_def)
  have "unat (of_nat (ef_write_offset ef') :: u64) = ef_write_offset ef'"
    using small by (simp add: unsigned_of_nat take_bit_nat_eq_self)
  moreover have "\<exists>body. entry_at crc \<lparr>ef_file = ef_file ef', ef_extent_id = e, ef_write_offset = ef_write_offset ef'\<rparr> b i body"
    if "iv_blob v' e b = Some i" for b i
    using that ok id unfolding ef' extent_ok_def by blast
  ultimately have "ext_state crc v' e (ef_file ef') (ef_write_offset ef')"
    using st' m m' by (auto simp: ext_state_def)
  moreover have "same_off e v v'" by (simp add: v' same_off_def view_merge_def view_put_blobs_def)
  ultimately show ?thesis using m m' keep unfolding writer_post_def ef' by simp
qed

lemma process_batch_state:
  assumes "index_rel d v" "ext_state crc v e f cur" "cur + batch_space batch < 2 ^ 64"
    and run: "process_batch crc fl batch d \<lparr>ef_file = f, ef_extent_id = e, ef_write_offset = cur\<rparr> = (rs, d', ef')"
  shows "\<exists>v'. index_rel d' v' \<and> writer_post crc v e f cur v' (ef_file ef') (ef_write_offset ef')
     \<and> ef_extent_id ef' = e \<and> ef_write_offset ef' \<le> cur + batch_space batch
     \<and> (\<forall>n. (n, Ok Written) \<in> set rs \<longrightarrow>
            (\<exists>req \<in> set batch. wq_reply req = n \<and> stored_body crc v' ef' (wq_blob req) = Some (wq_body req) \<and> live_in v' e (wq_blob req)))"
proof -
  let ?ef = "\<lparr>ef_file = f, ef_extent_id = e, ef_write_offset = cur\<rparr>"
  have ok: "extent_ok crc v ?ef" by (rule ext_state_extent_ok [OF assms(2)])
  obtain xs v' where b: "index_rel d' v'" "extent_ok crc v' ef'" "extends ?ef ef'"
    "ef_write_offset ef' \<le> cur + batch_space batch"
    "v' = v \<or> v' = view_merge e (SetSize (of_nat (ef_write_offset ef'))) (view_put_blobs e xs v)"
    "\<And>b body. stored_body crc v ?ef b = Some body \<Longrightarrow> stored_body crc v' ef' b = Some body"
    "\<And>b i. iv_blob v e b = Some i \<Longrightarrow> iv_blob v' e b = Some i"
    "\<forall>n. (n, Ok Written) \<in> set rs \<longrightarrow>
            (\<exists>req \<in> set batch. wq_reply req = n \<and> stored_body crc v' ef' (wq_blob req) = Some (wq_body req) \<and> live_in v' e (wq_blob req))"
    using process_batch_effect [OF assms(1) ok _ run] assms(3) by auto
  have id: "ef_extent_id ef' = e" using b(3) by (simp add: extends_def)
  have "ef_write_offset ef' < 2 ^ 64" using b(4) assms(3) by simp
  then have "writer_post crc v e f cur v' (ef_file ef') (ef_write_offset ef')"
    using b(5) writer_post_commit [OF assms(2) b(3) _ b(2) _ b(6,7)] writer_post_stay [OF assms(2) b(3)] by blast
  then show ?thesis using b id by blast
qed

lemma write_blob_state:
  assumes "index_rel d v" and st: "ext_state crc v e f cur" and len: "length body < 2 ^ 32"
    and space: "cur + record_len (b, ShardId 0, body) < 2 ^ 64"
    and run: "write_blob crc fl b body d \<lparr>ef_file = f, ef_extent_id = e, ef_write_offset = cur\<rparr> = (r, d', ef')"
  shows "\<exists>v'. index_rel d' v' \<and> writer_post crc v e f cur v' (ef_file ef') (ef_write_offset ef')
     \<and> ef_extent_id ef' = e \<and> ef_write_offset ef' \<le> cur + record_len (b, ShardId 0, body)
     \<and> (\<forall>c. c \<noteq> b \<longrightarrow> iv_blob v' e c = iv_blob v e c)
     \<and> (\<forall>w. r = Ok w \<and> iv_blob v e b = None \<longrightarrow> live_in v' e b \<and> stored_body crc v' ef' b = Some body)"
proof -
  let ?ef = "\<lparr>ef_file = f, ef_extent_id = e, ef_write_offset = cur\<rparr>"
  have ok: "extent_ok crc v ?ef" by (rule ext_state_extent_ok [OF st])
  have cur: "ef_write_offset ?ef \<le> length (ef_file ?ef)" using st by (simp add: ext_state_def)
  show ?thesis
  proof (rule write_blob_cases [OF assms(1) cur len _ run])
    show "ef_write_offset ?ef + record_len (b, ShardId 0, body) < 2 ^ 64" using space by simp
  next
    fix err assume c: "r = Err err" "d' = d" "extends ?ef ef'" "ef_write_offset ef' \<le> ef_write_offset ?ef + record_len (b, ShardId 0, body)"
    then show ?thesis
      using assms(1) writer_post_stay [OF st c(3)] by (intro exI [of _ v]) (auto simp: extends_def)
  next
    fix i assume "iv_blob v (ef_extent_id ?ef) b = Some i" "r = Ok AlreadyExists" "d' = d" "ef' = ?ef"
    then show ?thesis using assms(1) writer_post_refl [OF st] by (intro exI [of _ v]) auto
  next
    let ?i = "blob_index_new (of_nat (ef_write_offset ?ef)) (of_nat (length body)) (crc body)"
    fix m assume c: "iv_meta v (ef_extent_id ?ef) = Some m" "iv_blob v (ef_extent_id ?ef) b = None" "r = Ok Written"
      "extends ?ef ef'" "entry_at crc ef' b ?i body"
      "d' = commit_blobs (ef_extent_id ?ef) [(b, ?i)] (of_nat (ef_write_offset ef')) d"
      "ef_write_offset ef' = ef_write_offset ?ef + record_len (b, ShardId 0, body)"
    let ?v = "view_merge e (SetSize (of_nat (ef_write_offset ef'))) (view_put_blobs e [(b, ?i)] v)"
    have rel: "index_rel d' ?v" using commit_blobs_rel [OF assms(1)] c(1,6) by simp
    have id: "ef_extent_id ef' = e" using c(4) by (simp add: extends_def)
    have new: "iv_blob v e a = None \<and> (\<exists>body. entry_at crc ef' a j body)" if "(a, j) \<in> set [(b, ?i)]" for a j
      using that c(2,5) by auto
    have "distinct (map fst [(b, ?i)])" "e = ef_extent_id ?ef" by simp_all
    note com = commit_extent_ok [OF ok c(4) this(2,1) new, where sz = "of_nat (ef_write_offset ef')"]
    have post: "writer_post crc v e f cur ?v (ef_file ef') (ef_write_offset ef')"
      using space c(7) com by (intro writer_post_commit [OF st c(4)]) simp_all
    have blob: "iv_blob ?v e a = (if a = b then Some ?i else iv_blob v e a)" for a
      by (auto simp: view_put_blobs_lookup)
    have "stored_body crc ?v ef' b = Some body" using c(5) by (intro stored_body_entry) (simp_all add: id view_put_blobs_lookup)
    moreover have "live_in ?v e b" by (simp add: live_in_def view_put_blobs_lookup is_tombstoned_def blob_index_new_def)
    ultimately show ?thesis using rel post id c(7) blob by (intro exI [of _ ?v]) simp
  qed
qed

lemma batch_space_append: "batch_space (a @ b) = batch_space a + batch_space b"
  by (simp add: batch_space_def)

lemma writer_loop_state:
  assumes "index_rel d v" "ext_state crc v e f cur" "cur + batch_space rx < 2 ^ 64"
    and "writer_loop crc fl rx d \<lparr>ef_file = f, ef_extent_id = e, ef_write_offset = cur\<rparr> = (rs, d', ef')"
  shows "\<exists>v'. index_rel d' v' \<and> writer_post crc v e f cur v' (ef_file ef') (ef_write_offset ef')
     \<and> ef_extent_id ef' = e \<and> ef_write_offset ef' \<le> cur + batch_space rx
     \<and> (\<forall>n. (n, Ok Written) \<in> set rs \<longrightarrow>
            (\<exists>req \<in> set rx. wq_reply req = n \<and> stored_body crc v' ef' (wq_blob req) = Some (wq_body req) \<and> live_in v' e (wq_blob req)))"
  using assms
proof (induction "length rx" arbitrary: rx d v f cur rs rule: less_induct)
  case less
  let ?ef = "\<lparr>ef_file = f, ef_extent_id = e, ef_write_offset = cur\<rparr>"
  show ?case
  proof (cases "rx = []")
    case True
    then have "rs = []" "d' = d" "ef' = ?ef" using less.prems(4) by (simp_all add: writer_loop.simps)
    then show ?thesis using less.prems(1) writer_post_refl [OF less.prems(2)] by (intro exI [of _ v]) simp
  next
    case False
    obtain batch rest where tb: "take_batch rx = (batch, rest)" by (cases "take_batch rx")
    have rx: "rx = batch @ rest" using take_batch_split(1) [OF tb] by simp
    obtain r1 d1 ef1 where p: "process_batch crc fl batch d ?ef = (r1, d1, ef1)" by (metis prod_cases3)
    obtain r2 where l: "writer_loop crc fl rest d1 ef1 = (r2, d', ef')" "rs = r1 @ r2"
      using less.prems(4) False by (simp add: writer_loop.simps [of crc fl rx] tb p split: prod.splits)
    obtain v1 where s1: "index_rel d1 v1" "writer_post crc v e f cur v1 (ef_file ef1) (ef_write_offset ef1)"
      "ef_extent_id ef1 = e" "ef_write_offset ef1 \<le> cur + batch_space batch"
      "\<forall>n. (n, Ok Written) \<in> set r1 \<longrightarrow>
            (\<exists>req \<in> set batch. wq_reply req = n \<and> stored_body crc v1 ef1 (wq_blob req) = Some (wq_body req) \<and> live_in v1 e (wq_blob req))"
      using process_batch_state [OF less.prems(1,2) _ p] less.prems(3) by (auto simp: rx batch_space_append)
    have ef1: "ef1 = \<lparr>ef_file = ef_file ef1, ef_extent_id = e, ef_write_offset = ef_write_offset ef1\<rparr>" using s1(3) by simp
    have "length rest < length rx" using take_batch_shorter [OF False] tb by simp
    moreover have "ext_state crc v1 e (ef_file ef1) (ef_write_offset ef1)" using s1(2) by (simp add: writer_post_def)
    moreover have "ef_write_offset ef1 + batch_space rest < 2 ^ 64" using s1(4) less.prems(3) by (simp add: rx batch_space_append)
    ultimately obtain v2 where s2: "index_rel d' v2"
      "writer_post crc v1 e (ef_file ef1) (ef_write_offset ef1) v2 (ef_file ef') (ef_write_offset ef')"
      "ef_extent_id ef' = e" "ef_write_offset ef' \<le> ef_write_offset ef1 + batch_space rest"
      "\<forall>n. (n, Ok Written) \<in> set r2 \<longrightarrow>
            (\<exists>req \<in> set rest. wq_reply req = n \<and> stored_body crc v2 ef' (wq_blob req) = Some (wq_body req) \<and> live_in v2 e (wq_blob req))"
      using less.hyps [of rest d1 v1 "ef_file ef1" "ef_write_offset ef1" r2] s1(1) l(1) ef1 by auto
    have ef': "ef' = \<lparr>ef_file = ef_file ef', ef_extent_id = e, ef_write_offset = ef_write_offset ef'\<rparr>" using s2(3) by simp
    have keep: "stored_body crc v2 ef' b = Some body" if "stored_body crc v1 ef1 b = Some body" for b body
      using s2(2) ef1 ef' that unfolding writer_post_def by metis
    have keep': "live_in v2 e b" if "live_in v1 e b" for b
      using s2(2) that by (auto simp: writer_post_def live_in_def split: option.splits)
    have "\<forall>n. (n, Ok Written) \<in> set rs \<longrightarrow>
            (\<exists>req \<in> set rx. wq_reply req = n \<and> stored_body crc v2 ef' (wq_blob req) = Some (wq_body req) \<and> live_in v2 e (wq_blob req))"
      using s1(5) s2(5) keep keep' unfolding l(2) rx set_append by blast
    then show ?thesis
      using s2(1,3,4) s1(4) writer_post_trans [OF s1(2) s2(2)] by (intro exI [of _ v2]) (simp add: rx batch_space_append)
  qed
qed

text \<open>A writer whose extent has been reclaimed changes nothing.\<close>

lemma process_batch_unknown:
  "index_rel d v \<Longrightarrow> iv_meta v (ef_extent_id ef) = None \<Longrightarrow>
     process_batch crc fl batch d ef = (map (\<lambda>req. (wq_reply req, Err (to_epoch (SE_ExtentNotFound (ef_extent_id ef))))) batch, d, ef)"
  by (simp add: process_batch_def load_writable_meta_def)

lemma writer_loop_unknown:
  "index_rel d v \<Longrightarrow> iv_meta v (ef_extent_id ef) = None \<Longrightarrow>
     snd (writer_loop crc fl rx d ef) = (d, ef) \<and> (n, Ok w) \<notin> set (fst (writer_loop crc fl rx d ef))"
proof (induction "length rx" arbitrary: rx rule: less_induct)
  case less
  show ?case
  proof (cases "rx = []")
    case False
    then have "snd (writer_loop crc fl (snd (take_batch rx)) d ef) = (d, ef)
       \<and> (n, Ok w) \<notin> set (fst (writer_loop crc fl (snd (take_batch rx)) d ef))"
      using less.hyps less.prems take_batch_shorter by blast
    then show ?thesis
      using less.prems by (subst (1 2) writer_loop.simps) (auto simp: process_batch_unknown split: prod.splits)
  qed (simp add: writer_loop.simps)
qed

section \<open>Updating one extent of the engine\<close>

lemma names_ok_simps [simp]:
  "names_ok dk \<Longrightarrow> names_ok (put_extent_bytes e f dk)"
  "names_ok dk \<Longrightarrow> names_ok (dk\<lparr>dk_extents := fmdrop name (dk_extents dk), dk_trash := tr\<rparr>)"
  "names_ok (dk\<lparr>dk_trash := tr\<rparr>) = names_ok dk"
  by (auto simp: names_ok_def put_extent_bytes_def split: if_splits)

lemma names_ok_put_handle [simp]: "names_ok dk \<Longrightarrow> names_ok (put_handle_bytes e f dk)"
  by (simp add: put_handle_bytes_def split: option.splits)

lemma extent_bytes_put_handle:
  "extent_bytes (put_handle_bytes e f dk) x = (if x = e \<and> extent_bytes dk e \<noteq> None then Some f else extent_bytes dk x)"
  by (auto simp: put_handle_bytes_def put_extent_bytes_def extent_bytes_def split: option.splits)

lemma engine_inv_update_set:
  assumes "engine_inv crc v en"
    and "index_rel (en_index en') v'" "bind_ok v'" "names_ok (en_disk en')"
    and "\<And>x. x \<notin> es \<Longrightarrow> iv_meta v' x = iv_meta v x \<and> iv_blob v' x = iv_blob v x
           \<and> extent_bytes (en_disk en') x = extent_bytes (en_disk en) x
           \<and> fmlookup (en_writers en') x = fmlookup (en_writers en) x"
    and "\<And>x. x \<in> es \<Longrightarrow> ext_ok crc v' en' x"
  shows "engine_inv crc v' en'"
proof -
  have "ext_ok crc v' en' x" for x
  proof (cases "x \<in> es")
    case False
    have "ext_ok crc v en x" using assms(1) by (simp add: engine_inv_def)
    then show ?thesis using assms(5) [OF False] by (blast intro: ext_ok_frame)
  qed (rule assms(6))
  then show ?thesis using assms(2-4) by (simp add: engine_inv_def)
qed

lemma engine_inv_update:
  assumes "engine_inv crc v en"
    and "index_rel (en_index en') v'" "bind_ok v'" "names_ok (en_disk en')"
    and "\<And>x. x \<noteq> e \<Longrightarrow> iv_meta v' x = iv_meta v x \<and> iv_blob v' x = iv_blob v x
           \<and> extent_bytes (en_disk en') x = extent_bytes (en_disk en) x
           \<and> fmlookup (en_writers en') x = fmlookup (en_writers en) x"
    and "ext_ok crc v' en' e"
  shows "engine_inv crc v' en'"
  by (rule engine_inv_update_set [OF assms(1-4), of "{e}"]) (use assms(5,6) in simp_all)

lemma bind_ok_refresh:
  assumes "bind_ok v" "iv_bind v' = iv_bind v"
    and "\<And>x m. iv_meta v x = Some m \<Longrightarrow> em_status m \<noteq> Dropped \<Longrightarrow>
           \<exists>m'. iv_meta v' x = Some m' \<and> em_status m' \<noteq> Dropped \<and> em_shard_id m' = em_shard_id m"
  shows "bind_ok v'"
  using assms unfolding bind_ok_def by metis

text \<open>A blob that an engine serves and another serves too, still live if it was.\<close>

definition serves :: "checksum \<Rightarrow> index_view \<Rightarrow> engine \<Rightarrow> index_view \<Rightarrow> engine \<Rightarrow> extent_id \<Rightarrow> blob_id \<Rightarrow> bool" where
  "serves crc v en v' en' e b \<longleftrightarrow>
     (\<forall>body. engine_body crc v en e b = Some body \<longrightarrow> engine_body crc v' en' e b = Some body)
     \<and> (live_in v e b \<longrightarrow> live_in v' e b)"

lemma serves_frame:
  "iv_blob v' x = iv_blob v x \<Longrightarrow> extent_bytes (en_disk en') x = extent_bytes (en_disk en) x \<Longrightarrow> serves crc v en v' en' x b"
  by (simp add: serves_def engine_body_def stored_body_def live_in_def split: option.splits)

text \<open>The body of an entry does not depend on the cursor.\<close>

lemma stored_body_cursor:
  "stored_body crc v \<lparr>ef_file = f, ef_extent_id = e, ef_write_offset = cur\<rparr> b
     = stored_body crc v \<lparr>ef_file = f, ef_extent_id = e, ef_write_offset = cur'\<rparr> b"
  by (simp add: stored_body_def read_record_def split: option.split)

lemma engine_inv_writer:
  assumes inv: "engine_inv crc v en" and f: "extent_bytes (en_disk en) e = Some f"
    and post: "writer_post crc v e f cur v' f' cur'" and rel: "index_rel d' v'"
    and ws: "\<And>x. x \<noteq> e \<Longrightarrow> fmlookup ws x = fmlookup (en_writers en) x" "\<And>w. fmlookup ws e = Some w \<Longrightarrow> wt_offset w = cur'"
    and en': "en' = en\<lparr>en_index := d', en_disk := put_handle_bytes e f' (en_disk en), en_writers := ws\<rparr>"
  shows "engine_inv crc v' en' \<and> (\<forall>x b. serves crc v en v' en' x b)"
proof -
  from post have st: "ext_state crc v' e f' cur'" and off: "same_off e v v'" unfolding writer_post_def by blast+
  from post obtain m m' where m: "iv_meta v e = Some m" "iv_meta v' e = Some m'"
    "em_status m' = em_status m" "em_shard_id m' = em_shard_id m" unfolding writer_post_def by blast
  have same: "iv_bind v' = iv_bind v" "\<And>x. x \<noteq> e \<Longrightarrow> iv_meta v' x = iv_meta v x \<and> iv_blob v' x = iv_blob v x"
    using off by (simp_all add: same_off_def)
  have ok: "bind_ok v" "names_ok (en_disk en)" using inv by (simp_all add: engine_inv_def)
  have bind: "bind_ok v'"
    by (rule bind_ok_refresh [OF ok(1) same(1)]) (metis m option.inject same(2))
  have f': "extent_bytes (en_disk en') e = Some f'" by (simp add: en' extent_bytes_put_handle f)
  have "cur' \<le> length f'" using st by (simp add: ext_state_def)
  then have "ext_state crc v' e f' (cursor_of en' e f')"
    using ws(2) ext_state_cursor [OF st] st by (simp add: cursor_of_def en' split: option.split)
  then have "ext_ok crc v' en' e" using m(2) f' by (simp add: ext_ok_def)
  then have inv': "engine_inv crc v' en'"
    by (intro engine_inv_update [OF inv, where e = e] bind)
      (use rel ok same ws(1) in \<open>simp_all add: en' extent_bytes_put_handle\<close>)
  have "serves crc v en v' en' x b" for x b
  proof (cases "x = e")
    case True
    have "live_in v e b \<Longrightarrow> live_in v' e b"
      using post by (auto simp: writer_post_def live_in_def split: option.splits)
    then show ?thesis
      using True post f f' stored_body_cursor [of crc v f e "length f" b cur] stored_body_cursor [of crc v' f' e "length f'" b cur']
      by (simp add: serves_def engine_body_def writer_post_def)
  next
    case False
    then show ?thesis using same by (intro serves_frame) (simp_all add: en' extent_bytes_put_handle)
  qed
  then show ?thesis using inv' by blast
qed

section \<open>The writer threads keep the invariant\<close>

text \<open>The queue of a writer fits the file offsets.\<close>

definition queue_fits :: "extent_id \<Rightarrow> engine \<Rightarrow> bool" where
  "queue_fits e en \<longleftrightarrow>
     (case fmlookup (en_writers en) e of None \<Rightarrow> True | Some w \<Rightarrow> wt_offset w + batch_space (wt_queue w) < 2 ^ 64)"

lemma put_handle_same: "put_handle_bytes e (handle_bytes dk e) dk = dk"
proof -
  have "fmupd k x m = m" if "fmlookup m k = Some x" for k x and m :: "(bytes, bytes) fmap"
    using that by (intro fmap_ext) auto
  then show ?thesis
    by (auto simp: put_handle_bytes_def handle_bytes_def put_extent_bytes_def extent_bytes_def split: option.split)
qed

lemma engine_inv_writers_only:
  assumes "engine_inv crc v en" "iv_meta v e = None" "\<And>x. x \<noteq> e \<Longrightarrow> fmlookup ws x = fmlookup (en_writers en) x"
  shows "engine_inv crc v (en\<lparr>en_writers := ws\<rparr>) \<and> (\<forall>x b. serves crc v en v (en\<lparr>en_writers := ws\<rparr>) x b)"
proof -
  have "ext_ok crc v en e" "index_rel (en_index en) v" "bind_ok v" "names_ok (en_disk en)"
    using assms(1) by (simp_all add: engine_inv_def)
  then show ?thesis
    using assms by (intro conjI engine_inv_update [OF assms(1), where e = e])
      (auto simp: ext_ok_def serves_def engine_body_def)
qed

text \<open>A writer of a known extent works on the extent's file at its cursor.\<close>

lemma writer_file_state:
  assumes "engine_inv crc v en" "fmlookup (en_writers en) e = Some w" "iv_meta v e = Some m"
  shows "\<exists>f. extent_bytes (en_disk en) e = Some f \<and> ext_state crc v e f (wt_offset w)
     \<and> writer_file en e w = \<lparr>ef_file = f, ef_extent_id = e, ef_write_offset = wt_offset w\<rparr>"
  using engine_inv_ext [OF assms(1,3)] assms(2) by (auto simp: cursor_of_def writer_file_def handle_bytes_def)

text \<open>Running a writer over requests: one round, the drain on stop, and a served write.\<close>

lemma engine_writer_run:
  assumes inv: "engine_inv crc v en" and w: "fmlookup (en_writers en) e = Some w"
    and fits: "wt_offset w + batch_space q < 2 ^ 64"
    and run: "writer_loop crc fl q (en_index en) (writer_file en e w) = (rs, d', ef')
       \<or> process_batch crc fl q (en_index en) (writer_file en e w) = (rs, d', ef')"
    and ws: "\<And>x. x \<noteq> e \<Longrightarrow> fmlookup ws x = fmlookup (en_writers en) x"
       "\<And>w. fmlookup ws e = Some w \<Longrightarrow> wt_offset w = ef_write_offset ef'"
    and en': "en' = en\<lparr>en_index := d', en_disk := put_handle_bytes e (ef_file ef') (en_disk en), en_writers := ws\<rparr>"
  shows "\<exists>v'. engine_inv crc v' en' \<and> same_off e v v' \<and> (\<forall>x b. serves crc v en v' en' x b)
     \<and> (\<forall>n. (n, Ok Written) \<in> set rs \<longrightarrow>
          (\<exists>req \<in> set q. wq_reply req = n \<and> engine_body crc v' en' e (wq_blob req) = Some (wq_body req) \<and> live_in v' e (wq_blob req)))"
proof (cases "iv_meta v e")
  case None
  have rel: "index_rel (en_index en) v" using inv by (rule engine_inv_rel)
  have none: "iv_meta v (ef_extent_id (writer_file en e w)) = None" by (simp add: writer_file_def None)
  have run': "d' = en_index en \<and> ef' = writer_file en e w \<and> (n, Ok Written) \<notin> set rs" for n
    using run process_batch_unknown [OF rel none, of crc fl q] writer_loop_unknown [OF rel none, of crc fl q n Written] by auto
  then have "en' = en\<lparr>en_writers := ws\<rparr>" by (simp add: en' writer_file_def put_handle_same)
  then show ?thesis
    using run' engine_inv_writers_only [OF inv None, of ws] ws(1) by (intro exI [of _ v]) (simp add: same_off_def)
next
  case (Some m)
  obtain f where f: "extent_bytes (en_disk en) e = Some f" "ext_state crc v e f (wt_offset w)"
    "writer_file en e w = \<lparr>ef_file = f, ef_extent_id = e, ef_write_offset = wt_offset w\<rparr>"
    using writer_file_state [OF inv w Some] by blast
  have rel: "index_rel (en_index en) v" using inv by (rule engine_inv_rel)
  obtain v' where v': "index_rel d' v'" "writer_post crc v e f (wt_offset w) v' (ef_file ef') (ef_write_offset ef')"
     "ef_extent_id ef' = e"
     "\<forall>n. (n, Ok Written) \<in> set rs \<longrightarrow>
            (\<exists>req \<in> set q. wq_reply req = n \<and> stored_body crc v' ef' (wq_blob req) = Some (wq_body req) \<and> live_in v' e (wq_blob req))"
    using run writer_loop_state [OF rel f(2) fits] process_batch_state [OF rel f(2) fits] unfolding f(3) by blast
  have bytes: "extent_bytes (en_disk en') e = Some (ef_file ef')" by (simp add: en' extent_bytes_put_handle f(1))
  have "ef' = \<lparr>ef_file = ef_file ef', ef_extent_id = e, ef_write_offset = ef_write_offset ef'\<rparr>" using v'(3) by simp
  then have "stored_body crc v' ef' b = engine_body crc v' en' e b" for b
    using stored_body_cursor [of crc v' "ef_file ef'" e "ef_write_offset ef'" b "length (ef_file ef')"]
    by (simp add: engine_body_def bytes)
  then show ?thesis
    using engine_inv_writer [OF inv f(1) v'(2,1) ws en'] v'(2,4) unfolding writer_post_def by auto
qed

lemma writer_round_inv:
  assumes "engine_inv crc v en" "queue_fits e en" "writer_round crc fl e en = (rs, en')"
  shows "\<exists>v'. engine_inv crc v' en' \<and> same_off e v v' \<and> (\<forall>x b. serves crc v en v' en' x b)
     \<and> (\<forall>n. (n, Ok Written) \<in> set rs \<longrightarrow>
          (\<exists>w. fmlookup (en_writers en) e = Some w \<and>
            (\<exists>req \<in> set (wt_queue w). wq_reply req = n \<and> engine_body crc v' en' e (wq_blob req) = Some (wq_body req) \<and> live_in v' e (wq_blob req))))"
proof (cases "fmlookup (en_writers en) e")
  case None
  then show ?thesis using assms by (auto simp: writer_round_def same_off_def serves_def)
next
  case (Some w)
  obtain batch rest where tb: "take_batch (wt_queue w) = (batch, rest)" by (cases "take_batch (wt_queue w)")
  obtain rs' d' ef' where p: "process_batch crc fl batch (en_index en) (writer_file en e w) = (rs', d', ef')" by (metis prod_cases3)
  have q: "wt_queue w = batch @ rest" using take_batch_split(1) [OF tb] by simp
  have "wt_offset w + batch_space batch < 2 ^ 64"
    using assms(2) Some by (simp add: queue_fits_def q batch_space_append)
  note run = engine_writer_run [OF assms(1) Some this disjI2 [OF p],
      of "fmupd e \<lparr>wt_offset = ef_write_offset ef', wt_queue = rest\<rparr> (en_writers en)" en']
  have rs: "rs = rs'" and en': "en' = en\<lparr>en_index := d', en_disk := put_handle_bytes e (ef_file ef') (en_disk en),
      en_writers := fmupd e \<lparr>wt_offset = ef_write_offset ef', wt_queue = rest\<rparr> (en_writers en)\<rparr>"
    using assms(3) by (simp_all add: writer_round_def Some tb p)
  obtain v' where "engine_inv crc v' en'" "same_off e v v'" "\<forall>x b. serves crc v en v' en' x b"
    "\<forall>n. (n, Ok Written) \<in> set rs \<longrightarrow>
       (\<exists>req \<in> set batch. wq_reply req = n \<and> engine_body crc v' en' e (wq_blob req) = Some (wq_body req) \<and> live_in v' e (wq_blob req))"
    using run [OF _ _ en'] unfolding rs by auto
  then show ?thesis using Some q by (intro exI [of _ v']) auto
qed

lemma stop_writer_inv:
  assumes "engine_inv crc v en" "queue_fits e en" "stop_writer crc fl e en = (rs, en')"
  shows "\<exists>v'. engine_inv crc v' en' \<and> same_off e v v' \<and> (\<forall>x b. serves crc v en v' en' x b)"
proof (cases "fmlookup (en_writers en) e")
  case None
  then show ?thesis using assms by (auto simp: stop_writer_def same_off_def serves_def)
next
  case (Some w)
  obtain rs' d' ef' where p: "writer_loop crc fl (wt_queue w) (en_index en) (writer_file en e w) = (rs', d', ef')" by (metis prod_cases3)
  have "wt_offset w + batch_space (wt_queue w) < 2 ^ 64" using assms(2) Some by (simp add: queue_fits_def)
  from engine_writer_run [OF assms(1) Some this disjI1 [OF p], of "fmdrop e (en_writers en)" en'] assms(3)
  show ?thesis by (auto simp: stop_writer_def Some p)
qed

text \<open>Only the writers of other extents, and the queues, are beyond its reach.\<close>

lemma stop_writer_frame:
  assumes "stop_writer crc fl e en = (rs, en')"
  shows "fmlookup (en_writers en') e = None" "x \<noteq> e \<Longrightarrow> fmlookup (en_writers en') x = fmlookup (en_writers en) x"
    "x \<noteq> e \<Longrightarrow> extent_bytes (en_disk en') x = extent_bytes (en_disk en) x"
  using assms by (auto simp: stop_writer_def extent_bytes_put_handle split: option.splits prod.splits)

end
