(* ===== verification/Store_Reach.thy ===== *)
theory Store_Reach
  imports Store_Invariant
begin

text \<open>
  Every call of the storage engine keeps the engine invariant, and what each call keeps of the blobs
  already stored. On top of these lemmas: the steps an engine can take, their reachable states, and
  the properties of reachable states.
\<close>

section \<open>Calls that change no data\<close>

lemma engine_body_cong:
  "en_disk en' = en_disk en \<Longrightarrow> iv_blob v' e = iv_blob v e \<Longrightarrow> engine_body crc v' en' e b = engine_body crc v en e b"
  by (simp add: engine_body_def stored_body_def split: option.split)

lemma ext_ok_cong:
  "en_disk en' = en_disk en \<Longrightarrow> (\<And>f. cursor_of en' e f = cursor_of en e f) \<Longrightarrow> ext_ok crc v en' e = ext_ok crc v en e"
  by (simp add: ext_ok_def split: option.split)

lemma engine_inv_cong:
  assumes "en_disk en' = en_disk en" "en_writers en' = en_writers en"
  shows "engine_inv crc v en' \<longleftrightarrow> index_rel (en_index en') v \<and> bind_ok v \<and> names_ok (en_disk en) \<and> (\<forall>e. ext_ok crc v en e)"
proof -
  have "ext_ok crc v en' e = ext_ok crc v en e" for e by (rule ext_ok_cong) (simp_all add: assms cursor_of_def)
  then show ?thesis using assms(1) by (simp add: engine_inv_def)
qed

lemma observe_same [simp]:
  "en_disk (observe r en) = en_disk en" "en_index (observe r en) = en_index en" "en_writers (observe r en) = en_writers en"
  by (simp_all add: observe_def mark_broken_def split: sum.split epoch_error.split)

lemma engine_inv_observe [simp]: "engine_inv crc v (observe r en) = engine_inv crc v en"
  by (subst engine_inv_cong [of _ en]) (simp_all add: engine_inv_def)

lemma engine_body_observe [simp]: "engine_body crc v (observe r en) e b = engine_body crc v en e b"
  by (rule engine_body_cong) simp_all

lemma enqueue_write_inv:
  assumes inv: "engine_inv crc v en" and run: "enqueue_write e b body n en = (r, en')"
  shows "engine_inv crc v en'" "en_disk en' = en_disk en"
proof -
  show "en_disk en' = en_disk en" using run by (auto simp: enqueue_write_def split: option.splits)
  show "engine_inv crc v en'"
  proof (cases "fmlookup (en_writers en) e")
    case (Some w)
    then have en': "en' = en\<lparr>en_writers := fmupd e
        (w\<lparr>wt_queue := wt_queue w @ [\<lparr>wq_blob = b, wq_body = body, wq_reply = n\<rparr>]\<rparr>) (en_writers en)\<rparr>"
      using run by (simp add: enqueue_write_def)
    have "cursor_of en' x f = cursor_of en x f" for x f using Some by (auto simp: cursor_of_def en')
    then have "ext_ok crc v en' x = ext_ok crc v en x" for x by (intro ext_ok_cong) (simp_all add: en')
    then show ?thesis using inv by (simp add: engine_inv_def en')
  qed (use inv run in \<open>simp add: enqueue_write_def\<close>)
qed

section \<open>Status changes and deletion\<close>

lemma ext_ok_refresh:
  assumes "ext_ok crc v en e" "iv_meta v e = Some m" "iv_meta v' e = Some m'"
    and "em_size m' = em_size m" "em_shard_id m' = em_shard_id m"
    and "\<And>b i'. iv_blob v' e b = Some i' \<Longrightarrow>
           \<exists>i. iv_blob v e b = Some i \<and> bi_offset i' = bi_offset i \<and> bi_size i' = bi_size i \<and> bi_crc i' = bi_crc i"
    and "en_disk en' = en_disk en" "en_writers en' = en_writers en"
  shows "ext_ok crc v' en' e"
proof -
  obtain f where "extent_bytes (en_disk en) e = Some f" "ext_state crc v e f (cursor_of en e f)"
    using assms(1,2) by (auto simp: ext_ok_def)
  moreover have "cursor_of en' e f = cursor_of en e f" by (simp add: cursor_of_def assms(8))
  ultimately show ?thesis
    using ext_state_refresh [OF _ assms(2-6)] assms(3,7) by (simp add: ext_ok_def)
qed

lemma engine_inv_status:
  assumes inv: "engine_inv crc v en" and m: "iv_meta v e = Some m" and s: "s \<noteq> Dropped"
    and d: "d = apply_batch_op (BatchMerge (extent_key e) (merge_op_encode (SetStatus s))) (en_index en)"
  shows "engine_inv crc (view_merge e (SetStatus s) v) (en\<lparr>en_index := d\<rparr>)"
proof -
  let ?v = "view_merge e (SetStatus s) v"
  have ok: "index_rel (en_index en) v" "bind_ok v" "names_ok (en_disk en)" "ext_ok crc v en e"
    using inv by (simp_all add: engine_inv_def)
  have meta: "iv_meta ?v e = Some (m\<lparr>em_status := s\<rparr>)" by (simp add: view_merge_def m)
  have rest: "iv_bind ?v = iv_bind v" "iv_blob ?v = iv_blob v" "\<And>x. x \<noteq> e \<Longrightarrow> iv_meta ?v x = iv_meta v x"
    by (simp_all add: view_merge_def)
  have bind: "bind_ok ?v" by (rule bind_ok_refresh [OF ok(2) rest(1)]) (use meta m s rest(3) in force)
  have "ext_ok crc ?v (en\<lparr>en_index := d\<rparr>) e"
    by (rule ext_ok_refresh [OF ok(4) m meta]) (simp_all add: rest)
  moreover have "index_rel d ?v" unfolding d using rel_merge [OF ok(1)] m by blast
  ultimately show ?thesis
    by (intro engine_inv_update [OF inv, where e = e] bind) (use ok rest in simp_all)
qed

lemma promote_rebuilt_inv:
  assumes inv: "engine_inv crc v en" and run: "promote_rebuilt_blocking e en = (r, en')"
  shows "\<exists>v'. engine_inv crc v' en' \<and> en_disk en' = en_disk en \<and> iv_bind v' = iv_bind v \<and> iv_blob v' = iv_blob v"
proof -
  note rel = engine_inv_rel [OF inv]
  consider "en' = en" | m where "iv_meta v e = Some m"
    "en' = en\<lparr>en_index := apply_batch_op (BatchMerge (extent_key e) (merge_op_encode (SetStatus Writable))) (en_index en)\<rparr>"
    using run by (cases "iv_meta v e")
      (auto simp: promote_rebuilt_blocking_def get_extent_meta_rel [OF rel] status_merge_rel [OF rel]
        simp del: apply_batch_op.simps merge_op_encode.simps split: extent_status.splits)
  then show ?thesis
  proof cases
    case 2
    then show ?thesis
      using engine_inv_status [OF inv 2(1), of Writable] by (intro exI [of _ "view_merge e (SetStatus Writable) v"]) (simp add: view_merge_def)
  qed (use inv in blast)
qed

lemma delete_blocking_inv:
  assumes inv: "engine_inv crc v en" and run: "delete_blocking e b en = (r, en')"
  shows "\<exists>v'. engine_inv crc v' en' \<and> en_disk en' = en_disk en
     \<and> r = Ok (live_in v (case iv_bind v (shard_prefix (extent_shard_id e)) of Some x \<Rightarrow> x | None \<Rightarrow> e) b)
     \<and> v' = view_tombstone (case iv_bind v (shard_prefix (extent_shard_id e)) of Some x \<Rightarrow> x | None \<Rightarrow> e) b v"
proof -
  define t where "t = (case iv_bind v (shard_prefix (extent_shard_id e)) of Some x \<Rightarrow> x | None \<Rightarrow> e)"
  have ok: "index_rel (en_index en) v" "bind_ok v" "names_ok (en_disk en)" "ext_ok crc v en t"
    using inv by (simp_all add: engine_inv_def)
  have live: "live_in v t b \<Longrightarrow> iv_meta v t \<noteq> None"
    using engine_inv_blob_meta [OF inv] by (auto simp: live_in_def split: option.splits)
  obtain d' where d': "tombstone_blob t b (en_index en) = Ok (live_in v t b, d')" "index_rel d' (view_tombstone t b v)"
    using tombstone_blob_rel [OF ok(1) live] by blast
  have run': "r = Ok (live_in v t b)" "en' = en\<lparr>en_index := d'\<rparr>"
    using run d'(1) by (simp_all add: delete_blocking_def get_shard_binding_rel [OF ok(1)] t_def [symmetric])
  have "engine_inv crc (view_tombstone t b v) en'"
  proof (cases "live_in v t b")
    case False
    then have "view_tombstone t b v = v" by (auto simp: view_tombstone_def live_in_def split: option.splits)
    then show ?thesis using inv d'(2) by (subst engine_inv_cong [of _ en]) (auto simp: run' engine_inv_def)
  next
    case True
    then obtain i where i: "iv_blob v t b = Some i" "\<not> is_tombstoned i" by (auto simp: live_in_def split: option.splits)
    obtain m where m: "iv_meta v t = Some m" using live True by blast
    let ?n = "of_nat (record_on_disk_len (bi_size i)) :: u64"
    let ?v = "view_tombstone t b v"
    have meta: "iv_meta ?v t = Some (merge_op_apply (AddDeletedBytes ?n) m)"
      by (simp add: view_tombstone_def i view_merge_def m)
    have blob: "iv_blob ?v t c = (if c = b then Some (set_tombstone i) else iv_blob v t c)" for c
      by (simp add: view_tombstone_def i view_merge_def view_put_blobs_def)
    have rest: "iv_bind ?v = iv_bind v" "\<And>x. x \<noteq> t \<Longrightarrow> iv_meta ?v x = iv_meta v x \<and> iv_blob ?v x = iv_blob v x"
      by (simp_all add: view_tombstone_def i view_merge_def view_put_blobs_def)
    have same: "em_size (merge_op_apply (AddDeletedBytes ?n) m) = em_size m"
      "em_shard_id (merge_op_apply (AddDeletedBytes ?n) m) = em_shard_id m"
      "em_status (merge_op_apply (AddDeletedBytes ?n) m) = em_status m" by simp_all
    have bind: "bind_ok ?v"
      by (rule bind_ok_refresh [OF ok(2) rest(1)]) (metis meta m same rest(2) option.inject)
    have "ext_ok crc ?v en' t"
      by (rule ext_ok_refresh [OF ok(4) m meta same(1,2)]) (use i in \<open>auto simp: blob run' split: if_splits\<close>)
    then show ?thesis
      by (intro engine_inv_update [OF inv, where e = t] bind) (use ok d'(2) rest in \<open>simp_all add: run'\<close>)
  qed
  then show ?thesis using run' by (simp add: t_def)
qed

text \<open>A deletion changes no body and no other blob's liveness.\<close>

lemma tombstone_keeps:
  assumes "iv_meta v t \<noteq> None \<or> iv_blob v t b = None" "en_disk en' = en_disk en"
  shows "engine_body crc (view_tombstone t b v) en' x c = engine_body crc v en x c"
    and "(x, c) \<noteq> (t, b) \<Longrightarrow> live_in (view_tombstone t b v) x c = live_in v x c"
    and "iv_bind (view_tombstone t b v) = iv_bind v"
proof -
  have blob: "iv_blob (view_tombstone t b v) x c = iv_blob v x c
     \<or> (x, c) = (t, b) \<and> iv_blob (view_tombstone t b v) t b = map_option set_tombstone (iv_blob v t b)" for x c
    by (auto simp: view_tombstone_def view_merge_def view_put_blobs_def split: option.splits)
  show "engine_body crc (view_tombstone t b v) en' x c = engine_body crc v en x c"
    using blob [of x c] by (auto simp: engine_body_def stored_body_def assms(2) split: option.splits)
  show "(x, c) \<noteq> (t, b) \<Longrightarrow> live_in (view_tombstone t b v) x c = live_in v x c"
    using blob [of x c] by (auto simp: live_in_def)
  show "iv_bind (view_tombstone t b v) = iv_bind v"
    by (simp add: view_tombstone_def view_merge_def view_put_blobs_def split: option.split)
qed

section \<open>Creating extents\<close>

lemma header_len_u64 [simp]: "unat (of_nat EXTENT_HEADER_LEN :: u64) = EXTENT_HEADER_LEN"
  by (simp add: EXTENT_HEADER_LEN_def)

lemma new_extent_state:
  assumes "iv_meta v e = Some m" "em_size m = of_nat EXTENT_HEADER_LEN" "em_shard_id m = extent_shard_id e" "\<And>b. iv_blob v e b = None"
  shows "ext_state crc v e (extent_header_encode crc e) EXTENT_HEADER_LEN"
  using assms by (simp add: ext_state_def extent_header.enc_length)

lemma extent_create_new: "extent_create crc None e
    = Ok \<lparr>ef_file = extent_header_encode crc e, ef_extent_id = e, ef_write_offset = EXTENT_HEADER_LEN\<rparr>"
  by (simp add: extent_create_def write_all_at_def)

definition fresh_meta :: "extent_id \<Rightarrow> extent_status \<Rightarrow> i64 \<Rightarrow> extent_meta" where
  "fresh_meta e status ts =
     \<lparr>em_shard_id = extent_shard_id e, em_status = status, em_size = of_nat EXTENT_HEADER_LEN, em_deleted_bytes = 0, em_create_ts = ts\<rparr>"

lemma bind_ok_bind:
  assumes "bind_ok v" "iv_meta v e = None" "em_status m \<noteq> Dropped"
  shows "bind_ok (view_bind (em_shard_id m) e (view_put_meta e m v))"
  unfolding bind_ok_def
proof (intro allI impI)
  let ?v = "view_bind (em_shard_id m) e (view_put_meta e m v)"
  fix p x assume "iv_bind ?v p = Some x"
  then have "(if p = shard_prefix (em_shard_id m) then Some e else iv_bind v p) = Some x"
    by (simp add: view_bind_def view_put_meta_def)
  then consider "p = shard_prefix (em_shard_id m)" "x = e" | "iv_bind v p = Some x"
    by (metis option.inject)
  then show "\<exists>m. iv_meta ?v x = Some m \<and> em_status m \<noteq> Dropped \<and> shard_prefix (em_shard_id m) = p"
  proof cases
    case 2
    then obtain m' where "iv_meta v x = Some m'" "em_status m' \<noteq> Dropped" "shard_prefix (em_shard_id m') = p"
      using assms(1) unfolding bind_ok_def by blast
    then show ?thesis using assms(2) by (cases "x = e") (simp_all add: view_bind_def view_put_meta_def)
  qed (simp add: view_bind_def view_put_meta_def assms(3))
qed

lemma install_created_inv:
  assumes inv: "engine_inv crc v en" and none: "iv_meta v e = None" and s: "status \<noteq> Dropped"
    and en': "en' = install_created (extent_shard_id e) ts status e
       \<lparr>ef_file = extent_header_encode crc e, ef_extent_id = e, ef_write_offset = EXTENT_HEADER_LEN\<rparr> en"
  shows "\<exists>v'. engine_inv crc v' en' \<and> iv_bind v' = (iv_bind v)(shard_prefix (extent_shard_id e) \<mapsto> e)
     \<and> iv_meta v' e = Some (fresh_meta e status ts) \<and> iv_blob v' = iv_blob v \<and> (\<forall>x b. serves crc v en v' en' x b)"
proof -
  let ?m = "fresh_meta e status ts"
  let ?v = "view_bind (em_shard_id ?m) e (view_put_meta e ?m v)"
  have ok: "index_rel (en_index en) v" "bind_ok v" "names_ok (en_disk en)" "ext_ok crc v en e"
    using inv by (simp_all add: engine_inv_def)
  have none': "extent_bytes (en_disk en) e = None" "\<And>b. iv_blob v e b = None"
    using ok(4) none by (simp_all add: ext_ok_def)
  have idx: "en_index en' = install_extent e ?m [] (en_index en)"
    and dsk: "en_disk en' = put_extent_bytes e (extent_header_encode crc e) (en_disk en)"
    and wts: "en_writers en' = fmupd e \<lparr>wt_offset = EXTENT_HEADER_LEN, wt_queue = []\<rparr> (en_writers en)"
    by (simp_all add: en' install_created_def spawn_writer_def fresh_meta_def)
  have rel: "index_rel (en_index en') ?v" using install_extent_rel [OF ok(1), of e ?m "[]"] by (simp add: idx)
  have meta: "iv_meta ?v e = Some ?m" "\<And>x. x \<noteq> e \<Longrightarrow> iv_meta ?v x = iv_meta v x" "iv_blob ?v = iv_blob v"
    "iv_bind ?v = (iv_bind v)(shard_prefix (extent_shard_id e) \<mapsto> e)"
    by (simp_all add: view_bind_def view_put_meta_def fresh_meta_def)
  have bind: "bind_ok ?v"
    using s by (intro bind_ok_bind [OF ok(2) none]) (simp add: fresh_meta_def)
  have "ext_state crc ?v e (extent_header_encode crc e) EXTENT_HEADER_LEN"
    by (rule new_extent_state [OF meta(1)]) (simp_all only: meta(3) none', simp_all add: fresh_meta_def)
  then have "ext_ok crc ?v en' e" unfolding ext_ok_def meta(1) by (simp add: dsk wts cursor_of_def)
  then have inv': "engine_inv crc ?v en'"
    by (intro engine_inv_update [OF inv, where e = e] rel bind) (use meta ok in \<open>simp_all add: dsk wts\<close>)
  have "serves crc v en ?v en' x b" for x b
  proof (cases "x = e")
    case True
    then show ?thesis by (simp add: serves_def engine_body_def none' live_in_def)
  qed (intro serves_frame, simp_all add: meta dsk)
  then show ?thesis using inv' meta by (intro exI [of _ ?v]) blast
qed

lemma create_extent_inv:
  assumes inv: "engine_inv crc v en" and s: "status \<noteq> Dropped" and e: "e = extent_new shard ts"
    and run: "create_extent_with_status crc shard ts status en = (r, en')"
  shows "\<exists>v'. engine_inv crc v' en' \<and> r = Ok e
     \<and> (if iv_meta v e = None
        then iv_bind v' = (iv_bind v)(shard_prefix shard \<mapsto> e) \<and> iv_meta v' e = Some (fresh_meta e status ts)
          \<and> iv_blob v' = iv_blob v
        else v' = v \<and> en' = en)
     \<and> (\<forall>x b. serves crc v en v' en' x b)"
proof -
  have ok: "index_rel (en_index en) v" "ext_ok crc v en e" using inv by (simp_all add: engine_inv_def)
  have sh: "shard = extent_shard_id e" by (simp add: e)
  note run = run [unfolded create_extent_with_status_def Let_def e [symmetric]]
  show ?thesis
  proof (cases "iv_meta v e")
    case (Some m)
    then obtain f where "extent_bytes (en_disk en) e = Some f" using ok(2) by (auto simp: ext_ok_def)
    then have "r = Ok e" "en' = en"
      using run Some by (simp_all add: extent_create_def get_extent_meta_rel [OF ok(1)])
    then show ?thesis using inv Some by (intro exI [of _ v]) (simp add: serves_def)
  next
    case None
    then have "extent_bytes (en_disk en) e = None" using ok(2) by (simp add: ext_ok_def)
    then have "r = Ok e" and en': "en' = install_created (extent_shard_id e) ts status e
        \<lparr>ef_file = extent_header_encode crc e, ef_extent_id = e, ef_write_offset = EXTENT_HEADER_LEN\<rparr> en"
      using run unfolding sh by (simp_all add: extent_create_new)
    then show ?thesis using install_created_inv [OF inv None s en'] None sh by simp
  qed
qed

section \<open>Sealing and writing\<close>

lemma seal_extent_inv:
  assumes inv: "engine_inv crc v en" and fits: "queue_fits e en" and run: "seal_extent_blocking crc fl e en = (r, en')"
  shows "\<exists>v'. engine_inv crc v' en' \<and> iv_bind v' = iv_bind v \<and> (\<forall>x b. serves crc v en v' en' x b)"
proof -
  have rel: "index_rel (en_index en) v" using inv by (rule engine_inv_rel)
  obtain rs en1 where st: "stop_writer crc fl e en = (rs, en1)" by (cases "stop_writer crc fl e en")
  obtain v1 where v1: "engine_inv crc v1 en1" "same_off e v v1" "\<forall>x b. serves crc v en v1 en1 x b"
    using stop_writer_inv [OF inv fits st] by blast
  have rel1: "index_rel (en_index en1) v1" using v1(1) by (rule engine_inv_rel)
  let ?d = "apply_batch_op (BatchMerge (extent_key e) (merge_op_encode (SetStatus Sealed))) (en_index en1)"
  consider "en' = en" | "en' = en1" | m where "iv_meta v1 e = Some m" "en' = en1\<lparr>en_index := ?d\<rparr>"
    using run by (cases "iv_meta v e"; cases "iv_meta v1 e")
      (auto simp: seal_extent_blocking_def get_extent_meta_rel [OF rel] status_merge_rel(2) [OF rel1] st Let_def
        simp del: apply_batch_op.simps merge_op_encode.simps split: if_splits)
  then show ?thesis
  proof cases
    case 3
    let ?v = "view_merge e (SetStatus Sealed) v1"
    have "engine_inv crc ?v en'" unfolding 3(2) by (rule engine_inv_status [OF v1(1) 3(1)]) simp_all
    moreover have "engine_body crc ?v en' x b = engine_body crc v1 en1 x b" "live_in ?v x b = live_in v1 x b" for x b
      by (rule engine_body_cong) (simp_all add: 3(2) view_merge_def live_in_def)
    then have "serves crc v en ?v en' x b" for x b using v1(3) by (simp add: serves_def)
    moreover have "iv_bind ?v = iv_bind v" using v1(2) by (simp add: view_merge_def same_off_def)
    ultimately show ?thesis by blast
  qed (use inv v1 in \<open>auto simp: serves_def same_off_def\<close>)
qed

lemma engine_write_inv:
  assumes inv: "engine_inv crc v en"
    and fits: "\<And>w. fmlookup (en_writers en) e = Some w \<Longrightarrow>
       wt_offset w + batch_space (wt_queue w) + record_len (b, ShardId 0, body) < 2 ^ 64"
    and run: "engine_write crc fl e b body en = (r, en')"
  shows "\<exists>v'. engine_inv crc v' en' \<and> iv_bind v' = iv_bind v \<and> (\<forall>x c. serves crc v en v' en' x c)
     \<and> (r = Ok Written \<longrightarrow> engine_body crc v' en' e b = Some body \<and> live_in v' e b)"
proof (cases "fmlookup (en_writers en) e")
  case None
  then have "r = Err E_ShardNotFound" "en' = en" using run by (simp_all add: engine_write_def)
  then show ?thesis using inv by (intro exI [of _ v]) (simp add: serves_def)
next
  case (Some w)
  define n where "n = Suc (Max (insert 0 (set (map wq_reply (wt_queue w)))))"
  define q where "q = wt_queue w @ [\<lparr>wq_blob = b, wq_body = body, wq_reply = n\<rparr>]"
  obtain rs d' ef' where l: "writer_loop crc fl q (en_index en) (writer_file en e w) = (rs, d', ef')" by (metis prod_cases3)
  let ?en = "en\<lparr>en_index := d', en_disk := put_handle_bytes e (ef_file ef') (en_disk en),
      en_writers := fmupd e \<lparr>wt_offset = ef_write_offset ef', wt_queue = []\<rparr> (en_writers en)\<rparr>"
  have fits': "wt_offset w + batch_space q < 2 ^ 64" using fits [OF Some] by (simp add: q_def batch_space_def)
  have "fmlookup (fmupd e \<lparr>wt_offset = ef_write_offset ef', wt_queue = []\<rparr> (en_writers en)) x = fmlookup (en_writers en) x"
    if "x \<noteq> e" for x using that by simp
  moreover have "wt_offset w' = ef_write_offset ef'"
    if "fmlookup (fmupd e \<lparr>wt_offset = ef_write_offset ef', wt_queue = []\<rparr> (en_writers en)) e = Some w'" for w'
    using that by auto
  ultimately obtain v' where v': "engine_inv crc v' ?en" "same_off e v v'" "\<forall>x b. serves crc v en v' ?en x b"
    "\<forall>n. (n, Ok Written) \<in> set rs \<longrightarrow>
       (\<exists>req \<in> set q. wq_reply req = n \<and> engine_body crc v' ?en e (wq_blob req) = Some (wq_body req) \<and> live_in v' e (wq_blob req))"
    using engine_writer_run [OF inv Some fits' disjI1 [OF l] _ _ refl] by blast
  have run': "r = (case map_of rs n of Some r \<Rightarrow> r | None \<Rightarrow> Err E_Internal)" "en' = observe r ?en"
    using run unfolding engine_write_def Some option.case Let_def n_def [symmetric] q_def [symmetric] l by auto
  have uniq: "wq_blob req = b \<and> wq_body req = body" if "req \<in> set q" "wq_reply req = n" for req
  proof -
    have "wq_reply x \<le> Max (insert 0 (set (map wq_reply (wt_queue w))))" if "x \<in> set (wt_queue w)" for x
      using that by (intro Max_ge) auto
    then have "req \<notin> set (wt_queue w)" using that(2) unfolding n_def by fastforce
    then show ?thesis using that(1) by (simp add: q_def)
  qed
  have "engine_body crc v' en' e b = Some body \<and> live_in v' e b" if "r = Ok Written"
  proof -
    have "(n, Ok Written) \<in> set rs" using that run'(1) by (auto split: option.splits dest: map_of_SomeD)
    then obtain req where "req \<in> set q" "wq_reply req = n" "engine_body crc v' ?en e (wq_blob req) = Some (wq_body req)"
      "live_in v' e (wq_blob req)"
      using v'(4) by blast
    then show ?thesis using uniq run'(2) by simp
  qed
  then show ?thesis using v' run'(2) by (intro exI [of _ v']) (simp add: serves_def same_off_def)
qed

section \<open>Reclamation\<close>

lemma names_ok_trash: "move_extent_to_trash e dk = Ok dk' \<Longrightarrow> names_ok dk \<Longrightarrow> names_ok dk'"
  by (auto simp: names_ok_def move_extent_to_trash_def split: option.splits if_splits)

lemma names_ok_reclaim: "reclaim_extent e dk d xs = (r, dk', d', xs') \<Longrightarrow> names_ok dk \<Longrightarrow> names_ok dk'"
  using names_ok_trash
  by (auto simp: reclaim_extent_def Let_def split: sum.splits disk_error.splits io_kind.splits)

lemma engine_inv_remove:
  assumes inv: "engine_inv crc v en" and free: "\<And>p. iv_bind v p \<noteq> Some e"
    and run: "reclaim_extent e (en_disk en) (en_index en) xs = (r, dk', d', xs')"
  shows "r = Ok () \<and> engine_inv crc (view_remove e v) (en\<lparr>en_disk := dk', en_index := d'\<rparr>)
     \<and> (\<forall>x b. x \<noteq> e \<longrightarrow> serves crc v en (view_remove e v) (en\<lparr>en_disk := dk', en_index := d'\<rparr>) x b)"
proof -
  let ?v = "view_remove e v" and ?en = "en\<lparr>en_disk := dk', en_index := d'\<rparr>"
  have ok: "index_rel (en_index en) v" "bind_ok v" "names_ok (en_disk en)" using inv by (simp_all add: engine_inv_def)
  have d': "r = Ok ()" "d' = remove_extent e (en_index en)" "extent_bytes dk' e = None"
    "\<And>x. x \<noteq> e \<Longrightarrow> extent_bytes dk' x = extent_bytes (en_disk en) x"
    using reclaim_extent_ok [of e "en_disk en" "en_index en" xs] run by auto
  have rest: "iv_bind ?v = iv_bind v" "iv_meta ?v e = None" "iv_blob ?v e = (\<lambda>_. None)"
    "\<And>x. x \<noteq> e \<Longrightarrow> iv_meta ?v x = iv_meta v x \<and> iv_blob ?v x = iv_blob v x"
    by (simp_all add: view_remove_def)
  have bind: "bind_ok ?v"
    unfolding bind_ok_def rest(1)
  proof (intro allI impI)
    fix p x assume b: "iv_bind v p = Some x"
    then have "x \<noteq> e" using free by blast
    then show "\<exists>m. iv_meta ?v x = Some m \<and> em_status m \<noteq> Dropped \<and> shard_prefix (em_shard_id m) = p"
      using ok(2) b rest(4) unfolding bind_ok_def by metis
  qed
  have rel: "index_rel d' ?v" unfolding d'(2) by (rule remove_extent_rel [OF ok(1)])
  have "ext_ok crc ?v ?en e" by (simp add: ext_ok_def rest d'(3))
  then have "engine_inv crc ?v ?en"
    by (intro engine_inv_update [OF inv, where e = e] bind)
      (use rel names_ok_reclaim [OF run ok(3)] rest(4) d'(4) in simp_all)
  moreover have "serves crc v en ?v ?en x b" if "x \<noteq> e" for x b
    using rest(4) [OF that] d'(4) [OF that] by (intro serves_frame) simp_all
  ultimately show ?thesis using d'(1) by blast
qed

lemma reclaim_all_inv:
  assumes "engine_inv crc v en" "\<And>p e. e \<in> set es \<Longrightarrow> iv_bind v p \<noteq> Some e"
    and "reclaim_all es (en_disk en) (en_index en) xs = (r, dk', d', xs')"
  shows "r = Ok () \<and> (\<exists>v'. engine_inv crc v' (en\<lparr>en_disk := dk', en_index := d'\<rparr>) \<and> iv_bind v' = iv_bind v
     \<and> (\<forall>x b. x \<notin> set es \<longrightarrow> serves crc v en v' (en\<lparr>en_disk := dk', en_index := d'\<rparr>) x b))"
  using assms
proof (induction es arbitrary: v en xs)
  case Nil
  then show ?case by (auto simp: serves_def)
next
  case (Cons e es)
  obtain r1 dk1 d1 xs1 where r1: "reclaim_extent e (en_disk en) (en_index en) xs = (r1, dk1, d1, xs1)" by (metis prod_cases4)
  let ?en = "en\<lparr>en_disk := dk1, en_index := d1\<rparr>"
  have s1: "r1 = Ok ()" "engine_inv crc (view_remove e v) ?en" "\<And>x b. x \<noteq> e \<Longrightarrow> serves crc v en (view_remove e v) ?en x b"
    using engine_inv_remove [OF Cons.prems(1) _ r1] Cons.prems(2) by auto
  have b1: "iv_bind (view_remove e v) = iv_bind v" by (simp add: view_remove_def)
  have "reclaim_all es (en_disk ?en) (en_index ?en) xs1 = (r, dk', d', xs')"
    using Cons.prems(3) r1 s1(1) by simp
  from Cons.IH [OF s1(2) _ this] Cons.prems(2) b1 obtain v' where
    "r = Ok ()" "engine_inv crc v' (en\<lparr>en_disk := dk', en_index := d'\<rparr>)" "iv_bind v' = iv_bind v"
    "\<And>x b. x \<notin> set es \<Longrightarrow> serves crc (view_remove e v) ?en v' (en\<lparr>en_disk := dk', en_index := d'\<rparr>) x b"
    by auto
  then show ?case using s1(3) by (auto simp: serves_def)
qed

lemma reclaim_dropped_inv:
  assumes inv: "engine_inv crc v en" and run: "reclaim_dropped_blocking en = (r, en')"
  shows "\<exists>v' es. r = Ok es \<and> engine_inv crc v' en' \<and> iv_bind v' = iv_bind v
     \<and> (\<forall>p e b. iv_bind v p = Some e \<longrightarrow> serves crc v en v' en' e b)"
proof -
  have ok: "index_rel (en_index en) v" "bind_ok v" using inv by (simp_all add: engine_inv_def)
  obtain exts where x: "list_extents (en_index en) = Ok exts" "\<And>e m. (e, m) \<in> set exts \<longleftrightarrow> iv_meta v e = Some m"
    using list_extents_rel [OF ok(1)] by auto
  define es where "es = map fst (filter (\<lambda>(_, m). em_status m = Dropped) exts)"
  have free: "iv_bind v p \<noteq> Some e" if "e \<in> set es" for p e
    using that x(2) ok(2) unfolding es_def bind_ok_def by fastforce
  obtain r1 dk1 d1 xs1 where r1: "reclaim_all es (en_disk en) (en_index en) fmempty = (r1, dk1, d1, xs1)" by (metis prod_cases4)
  note s = reclaim_all_inv [OF inv free r1]
  have "r = Ok es" "en' = en\<lparr>en_disk := dk1, en_index := d1\<rparr>"
    using run s by (auto simp: reclaim_dropped_blocking_def reclaim_dropped_def x(1) es_def [symmetric] r1)
  then show ?thesis using s free by metis
qed

lemma reclaim_orphans_inv:
  assumes inv: "engine_inv crc v en" and run: "reclaim_orphans_blocking en = (r, en')"
  shows "\<exists>v' es. r = Ok es \<and> engine_inv crc v' en' \<and> iv_bind v' = iv_bind v
     \<and> (\<forall>p e b. iv_bind v p = Some e \<longrightarrow> serves crc v en v' en' e b)"
proof -
  have ok: "index_rel (en_index en) v" "bind_ok v" using inv by (simp_all add: engine_inv_def)
  obtain exts where x: "list_extents (en_index en) = Ok exts" "\<And>e m. (e, m) \<in> set exts \<longleftrightarrow> iv_meta v e = Some m"
    using list_extents_rel [OF ok(1)] by auto
  define es where "es = map fst (filter (\<lambda>(e, m). em_status m \<noteq> Dropped \<and> iv_bind v (shard_prefix (em_shard_id m)) \<noteq> Some e) exts)"
  have free: "iv_bind v p \<noteq> Some e" if "e \<in> set es" for p e
    using that x(2) ok(2) unfolding es_def bind_ok_def by fastforce
  obtain r1 dk1 d1 xs1 where r1: "reclaim_all es (en_disk en) (en_index en) fmempty = (r1, dk1, d1, xs1)" by (metis prod_cases4)
  note s = reclaim_all_inv [OF inv free r1]
  have "r = Ok es" "en' = en\<lparr>en_disk := dk1, en_index := d1\<rparr>"
    using run s by (auto simp: reclaim_orphans_blocking_def reclaim_orphans_def x(1) find_orphans_rel [OF ok(1)] es_def [symmetric] r1)
  then show ?thesis using s free by metis
qed

section \<open>Compaction\<close>

text \<open>The copy loop on a device that may fail at any record.\<close>

lemma copy_live_state:
  assumes "fmlookup xs e = Some src" "index_rel d v" "ext_state crc v n f cur"
    and "\<And>b i. (b, i) \<in> set live \<Longrightarrow> entry_at crc src b i (body b)" "distinct (map fst live)"
    and "\<And>b. b \<in> fst ` set live \<Longrightarrow> iv_blob v n b = None"
    and "cur + (\<Sum>(b, i) \<leftarrow> live. record_on_disk_len (bi_size i)) < 2 ^ 64"
    and "copy_live crc fl xs e live d \<lparr>ef_file = f, ef_extent_id = n, ef_write_offset = cur\<rparr> = (r, d', dest')"
  shows "\<exists>v'. index_rel d' v' \<and> writer_post crc v n f cur v' (ef_file dest') (ef_write_offset dest') \<and> ef_extent_id dest' = n
     \<and> (\<forall>b. b \<notin> fst ` set live \<longrightarrow> iv_blob v' n b = iv_blob v n b)
     \<and> (r = Ok () \<longrightarrow> (\<forall>b \<in> fst ` set live. live_in v' n b \<and> stored_body crc v' dest' b = Some (body b)))"
  using assms(2-)
proof (induction live arbitrary: d v f cur)
  case Nil
  then show ?case using writer_post_refl [OF Nil.prems(2)] by auto
next
  case (Cons p live)
  obtain b i where p: "p = (b, i)" by (cases p)
  let ?dest = "\<lparr>ef_file = f, ef_extent_id = n, ef_write_offset = cur\<rparr>"
  have entry: "entry_at crc src b i (body b)" using Cons.prems(3) p by auto
  obtain s where rd: "read_record crc (unat (bi_offset i)) src = Ok (header_of (b, s, body b), body b)"
    using entry by (rule entry_at_read)
  have len: "length (body b) < 2 ^ 32" "record_len (b, ShardId 0, body b) = record_on_disk_len (bi_size i)"
    using entry_at_length [OF entry] by blast+
  obtain r1 d1 ef1 where w: "write_blob crc fl b (body b) d ?dest = (r1, d1, ef1)" by (metis prod_cases3)
  have sp: "cur + record_len (b, ShardId 0, body b) < 2 ^ 64" using Cons.prems(6) p len by simp
  obtain v1 where v1: "index_rel d1 v1" "writer_post crc v n f cur v1 (ef_file ef1) (ef_write_offset ef1)" "ef_extent_id ef1 = n"
     "ef_write_offset ef1 \<le> cur + record_len (b, ShardId 0, body b)"
     "\<And>c. c \<noteq> b \<Longrightarrow> iv_blob v1 n c = iv_blob v n c"
     "\<And>w. r1 = Ok w \<Longrightarrow> iv_blob v n b = None \<Longrightarrow> live_in v1 n b \<and> stored_body crc v1 ef1 b = Some (body b)"
    using write_blob_state [OF Cons.prems(1,2) len(1) sp w] by blast
  have none: "iv_blob v n b = None" and notin: "b \<notin> fst ` set live" using Cons.prems(4,5) p by auto
  have ef1: "ef1 = \<lparr>ef_file = ef_file ef1, ef_extent_id = n, ef_write_offset = ef_write_offset ef1\<rparr>" using v1(3) by simp
  show ?case
  proof (cases r1)
    case (Inl err)
    then have "r = Err err" "d' = d1" "dest' = ef1" using Cons.prems(7) assms(1) rd w by (simp_all add: p)
    then show ?thesis using v1 p by (intro exI [of _ v1]) auto
  next
    case (Inr o1)
    have run: "copy_live crc fl xs e live d1 \<lparr>ef_file = ef_file ef1, ef_extent_id = n, ef_write_offset = ef_write_offset ef1\<rparr> = (r, d', dest')"
      using Cons.prems(7) assms(1) rd w Inr unfolding ef1 [symmetric] by (simp add: p)
    have st1: "ext_state crc v1 n (ef_file ef1) (ef_write_offset ef1)" using v1(2) by (simp add: writer_post_def)
    have none1: "iv_blob v1 n c = None" if "c \<in> fst ` set live" for c
      using that v1(5) [of c] notin Cons.prems(5) [of c] by auto
    have "ef_write_offset ef1 + (\<Sum>(b, i) \<leftarrow> live. record_on_disk_len (bi_size i)) < 2 ^ 64"
      using Cons.prems(6) p v1(4) len by simp
    then obtain v' where v': "index_rel d' v'"
      "writer_post crc v1 n (ef_file ef1) (ef_write_offset ef1) v' (ef_file dest') (ef_write_offset dest')" "ef_extent_id dest' = n"
      "\<And>c. c \<notin> fst ` set live \<Longrightarrow> iv_blob v' n c = iv_blob v1 n c"
      "r = Ok () \<Longrightarrow> \<forall>c \<in> fst ` set live. live_in v' n c \<and> stored_body crc v' dest' c = Some (body c)"
      using Cons.IH [OF v1(1) st1 _ _ none1 _ run] Cons.prems(3,4) p by auto
    have "dest' = \<lparr>ef_file = ef_file dest', ef_extent_id = n, ef_write_offset = ef_write_offset dest'\<rparr>" using v'(3) by simp
    then have keep: "stored_body crc v' dest' c = Some x" if "stored_body crc v1 ef1 c = Some x" for c x
      using v'(2) ef1 that unfolding writer_post_def by metis
    have b1: "live_in v1 n b" "stored_body crc v1 ef1 b = Some (body b)" using v1(6) [OF Inr none] by simp_all
    have "live_in v' n b" using b1(1) v'(4) [OF notin] by (simp add: live_in_def)
    then have new: "live_in v' n b \<and> stored_body crc v' dest' b = Some (body b)" using keep [OF b1(2)] by blast
    have out: "iv_blob v' n c = iv_blob v n c" if "c \<notin> fst ` set (p # live)" for c
      using that v'(4) [of c] v1(5) [of c] p by auto
    have "writer_post crc v n f cur v' (ef_file dest') (ef_write_offset dest')" by (rule writer_post_trans [OF v1(2) v'(2)])
    then show ?thesis using v'(1,3,5) new out p by (intro exI [of _ v']) auto
  qed
qed

text \<open>What a call that loses nothing does to an engine.\<close>

definition engine_keeps :: "checksum \<Rightarrow> index_view \<Rightarrow> engine \<Rightarrow> index_view \<Rightarrow> engine \<Rightarrow> bool" where
  "engine_keeps crc v en v' en' \<longleftrightarrow>
     engine_inv crc v' en' \<and> iv_bind v' = iv_bind v \<and> (\<forall>x b. serves crc v en v' en' x b)"

text \<open>A move of a shard from one extent to another: every live blob moves along.\<close>

definition engine_moves :: "checksum \<Rightarrow> index_view \<Rightarrow> engine \<Rightarrow> extent_id \<Rightarrow> extent_id \<Rightarrow> index_view \<Rightarrow> engine \<Rightarrow> bool" where
  "engine_moves crc v en e n v' en' \<longleftrightarrow>
     engine_inv crc v' en' \<and> iv_bind v' = (iv_bind v)(shard_prefix (extent_shard_id e) \<mapsto> n)
     \<and> (\<forall>x b. x \<noteq> e \<longrightarrow> serves crc v en v' en' x b)
     \<and> (\<forall>b. live_in v e b \<longrightarrow> live_in v' n b \<and> engine_body crc v' en' n b = engine_body crc v en e b)"

lemma engine_keeps_trans:
  "engine_keeps crc v en v1 en1 \<Longrightarrow> engine_keeps crc v1 en1 v2 en2 \<Longrightarrow> engine_keeps crc v en v2 en2"
  by (simp add: engine_keeps_def serves_def)

lemma engine_keeps_refl: "engine_inv crc v en \<Longrightarrow> engine_keeps crc v en v en"
  by (simp add: engine_keeps_def serves_def)

lemma engine_keeps_moves:
  assumes "engine_inv crc v en" "engine_keeps crc v en v1 en1" "engine_moves crc v1 en1 e n v2 en2"
  shows "engine_moves crc v en e n v2 en2"
proof -
  have "live_in v2 n b \<and> engine_body crc v2 en2 n b = engine_body crc v en e b" if live: "live_in v e b" for b
  proof -
    obtain i where "iv_blob v e b = Some i" using live by (auto simp: live_in_def split: option.splits)
    then obtain body where body: "engine_body crc v en e b = Some body" using engine_body_entry [OF assms(1)] by blast
    then have "live_in v1 e b" "engine_body crc v1 en1 e b = Some body"
      using live assms(2) by (simp_all add: engine_keeps_def serves_def)
    then show ?thesis using assms(3) body by (simp add: engine_moves_def)
  qed
  then show ?thesis using assms(2,3) by (simp add: engine_moves_def engine_keeps_def serves_def)
qed

text \<open>The destination of a compaction: a new file and metadata, not bound to its shard.\<close>

lemma unbound_extent_keeps:
  assumes inv: "engine_inv crc v en" and none: "iv_meta v n = None" and w: "fmlookup (en_writers en) n = None"
  shows "engine_keeps crc v en (view_put_meta n (fresh_meta n Writable ts) v)
     (en\<lparr>en_disk := put_extent_bytes n (extent_header_encode crc n) (en_disk en),
         en_index := put_extent_meta n (fresh_meta n Writable ts) (en_index en)\<rparr>)" (is "engine_keeps crc v en ?v ?en")
proof -
  have ok: "index_rel (en_index en) v" "bind_ok v" "names_ok (en_disk en)" "ext_ok crc v en n"
    using inv by (simp_all add: engine_inv_def)
  have blobs: "\<And>b. iv_blob v n b = None" "extent_bytes (en_disk en) n = None" using ok(4) none by (simp_all add: ext_ok_def)
  have meta: "iv_meta ?v n = Some (fresh_meta n Writable ts)" "\<And>x. x \<noteq> n \<Longrightarrow> iv_meta ?v x = iv_meta v x"
    "iv_blob ?v = iv_blob v" "iv_bind ?v = iv_bind v"
    by (simp_all add: view_put_meta_def)
  have bind: "bind_ok ?v"
    using ok(2) none meta(2) unfolding bind_ok_def meta(4) by (metis option.distinct(1))
  have "ext_state crc ?v n (extent_header_encode crc n) EXTENT_HEADER_LEN"
    by (rule new_extent_state [OF meta(1)]) (simp_all only: meta(3) blobs(1), simp_all add: fresh_meta_def)
  then have "ext_ok crc ?v ?en n"
    unfolding ext_ok_def meta(1) using w by (simp add: cursor_of_def extent_header.enc_length)
  moreover have "index_rel (en_index ?en) ?v" using rel_put_meta [OF ok(1)] by (simp add: put_extent_meta_def)
  ultimately have "engine_inv crc ?v ?en"
    by (intro engine_inv_update [OF inv, where e = n] bind) (use meta ok in simp_all)
  moreover have "serves crc v en ?v ?en x b" for x b
  proof (cases "x = n")
    case True
    then show ?thesis using blobs by (simp add: serves_def engine_body_def live_in_def)
  qed (intro serves_frame, simp_all add: meta(3))
  ultimately show ?thesis by (simp add: engine_keeps_def meta(4))
qed

text \<open>The switch-over: the shard is bound to the copy, the source is gone.\<close>

lemma compact_finish_inv:
  assumes inv: "engine_inv crc v en" and ne: "n \<noteq> e"
    and me: "iv_meta v e = Some me" and mn: "iv_meta v n = Some mn" "em_status mn \<noteq> Dropped"
    and sh: "extent_shard_id n = shard" "extent_shard_id e = shard"
    and sub: "\<And>b. iv_blob v n b \<noteq> None \<Longrightarrow> live_in v e b"
    and f: "extent_bytes (en_disk en) n = Some f" and st: "ext_state crc v n f cur" and w: "fmlookup (en_writers en) n = None"
    and run: "compact_finish shard e n src_meta k dest (en_disk en) (en_index en) xs = (r, dk', d', xs')"
  shows "\<exists>out v'. r = Ok out \<and> co_new_extent out = n \<and> xs' = fmdrop e (fmupd n dest xs)
     \<and> (\<forall>q. engine_inv crc v' (en\<lparr>en_disk := dk', en_index := d', en_writers := fmupd n \<lparr>wt_offset = cur, wt_queue = q\<rparr> (en_writers en)\<rparr>))
     \<and> iv_bind v' = (iv_bind v)(shard_prefix shard \<mapsto> n)
     \<and> (\<forall>x. x \<noteq> e \<longrightarrow> iv_blob v' x = iv_blob v x \<and> extent_bytes dk' x = extent_bytes (en_disk en) x)"
proof -
  let ?v = "view_remove e (view_merge e (SetStatus Dropped) (view_bind shard n v))"
  have ok: "index_rel (en_index en) v" "bind_ok v" "names_ok (en_disk en)" using inv by (simp_all add: engine_inv_def)
  obtain out where fin: "r = Ok out" "co_new_extent out = n" "xs' = fmdrop e (fmupd n dest xs)" "index_rel d' ?v"
    "extent_bytes dk' e = None" "\<And>x. x \<noteq> e \<Longrightarrow> extent_bytes dk' x = extent_bytes (en_disk en) x"
    using compact_finish_ok [OF ok(1) ne me mn(1) sub, of shard src_meta k dest "en_disk en" xs] run by auto
  have rest: "iv_bind ?v = (iv_bind v)(shard_prefix shard \<mapsto> n)" "iv_meta ?v e = None" "\<And>b. iv_blob ?v e b = None"
    "\<And>x. x \<noteq> e \<Longrightarrow> iv_meta ?v x = iv_meta v x \<and> iv_blob ?v x = iv_blob v x"
    by (simp_all add: view_remove_def view_merge_def view_bind_def)
  have shard: "em_shard_id mn = shard" using st mn(1) sh(1) by (simp add: ext_state_def)
  have "em_shard_id me = shard"
    using engine_inv_ext [OF inv me] me sh(2) by (auto simp: ext_state_def)
  then have old: "iv_bind v p = Some e \<Longrightarrow> p = shard_prefix shard" for p
    using ok(2) me unfolding bind_ok_def by fastforce
  have bind: "bind_ok ?v"
    unfolding bind_ok_def
  proof (intro allI impI)
    fix p x assume "iv_bind ?v p = Some x"
    then have "(if p = shard_prefix shard then Some n else iv_bind v p) = Some x" by (simp add: rest(1))
    then consider "p = shard_prefix shard" "x = n" | "iv_bind v p = Some x" "p \<noteq> shard_prefix shard" by (metis option.inject)
    then show "\<exists>m. iv_meta ?v x = Some m \<and> em_status m \<noteq> Dropped \<and> shard_prefix (em_shard_id m) = p"
    proof cases
      case 2
      then have "x \<noteq> e" using old by blast
      then show ?thesis using ok(2) 2(1) rest(4) unfolding bind_ok_def by metis
    qed (use mn shard rest(4) ne in simp)
  qed
  have names: "names_ok dk'"
    using run ok(3) names_ok_reclaim by (auto simp: compact_finish_def split: sum.splits prod.splits)
  have "engine_inv crc ?v (en\<lparr>en_disk := dk', en_index := d', en_writers := fmupd n \<lparr>wt_offset = cur, wt_queue = q\<rparr> (en_writers en)\<rparr>)" for q
  proof (rule engine_inv_update_set [OF inv, of _ _ "{e, n}"])
    fix x assume "x \<in> {e, n}"
    moreover have "ext_state crc ?v n f cur" using st rest(4) [OF ne] ext_state_cong [of ?v n v] by simp
    ultimately show "ext_ok crc ?v (en\<lparr>en_disk := dk', en_index := d', en_writers := fmupd n \<lparr>wt_offset = cur, wt_queue = q\<rparr> (en_writers en)\<rparr>) x"
      using fin(5) fin(6) [OF ne] f mn(1) rest ne by (auto simp: ext_ok_def cursor_of_def)
  next
    fix x assume "x \<notin> {e, n}"
    then have "x \<noteq> e" "n \<noteq> x" by auto
    then show "iv_meta ?v x = iv_meta v x \<and> iv_blob ?v x = iv_blob v x
        \<and> extent_bytes (en_disk (en\<lparr>en_disk := dk', en_index := d', en_writers := fmupd n \<lparr>wt_offset = cur, wt_queue = q\<rparr> (en_writers en)\<rparr>)) x
            = extent_bytes (en_disk en) x
        \<and> fmlookup (en_writers (en\<lparr>en_disk := dk', en_index := d', en_writers := fmupd n \<lparr>wt_offset = cur, wt_queue = q\<rparr> (en_writers en)\<rparr>)) x
            = fmlookup (en_writers en) x"
      using fin(6) rest(4) by simp
  qed (use fin(4) bind names in simp_all)
  then show ?thesis using fin rest by (intro exI [of _ out] exI [of _ ?v]) simp
qed

text \<open>The copy into the destination, seen from the engine.\<close>

lemma compact_copy_inv:
  assumes inv: "engine_inv crc v en" and f: "extent_bytes (en_disk en) n = Some f" and st: "ext_state crc v n f cur"
    and w: "fmlookup (en_writers en) n = None" and src: "fmlookup xs e = Some src"
    and live: "\<And>b i. (b, i) \<in> set live \<Longrightarrow> entry_at crc src b i (body b)" "distinct (map fst live)"
    and new: "\<And>b. iv_blob v n b = None"
    and fits: "cur + (\<Sum>(b, i) \<leftarrow> live. record_on_disk_len (bi_size i)) < 2 ^ 64"
    and run: "copy_live crc fl xs e live (en_index en) \<lparr>ef_file = f, ef_extent_id = n, ef_write_offset = cur\<rparr> = (r, d', dest)"
    and en': "en' = en\<lparr>en_index := d', en_disk := put_extent_bytes n (ef_file dest) (en_disk en)\<rparr>"
  shows "\<exists>v'. engine_keeps crc v en v' en' \<and> ef_extent_id dest = n \<and> same_off n v v'
     \<and> ext_state crc v' n (ef_file dest) (ef_write_offset dest)
     \<and> (\<exists>m m'. iv_meta v n = Some m \<and> iv_meta v' n = Some m' \<and> em_status m' = em_status m)
     \<and> (\<forall>b. iv_blob v' n b \<noteq> None \<longrightarrow> b \<in> fst ` set live)
     \<and> (r = Ok () \<longrightarrow> (\<forall>b \<in> fst ` set live. live_in v' n b \<and> engine_body crc v' en' n b = Some (body b)))"
proof -
  have rel: "index_rel (en_index en) v" using inv by (rule engine_inv_rel)
  obtain v' where v': "index_rel d' v'" "writer_post crc v n f cur v' (ef_file dest) (ef_write_offset dest)" "ef_extent_id dest = n"
    "\<And>b. b \<notin> fst ` set live \<Longrightarrow> iv_blob v' n b = iv_blob v n b"
    "r = Ok () \<Longrightarrow> \<forall>b \<in> fst ` set live. live_in v' n b \<and> stored_body crc v' dest b = Some (body b)"
    using copy_live_state [OF src rel st live new fits run] by blast
  have put: "put_handle_bytes n (ef_file dest) (en_disk en) = put_extent_bytes n (ef_file dest) (en_disk en)"
    by (simp add: put_handle_bytes_def f)
  have en'': "en' = en\<lparr>en_index := d', en_disk := put_handle_bytes n (ef_file dest) (en_disk en), en_writers := en_writers en\<rparr>"
    by (simp add: en' put)
  have i: "engine_inv crc v' en' \<and> (\<forall>x b. serves crc v en v' en' x b)"
    by (rule engine_inv_writer [OF inv f v'(2,1) _ _ en'']) (simp_all add: w)
  have "dest = \<lparr>ef_file = ef_file dest, ef_extent_id = n, ef_write_offset = ef_write_offset dest\<rparr>" using v'(3) by simp
  then have body: "engine_body crc v' en' n b = stored_body crc v' dest b" for b
    using stored_body_cursor [of crc v' "ef_file dest" n "length (ef_file dest)" b "ef_write_offset dest"]
    by (simp add: engine_body_def en')
  have post: "same_off n v v'" "ext_state crc v' n (ef_file dest) (ef_write_offset dest)"
    "\<exists>m m'. iv_meta v n = Some m \<and> iv_meta v' n = Some m' \<and> em_status m' = em_status m"
    using v'(2) unfolding writer_post_def by blast+
  have sub: "\<forall>b. iv_blob v' n b \<noteq> None \<longrightarrow> b \<in> fst ` set live" using v'(4) new by metis
  have "engine_keeps crc v en v' en'" using i post(1) by (simp add: engine_keeps_def same_off_def)
  then show ?thesis using v'(3,5) post sub by (intro exI [of _ v'] conjI) (simp_all add: body)
qed

text \<open>From the installed destination to the end of the compaction.\<close>

lemma compact_rest_inv:
  assumes inv: "engine_inv crc v en" and ne: "n \<noteq> e" and sh: "extent_shard_id n = extent_shard_id e"
    and w: "fmlookup (en_writers en) n = None"
    and me: "iv_meta v e = Some me" and mn: "iv_meta v n = Some (fresh_meta n Writable ts)" and new: "\<And>b. iv_blob v n b = None"
    and f: "extent_bytes (en_disk en) e = Some f" and h: "extent_bytes (en_disk en) n = Some (extent_header_encode crc n)"
    and xs: "fmlookup xs e = Some \<lparr>ef_file = f, ef_extent_id = e, ef_write_offset = length f\<rparr>"
    and live: "\<And>b i. (b, i) \<in> set live \<longleftrightarrow> iv_blob v e b = Some i \<and> \<not> is_tombstoned i" "distinct (map fst live)"
    and fits: "EXTENT_HEADER_LEN + (\<Sum>(b, i) \<leftarrow> live. record_on_disk_len (bi_size i)) < 2 ^ 64"
    and cp: "copy_live crc fl xs e live (en_index en)
       \<lparr>ef_file = extent_header_encode crc n, ef_extent_id = n, ef_write_offset = EXTENT_HEADER_LEN\<rparr> = (r, d', dest)"
    and en': "en' = en\<lparr>en_index := d', en_disk := put_extent_bytes n (ef_file dest) (en_disk en)\<rparr>"
  shows "\<exists>v'. engine_keeps crc v en v' en'"
    and "r = Ok () \<Longrightarrow> compact_finish (extent_shard_id e) e n src_meta k dest (en_disk en') d' xs = (r', dk2, d2, xs2) \<Longrightarrow>
       \<exists>out v2. r' = Ok out \<and> co_new_extent out = n \<and> fmlookup xs2 n = Some dest
         \<and> engine_moves crc v en e n v2 (spawn_writer n dest (en'\<lparr>en_disk := dk2, en_index := d2\<rparr>))"
proof -
  let ?src = "\<lparr>ef_file = f, ef_extent_id = e, ef_write_offset = length f\<rparr>"
  have src_ok: "extent_ok crc v ?src"
  proof -
    obtain g where "extent_bytes (en_disk en) e = Some g" "ext_state crc v e g (cursor_of en e g)"
      using engine_inv_ext [OF inv me] by blast
    then have "ext_state crc v e f (length f)" using f by (auto simp: ext_state_def)
    then show ?thesis by (rule ext_state_extent_ok)
  qed
  have body: "engine_body crc v en e b = stored_body crc v ?src b" for b by (simp add: engine_body_def f)
  let ?body = "\<lambda>b. the (stored_body crc v ?src b)"
  have entries: "entry_at crc ?src b i (?body b)" if "(b, i) \<in> set live" for b i
    using stored_body_found(1) [OF src_ok, of b i] that live(1) by simp
  have found: "engine_body crc v en e b = Some (?body b)" if "live_in v e b" for b
    using that stored_body_found(2) [OF src_ok, of b] unfolding body by (auto simp: live_in_def split: option.splits)
  have mem: "b \<in> fst ` set live \<longleftrightarrow> live_in v e b" for b
    using live(1) by (force simp: live_in_def split: option.splits)
  have st: "ext_state crc v n (extent_header_encode crc n) EXTENT_HEADER_LEN"
    by (rule new_extent_state [OF mn _ _ new]) (simp_all add: fresh_meta_def)
  obtain v' where v': "engine_keeps crc v en v' en'" "ef_extent_id dest = n" "same_off n v v'"
     "ext_state crc v' n (ef_file dest) (ef_write_offset dest)"
     "\<exists>m m'. iv_meta v n = Some m \<and> iv_meta v' n = Some m' \<and> em_status m' = em_status m"
     "\<And>b. iv_blob v' n b \<noteq> None \<Longrightarrow> b \<in> fst ` set live"
     "r = Ok () \<Longrightarrow> \<forall>b \<in> fst ` set live. live_in v' n b \<and> engine_body crc v' en' n b = Some (?body b)"
    using compact_copy_inv [OF inv h st w xs entries live(2) new fits cp en'] by blast
  then show "\<exists>v'. engine_keeps crc v en v' en'" by blast
  assume r: "r = Ok ()" and fin: "compact_finish (extent_shard_id e) e n src_meta k dest (en_disk en') d' xs = (r', dk2, d2, xs2)"
  have inv': "engine_inv crc v' en'" using v'(1) by (simp add: engine_keeps_def)
  obtain mn' where mn': "iv_meta v' n = Some mn'" "em_status mn' \<noteq> Dropped" using v'(5) mn by (auto simp: fresh_meta_def)
  have me': "iv_meta v' e = Some me" and be: "iv_blob v' e = iv_blob v e" using v'(3) me ne by (simp_all add: same_off_def)
  have sub: "live_in v' e b" if "iv_blob v' n b \<noteq> None" for b
    using v'(6) [OF that] mem be by (simp add: live_in_def)
  have "extent_bytes (en_disk en') n = Some (ef_file dest)" "fmlookup (en_writers en') n = None"
    "en_index en' = d'" by (simp_all add: en' w)
  then obtain out v2 where fin2: "r' = Ok out" "co_new_extent out = n" "xs2 = fmdrop e (fmupd n dest xs)"
    "\<forall>q. engine_inv crc v2 (en'\<lparr>en_disk := dk2, en_index := d2,
        en_writers := fmupd n \<lparr>wt_offset = ef_write_offset dest, wt_queue = q\<rparr> (en_writers en')\<rparr>)"
    "iv_bind v2 = (iv_bind v')(shard_prefix (extent_shard_id e) \<mapsto> n)"
    "\<And>x. x \<noteq> e \<Longrightarrow> iv_blob v2 x = iv_blob v' x \<and> extent_bytes dk2 x = extent_bytes (en_disk en') x"
    using compact_finish_inv [OF inv' ne me' mn' sh refl sub _ v'(4), of src_meta k dest xs r' dk2 d2 xs2] fin by auto
  let ?en2 = "spawn_writer n dest (en'\<lparr>en_disk := dk2, en_index := d2\<rparr>)"
  have inv2: "engine_inv crc v2 ?en2" using fin2(4) by (simp add: spawn_writer_def)
  have sv: "serves crc v' en' v2 ?en2 x b" if "x \<noteq> e" for x b
    using fin2(6) [OF that] by (intro serves_frame) (simp_all add: spawn_writer_def)
  have "serves crc v en v2 ?en2 x b" if "x \<noteq> e" for x b
    using sv [OF that] v'(1) by (simp add: engine_keeps_def serves_def)
  moreover have "live_in v2 n b \<and> engine_body crc v2 ?en2 n b = engine_body crc v en e b" if l: "live_in v e b" for b
  proof -
    have "b \<in> fst ` set live" using l mem by blast
    then have "live_in v' n b" "engine_body crc v' en' n b = Some (?body b)" using v'(7) [OF r] by blast+
    then show ?thesis using sv [OF ne, of b] found [OF l] by (simp add: serves_def)
  qed
  moreover have "iv_bind v2 = (iv_bind v)(shard_prefix (extent_shard_id e) \<mapsto> n)"
    using fin2(5) v'(3) by (simp add: same_off_def)
  ultimately have "engine_moves crc v en e n v2 ?en2" using inv2 by (simp add: engine_moves_def)
  moreover have "fmlookup xs2 n = Some dest" using ne by (simp add: fin2(3))
  ultimately show "\<exists>out v2. r' = Ok out \<and> co_new_extent out = n \<and> fmlookup xs2 n = Some dest
         \<and> engine_moves crc v en e n v2 ?en2" using fin2(1,2) by blast
qed

text \<open>The compaction after the source has been paused, into a new extent.\<close>

lemma compact_new_inv:
  assumes inv: "engine_inv crc v en" and n: "n = extent_new (extent_shard_id e) ts"
    and w: "fmlookup (en_writers en) n = None" and f: "extent_bytes (en_disk en) e = Some f"
    and m: "iv_meta v e = Some m" and none: "extent_bytes (en_disk en) n = None"
    and xs: "fmlookup xs e = Some \<lparr>ef_file = f, ef_extent_id = e, ef_write_offset = length f\<rparr>"
    and live: "\<And>b i. (b, i) \<in> set live \<longleftrightarrow> iv_blob v e b = Some i \<and> \<not> is_tombstoned i" "distinct (map fst live)"
    and fits: "EXTENT_HEADER_LEN + (\<Sum>(b, i) \<leftarrow> live. record_on_disk_len (bi_size i)) < 2 ^ 64"
    and run: "(case copy_live crc fl xs e live (put_extent_meta n (fresh_meta n Writable ts) (en_index en))
         \<lparr>ef_file = extent_header_encode crc n, ef_extent_id = n, ef_write_offset = EXTENT_HEADER_LEN\<rparr> of
       (Err err, d3, dest') \<Rightarrow> (Err err, put_extent_bytes n (ef_file dest') (en_disk en), d3, xs)
     | (Ok _, d3, dest') \<Rightarrow>
         compact_finish (extent_shard_id e) e n src_meta k dest' (put_extent_bytes n (ef_file dest') (en_disk en)) d3 xs)
     = (r, dk', d', xs')"
  shows "(\<exists>err v'. r = Err err \<and> engine_keeps crc v en v' (en\<lparr>en_disk := dk', en_index := d'\<rparr>))
    \<or> (\<exists>out dest v'. r = Ok out \<and> co_new_extent out = n \<and> fmlookup xs' n = Some dest
        \<and> engine_moves crc v en e n v' (spawn_writer n dest (en\<lparr>en_disk := dk', en_index := d'\<rparr>)))"
proof -
  have ne: "n \<noteq> e" using none f by auto
  have sh: "extent_shard_id n = extent_shard_id e" by (simp add: n)
  have none': "iv_meta v n = None" "\<And>b. iv_blob v n b = None"
  proof -
    have "ext_ok crc v en n" using inv by (simp add: engine_inv_def)
    then show "iv_meta v n = None" "iv_blob v n b = None" for b
      using none by (cases "iv_meta v n", simp_all add: ext_ok_def)+
  qed
  define v2 where "v2 = view_put_meta n (fresh_meta n Writable ts) v"
  define en2 where "en2 = en\<lparr>en_disk := put_extent_bytes n (extent_header_encode crc n) (en_disk en),
    en_index := put_extent_meta n (fresh_meta n Writable ts) (en_index en)\<rparr>"
  have k2: "engine_keeps crc v en v2 en2" unfolding v2_def en2_def by (rule unbound_extent_keeps [OF inv none'(1) w])
  then have inv2: "engine_inv crc v2 en2" by (simp add: engine_keeps_def)
  have v2: "iv_meta v2 e = Some m" "iv_meta v2 n = Some (fresh_meta n Writable ts)" "iv_blob v2 = iv_blob v"
    using ne m by (simp_all add: v2_def view_put_meta_def)
  have en2: "en_index en2 = put_extent_meta n (fresh_meta n Writable ts) (en_index en)" "fmlookup (en_writers en2) n = None"
    "extent_bytes (en_disk en2) e = Some f" "extent_bytes (en_disk en2) n = Some (extent_header_encode crc n)"
    using ne w f by (simp_all add: en2_def)
  obtain r3 d3 dest where cp: "copy_live crc fl xs e live (en_index en2)
      \<lparr>ef_file = extent_header_encode crc n, ef_extent_id = n, ef_write_offset = EXTENT_HEADER_LEN\<rparr> = (r3, d3, dest)" by (metis prod_cases3)
  define en3 where "en3 = en2\<lparr>en_index := d3, en_disk := put_extent_bytes n (ef_file dest) (en_disk en2)\<rparr>"
  have dsk: "en_disk en3 = put_extent_bytes n (ef_file dest) (en_disk en)"
    and upd: "en3\<lparr>en_disk := dk, en_index := d\<rparr> = en\<lparr>en_disk := dk, en_index := d\<rparr>" for dk d
    by (simp_all add: en3_def en2_def put_extent_bytes_def)
  have live2: "(b, i) \<in> set live \<longleftrightarrow> iv_blob v2 e b = Some i \<and> \<not> is_tombstoned i" for b i using live(1) by (simp add: v2(3))
  have new2: "iv_blob v2 n b = None" for b using none'(2) by (simp add: v2(3))
  note rest = compact_rest_inv [OF inv2 ne sh en2(2) v2(1,2) new2 en2(3,4) xs live2 live(2) fits cp en3_def]
  note run = run [folded en2(1), unfolded cp prod.case, folded dsk]
  show ?thesis
  proof (cases r3)
    case (Inl err)
    then have "r = Err err" "dk' = en_disk en3" "d' = d3" using run by simp_all
    moreover obtain v' where "engine_keeps crc v2 en2 v' en3" using rest(1) by blast
    moreover have "en\<lparr>en_disk := en_disk en3, en_index := d3\<rparr> = en3" by (simp add: en3_def en2_def)
    ultimately show ?thesis using engine_keeps_trans [OF k2] by auto
  next
    case (Inr u)
    then have fin: "compact_finish (extent_shard_id e) e n src_meta k dest (en_disk en3) d3 xs = (r, dk', d', xs')" and r3: "r3 = Ok ()"
      using run by simp_all
    show ?thesis using rest(2) [OF r3 fin] engine_keeps_moves [OF inv k2] unfolding upd by blast
  qed
qed

text \<open>A compaction on any device: a failure leaves every shard where it is with all its blobs, success
  moves every live blob.\<close>

lemma compact_extent_inv:
  assumes inv: "engine_inv crc v en" and n: "n = extent_new (extent_shard_id e) ts"
    and w: "fmlookup (en_writers en) n = None" and f: "extent_bytes (en_disk en) e = Some f"
    and blobs: "list_blobs (en_index en) e = Ok blobs"
    and fits: "EXTENT_HEADER_LEN + (\<Sum>(b, i) \<leftarrow> live_list blobs. record_on_disk_len (bi_size i)) < 2 ^ 64"
    and run: "compact_extent crc fl e ts (en_disk en) (en_index en)
       (fmupd e \<lparr>ef_file = f, ef_extent_id = e, ef_write_offset = length f\<rparr> fmempty) = (r, dk', d', xs')"
  shows "(\<exists>err v'. r = Err err \<and> engine_keeps crc v en v' (en\<lparr>en_disk := dk', en_index := d'\<rparr>))
    \<or> (\<exists>out dest v'. r = Ok out \<and> co_new_extent out = n \<and> fmlookup xs' n = Some dest
        \<and> engine_moves crc v en e n v' (spawn_writer n dest (en\<lparr>en_disk := dk', en_index := d'\<rparr>)))"
proof -
  have rel: "index_rel (en_index en) v" using inv by (rule engine_inv_rel)
  note run = run [unfolded compact_extent_def Let_def get_extent_meta_rel [OF rel] blobs status_merge_rel [OF rel] n [symmetric]]
  have stay: ?thesis if "r = Err err" "dk' = en_disk en" "d' = en_index en" for err
    using that engine_keeps_refl [OF inv] by (intro disjI1 exI [of _ err] exI [of _ v]) simp
  consider "iv_meta v e = None" | m where "iv_meta v e = Some m" "em_status m \<noteq> Writable \<and> em_status m \<noteq> Full"
    | m where "iv_meta v e = Some m" "\<not> (em_status m \<noteq> Writable \<and> em_status m \<noteq> Full)" by (metis option.exhaust)
  then show ?thesis
  proof cases
    case 1
    then show ?thesis using run by (intro stay [of "SE_ExtentNotFound e"]) simp_all
  next
    case (2 m)
    then show ?thesis using run by (intro stay [of "SE_NotWritable (em_status m)"]) simp_all
  next
    case (3 m)
    define d1 where "d1 = apply_batch_op (BatchMerge (extent_key e) (merge_op_encode (SetStatus Full))) (en_index en)"
    define v1 where "v1 = view_merge e (SetStatus Full) v"
    define en1 where "en1 = en\<lparr>en_index := d1\<rparr>"
    have inv1: "engine_inv crc v1 en1" unfolding v1_def en1_def by (rule engine_inv_status [OF inv 3(1) _ d1_def]) simp
    have b1: "iv_bind v1 = iv_bind v" "iv_blob v1 = iv_blob v" "iv_meta v1 e = Some (m\<lparr>em_status := Full\<rparr>)"
      by (simp_all add: v1_def view_merge_def 3(1))
    have "serves crc v en v1 en1 x b" for x b by (rule serves_frame) (simp_all add: b1 en1_def)
    then have k1: "engine_keeps crc v en v1 en1" using inv1 by (simp add: engine_keeps_def b1)
    have upd: "en1\<lparr>en_disk := dk, en_index := d\<rparr> = en\<lparr>en_disk := dk, en_index := d\<rparr>" for dk d by (simp add: en1_def)
    show ?thesis
    proof (cases "extent_bytes (en_disk en) n")
      case (Some g)
      then have "r = Err (SE_Extent (X_Io IoAlreadyExists))" "dk' = en_disk en" "d' = d1"
        using run 3 unfolding d1_def [symmetric] by (simp_all add: extent_create_def)
      then show ?thesis using k1 by (auto simp: en1_def)
    next
      case None
      have fm: "\<lparr>em_shard_id = extent_shard_id e, em_status = Writable, em_size = of_nat EXTENT_HEADER_LEN,
          em_deleted_bytes = 0, em_create_ts = ts\<rparr> = fresh_meta n Writable ts" by (simp add: fresh_meta_def n)
      have lv: "(b, i) \<in> set (live_list blobs) \<longleftrightarrow> iv_blob v1 e b = Some i \<and> \<not> is_tombstoned i" for b i
        using list_blobs_live(3) [OF rel blobs] by (simp add: b1)
      have en1: "fmlookup (en_writers en1) n = None" "extent_bytes (en_disk en1) e = Some f" "extent_bytes (en_disk en1) n = None"
        "en_disk en1 = en_disk en" "en_index en1 = d1"
        using w f None by (simp_all add: en1_def)
      let ?xs = "fmupd e \<lparr>ef_file = f, ef_extent_id = e, ef_write_offset = length f\<rparr> fmempty"
      have src: "fmlookup ?xs e = Some \<lparr>ef_file = f, ef_extent_id = e, ef_write_offset = length f\<rparr>" by simp
      have "(case copy_live crc fl ?xs e (live_list blobs) (put_extent_meta n (fresh_meta n Writable ts) (en_index en1))
          \<lparr>ef_file = extent_header_encode crc n, ef_extent_id = n, ef_write_offset = EXTENT_HEADER_LEN\<rparr> of
          (Err err, d3, dest') \<Rightarrow> (Err err, put_extent_bytes n (ef_file dest') (en_disk en1), d3, ?xs)
        | (Ok _, d3, dest') \<Rightarrow> compact_finish (extent_shard_id e) e n m (length (live_list blobs)) dest'
            (put_extent_bytes n (ef_file dest') (en_disk en1)) d3 ?xs) = (r, dk', d', xs')"
        using run 3 None unfolding d1_def [symmetric] en1(4,5) by (simp add: extent_create_new fm)
      from compact_new_inv [OF inv1 n en1(1,2) b1(3) en1(3) src lv list_blobs_live(5) [OF rel blobs] fits this]
      show ?thesis using engine_keeps_trans [OF k1] engine_keeps_moves [OF inv k1] unfolding upd by blast
    qed
  qed
qed

text \<open>The engine call: stop the writer, compact, give the destination a writer. The clock is assumed not
  to repeat: no writer is left over for the new id.\<close>

definition compact_fits :: "checksum \<Rightarrow> io_faults \<Rightarrow> extent_id \<Rightarrow> i64 \<Rightarrow> engine \<Rightarrow> bool" where
  "compact_fits crc fl e ts en \<longleftrightarrow>
     queue_fits e en \<and> fmlookup (en_writers en) (extent_new (extent_shard_id e) ts) = None
     \<and> (case list_blobs (en_index (snd (stop_writer crc fl e en))) e of
          Err _ \<Rightarrow> True
        | Ok blobs \<Rightarrow> EXTENT_HEADER_LEN + (\<Sum>(b, i) \<leftarrow> live_list blobs. record_on_disk_len (bi_size i)) < 2 ^ 64)"

lemma compact_blocking_inv:
  assumes inv: "engine_inv crc v en" and fits: "compact_fits crc fl e ts en"
    and run: "compact_blocking crc fl e ts en = (r, en')"
  shows "(\<exists>err v'. r = Err err \<and> engine_keeps crc v en v' en')
    \<or> (\<exists>out v'. r = Ok out \<and> engine_moves crc v en e (extent_new (extent_shard_id e) ts) v' en')"
proof -
  define n where "n = extent_new (extent_shard_id e) ts"
  obtain rs en1 where st: "stop_writer crc fl e en = (rs, en1)" by (cases "stop_writer crc fl e en")
  obtain v1 where v1: "engine_inv crc v1 en1" "same_off e v v1" "\<forall>x b. serves crc v en v1 en1 x b"
    using stop_writer_inv [OF inv _ st] fits by (auto simp: compact_fits_def)
  then have k1: "engine_keeps crc v en v1 en1" by (simp add: engine_keeps_def same_off_def)
  have w: "fmlookup (en_writers en1) n = None"
    using stop_writer_frame(1,2) [OF st] fits by (cases "n = e") (simp_all add: compact_fits_def n_def)
  obtain blobs where blobs: "list_blobs (en_index en1) e = Ok blobs" using list_blobs_rel [OF engine_inv_rel [OF v1(1)]] by blast
  have sp: "EXTENT_HEADER_LEN + (\<Sum>(b, i) \<leftarrow> live_list blobs. record_on_disk_len (bi_size i)) < 2 ^ 64"
    using fits blobs st by (simp add: compact_fits_def)
  show ?thesis
  proof (cases "iv_meta v1 e")
    case None
    have "ext_ok crc v1 en1 e" using v1(1) by (simp add: engine_inv_def)
    then have "extent_bytes (en_disk en1) e = None" using None by (simp add: ext_ok_def)
    then have "r = Err (SE_ExtentNotFound e)" "en' = en1" using run st by (simp_all add: compact_blocking_def Let_def open_read_def)
    then show ?thesis using k1 by blast
  next
    case (Some m)
    obtain f where f: "extent_bytes (en_disk en1) e = Some f"
      "open_read crc (en_disk en1) e = Ok \<lparr>ef_file = f, ef_extent_id = e, ef_write_offset = length f\<rparr>"
      using open_read_ok [OF v1(1) Some] by blast
    obtain r1 dk' d' xs' where c: "compact_extent crc fl e ts (en_disk en1) (en_index en1)
       (fmupd e \<lparr>ef_file = f, ef_extent_id = e, ef_write_offset = length f\<rparr> fmempty) = (r1, dk', d', xs')" by (metis prod_cases4)
    note run = run [unfolded compact_blocking_def st snd_conv Let_def f(2) sum.case c prod.case]
    from compact_extent_inv [OF v1(1) n_def w f(1) blobs sp c] show ?thesis
    proof (elim disjE exE conjE)
      fix err v' assume "r1 = Err err" "engine_keeps crc v1 en1 v' (en1\<lparr>en_disk := dk', en_index := d'\<rparr>)"
      then show ?thesis using run engine_keeps_trans [OF k1] by auto
    next
      fix out dest v' assume c: "r1 = Ok out" "co_new_extent out = n" "fmlookup xs' n = Some dest"
        and mv: "engine_moves crc v1 en1 e n v' (spawn_writer n dest (en1\<lparr>en_disk := dk', en_index := d'\<rparr>))"
      have "r = Ok out" "en' = spawn_writer n dest (en1\<lparr>en_disk := dk', en_index := d'\<rparr>)" using run c by simp_all
      then show ?thesis using engine_keeps_moves [OF inv k1 mv] unfolding n_def [symmetric] by blast
    qed
  qed
qed

end
