(* ===== verification/Store_Steps.thy ===== *)
theory Store_Steps
  imports Store_Reach
begin

text \<open>
  A crash and the startup that follows, and the steps of an engine over its whole life. A crash keeps
  the committed bytes of every extent file and may leave anything behind them; the index keeps its
  synced batches. Properties of every reachable state and of every run close the theory.
\<close>

section \<open>Startup after a crash\<close>

definition committed_size :: "index_view \<Rightarrow> extent_id \<Rightarrow> nat" where
  "committed_size v e = (case iv_meta v e of None \<Rightarrow> 0 | Some m \<Rightarrow> unat (em_size m))"

text \<open>A file as it is found: its header and committed bytes are there.\<close>

definition found_ok :: "checksum \<Rightarrow> index_view \<Rightarrow> extent_id \<Rightarrow> bytes \<Rightarrow> bool" where
  "found_ok crc v e g \<longleftrightarrow>
     iv_meta v e \<noteq> None \<and> prefix (extent_header_encode crc e) g \<and> committed_size v e \<le> length g"

definition restored :: "index_view \<Rightarrow> extent_id \<Rightarrow> bytes \<Rightarrow> extent_file" where
  "restored v e g = \<lparr>ef_file = take (committed_size v e) g, ef_extent_id = e, ef_write_offset = committed_size v e\<rparr>"

lemma recover_extent_committed:
  assumes "index_rel d v" "found_ok crc v e g"
  shows "recover_extent crc d \<lparr>ef_file = g, ef_extent_id = e, ef_write_offset = length g\<rparr> = Ok (d, restored v e g)"
  using assms by (auto simp: recover_extent_def Let_def found_ok_def committed_size_def restored_def truncate_to_def set_len_def)

lemma recover_files_ok:
  assumes "index_rel d v" "distinct (map fst files)"
    and "\<And>name g. (name, g) \<in> set files \<Longrightarrow> \<exists>e. name = extent_file_name e \<and> found_ok crc v e g"
  shows "\<exists>dk' efs. recover_files crc files dk d acc = Ok (dk', d, acc @ efs)
     \<and> (\<forall>name. name \<notin> fst ` set files \<longrightarrow> fmlookup (dk_extents dk') name = fmlookup (dk_extents dk) name)
     \<and> (\<forall>e g. (extent_file_name e, g) \<in> set files \<longrightarrow>
          extent_bytes dk' e = Some (take (committed_size v e) g) \<and> restored v e g \<in> set efs)
     \<and> (\<forall>ef \<in> set efs. \<exists>e g. (extent_file_name e, g) \<in> set files \<and> ef = restored v e g)"
  using assms(2,3)
proof (induction files arbitrary: dk acc)
  case (Cons p files)
  obtain name g where p: "p = (name, g)" by (cases p)
  obtain e where e: "name = extent_file_name e" "found_ok crc v e g" using Cons.prems(2) p by auto
  let ?dk = "dk\<lparr>dk_extents := fmupd name (take (committed_size v e) g) (dk_extents dk)\<rparr>"
  have open1: "extent_open crc g = Ok \<lparr>ef_file = g, ef_extent_id = e, ef_write_offset = length g\<rparr>"
    using e(2) by (intro extent_open_header) (simp add: found_ok_def)
  have step: "recover_files crc (p # files) dk d acc = recover_files crc files ?dk d (acc @ [restored v e g])"
    by (simp add: p open1 recover_extent_committed [OF assms(1) e(2)]) (simp add: restored_def)
  obtain dk' efs where ih: "recover_files crc files ?dk d (acc @ [restored v e g]) = Ok (dk', d, (acc @ [restored v e g]) @ efs)"
     "\<And>name. name \<notin> fst ` set files \<Longrightarrow> fmlookup (dk_extents dk') name = fmlookup (dk_extents ?dk) name"
     "\<And>e g. (extent_file_name e, g) \<in> set files \<Longrightarrow>
          extent_bytes dk' e = Some (take (committed_size v e) g) \<and> restored v e g \<in> set efs"
     "\<And>ef. ef \<in> set efs \<Longrightarrow> \<exists>e g. (extent_file_name e, g) \<in> set files \<and> ef = restored v e g"
    using Cons.IH [of ?dk "acc @ [restored v e g]"] Cons.prems by (auto simp: p)
  have "name \<notin> fst ` set files" using Cons.prems(1) by (simp add: p)
  then have new: "extent_bytes dk' e = Some (take (committed_size v e) g)"
    using ih(2) [of name] by (simp add: extent_bytes_def e(1))
  show ?case
  proof (intro exI [of _ dk'] exI [of _ "restored v e g # efs"] conjI allI impI ballI)
    show "recover_files crc (p # files) dk d acc = Ok (dk', d, acc @ (restored v e g # efs))" using step ih(1) by simp
  next
    fix name' assume "name' \<notin> fst ` set (p # files)"
    then show "fmlookup (dk_extents dk') name' = fmlookup (dk_extents dk) name'" using ih(2) [of name'] by (auto simp: p)
  next
    fix x h assume "(extent_file_name x, h) \<in> set (p # files)"
    then have "x = e \<and> h = g \<or> (extent_file_name x, h) \<in> set files" by (auto simp: p e(1))
    then show "extent_bytes dk' x = Some (take (committed_size v x) h)" "restored v x h \<in> set (restored v e g # efs)"
      using new ih(3) by auto
  next
    fix ef assume "ef \<in> set (restored v e g # efs)"
    then have "ef = restored v e g \<or> ef \<in> set efs" by simp
    moreover have "(extent_file_name e, g) \<in> set (p # files)" by (simp add: p e(1))
    ultimately show "\<exists>x h. (extent_file_name x, h) \<in> set (p # files) \<and> ef = restored v x h"
      using ih(4) by (metis list.set_intros(2))
  qed
qed simp

lemma spawn_writers_for_ok:
  assumes "index_rel (en_index en) v"
  shows "\<exists>ws. spawn_writers_for efs en = Ok (en\<lparr>en_writers := ws\<rparr>)
     \<and> (\<forall>x w. fmlookup ws x = Some w \<longrightarrow>
          fmlookup (en_writers en) x = Some w \<or> (\<exists>ef \<in> set efs. ef_extent_id ef = x \<and> wt_offset w = ef_write_offset ef))
     \<and> (\<forall>x. fmlookup (en_writers en) x \<noteq> None \<longrightarrow> fmlookup ws x \<noteq> None)
     \<and> (\<forall>ef \<in> set efs. \<forall>m. iv_meta v (ef_extent_id ef) = Some m \<and> em_status m = Writable
          \<and> iv_bind v (shard_prefix (em_shard_id m)) = Some (ef_extent_id ef) \<longrightarrow> fmlookup ws (ef_extent_id ef) \<noteq> None)"
  using assms
proof (induction efs arbitrary: en)
  case Nil
  then show ?case by (intro exI [of _ "en_writers en"]) simp
next
  case (Cons ef efs)
  let ?e = "ef_extent_id ef"
  let ?keep = "\<exists>m. iv_meta v ?e = Some m \<and> em_status m = Writable \<and> iv_bind v (shard_prefix (em_shard_id m)) = Some ?e"
  define en1 where "en1 = (if ?keep then spawn_writer ?e ef en else en)"
  have run: "spawn_writers_for (ef # efs) en = spawn_writers_for efs en1"
    using Cons.prems by (cases "iv_meta v ?e") (auto simp: en1_def Let_def)
  have idx: "en_index en1 = en_index en" by (simp add: en1_def spawn_writer_def)
  obtain ws where ws: "spawn_writers_for efs en1 = Ok (en1\<lparr>en_writers := ws\<rparr>)"
    "\<And>x w. fmlookup ws x = Some w \<Longrightarrow>
       fmlookup (en_writers en1) x = Some w \<or> (\<exists>ef \<in> set efs. ef_extent_id ef = x \<and> wt_offset w = ef_write_offset ef)"
    "\<And>x. fmlookup (en_writers en1) x \<noteq> None \<Longrightarrow> fmlookup ws x \<noteq> None"
    "\<And>ef m. ef \<in> set efs \<Longrightarrow> iv_meta v (ef_extent_id ef) = Some m \<Longrightarrow> em_status m = Writable \<Longrightarrow>
       iv_bind v (shard_prefix (em_shard_id m)) = Some (ef_extent_id ef) \<Longrightarrow> fmlookup ws (ef_extent_id ef) \<noteq> None"
    using Cons.IH [of en1] Cons.prems idx by auto
  have w1: "fmlookup (en_writers en1) x = Some w \<Longrightarrow> fmlookup (en_writers en) x = Some w \<or> x = ?e \<and> wt_offset w = ef_write_offset ef" for x w
    by (auto simp: en1_def spawn_writer_def split: if_splits)
  have w2: "fmlookup (en_writers en) x \<noteq> None \<Longrightarrow> fmlookup (en_writers en1) x \<noteq> None" for x
    by (auto simp: en1_def spawn_writer_def)
  have w3: "?keep \<Longrightarrow> fmlookup (en_writers en1) ?e \<noteq> None" by (simp add: en1_def spawn_writer_def)
  have same: "en1\<lparr>en_writers := ws\<rparr> = en\<lparr>en_writers := ws\<rparr>" by (simp add: en1_def spawn_writer_def)
  show ?case
  proof (intro exI [of _ ws] conjI allI impI ballI)
    show "spawn_writers_for (ef # efs) en = Ok (en\<lparr>en_writers := ws\<rparr>)" using run ws(1) same by simp
  next
    fix x w assume "fmlookup ws x = Some w"
    then show "fmlookup (en_writers en) x = Some w \<or> (\<exists>f \<in> set (ef # efs). ef_extent_id f = x \<and> wt_offset w = ef_write_offset f)"
      using ws(2) w1 by (metis list.set_intros)
  next
    fix x assume "fmlookup (en_writers en) x \<noteq> None"
    then show "fmlookup ws x \<noteq> None" using ws(3) w2 by blast
  next
    fix f m assume f: "f \<in> set (ef # efs)" and m: "iv_meta v (ef_extent_id f) = Some m \<and> em_status m = Writable
      \<and> iv_bind v (shard_prefix (em_shard_id m)) = Some (ef_extent_id f)"
    show "fmlookup ws (ef_extent_id f) \<noteq> None"
    proof (cases "f = ef")
      case True
      then show ?thesis using m w3 ws(3) by blast
    next
      case False
      then show ?thesis using f m ws(4) by simp
    qed
  qed
qed

text \<open>What a crash leaves: every file, its committed bytes, and anything after them.\<close>

definition crash_image :: "engine \<Rightarrow> disk_root \<Rightarrow> bool" where
  "crash_image en root \<longleftrightarrow>
     dr_superblock_file root = dk_superblock_file (en_disk en) \<and> fmdom (dr_extents root) = fmdom (dk_extents (en_disk en))
     \<and> (\<forall>e m f. get_extent_meta (en_index en) e = Ok (Some m) \<and> extent_bytes (en_disk en) e = Some f \<longrightarrow>
          (\<exists>rest. fmlookup (dr_extents root) (extent_file_name e) = Some (take (unat (em_size m)) f @ rest)))"

definition lists_all :: "dir_order \<Rightarrow> bool" where
  "lists_all ord \<longleftrightarrow> (\<forall>xs. mset (ord xs) = mset xs)"

lemma take_entry:
  assumes "ext_state crc v e f cur" "take (committed_size v e) g = take (committed_size v e) f" "committed_size v e \<le> length g"
  shows "ext_state crc v e (take (committed_size v e) g) (committed_size v e)"
    and "stored_body crc v \<lparr>ef_file = take (committed_size v e) g, ef_extent_id = e, ef_write_offset = n\<rparr> b
       = stored_body crc v \<lparr>ef_file = f, ef_extent_id = e, ef_write_offset = k\<rparr> b"
    and "prefix (extent_header_encode crc e) g"
proof -
  obtain m where m: "iv_meta v e = Some m" "EXTENT_HEADER_LEN \<le> unat (em_size m)" "unat (em_size m) \<le> cur" "cur \<le> length f"
    "em_shard_id m = extent_shard_id e" "prefix (extent_header_encode crc e) f"
    "\<And>b i. iv_blob v e b = Some i \<Longrightarrow>
       \<exists>body. entry_at crc \<lparr>ef_file = f, ef_extent_id = e, ef_write_offset = unat (em_size m)\<rparr> b i body"
    using assms(1) unfolding ext_state_def by blast
  have cs: "committed_size v e = unat (em_size m)" by (simp add: committed_size_def m(1))
  let ?ef = "\<lparr>ef_file = f, ef_extent_id = e, ef_write_offset = unat (em_size m)\<rparr>"
  let ?ef' = "\<lparr>ef_file = take (unat (em_size m)) g, ef_extent_id = e, ef_write_offset = unat (em_size m)\<rparr>"
  have ext: "extends ?ef ?ef'" using assms(2,3) m(3,4) by (simp add: extends_def cs)
  have st: "ext_state crc v e f (unat (em_size m))"
    unfolding ext_state_def using m by (intro conjI exI [of _ m] allI impI) simp_all
  show "ext_state crc v e (take (committed_size v e) g) (committed_size v e)"
    using ext_state_extends [OF st ext] by (simp add: cs)
  have "stored_body crc v ?ef' b = stored_body crc v ?ef b"
    by (rule extends_ok(2) [OF ext_state_extent_ok [OF st] ext])
  then show "stored_body crc v \<lparr>ef_file = take (committed_size v e) g, ef_extent_id = e, ef_write_offset = n\<rparr> b
       = stored_body crc v \<lparr>ef_file = f, ef_extent_id = e, ef_write_offset = k\<rparr> b"
    unfolding cs by (metis stored_body_cursor)
  have len: "length (extent_header_encode crc e) = EXTENT_HEADER_LEN" by (rule extent_header.enc_length)
  have "prefix (extent_header_encode crc e) (take (unat (em_size m)) f)"
    using m(2,6) len by (auto simp: prefix_def)
  then have "prefix (extent_header_encode crc e) (take (unat (em_size m)) g)" using assms(2) by (simp add: cs)
  then show "prefix (extent_header_encode crc e) g" using take_is_prefix prefix_order.trans by blast
qed

lemma engine_open_inv:
  assumes inv: "engine_inv crc v en" and crash: "crash_image en root" and ord: "lists_all ord"
    and load: "disk_load crc cluster root = Ok dk"
  shows "\<exists>en'. engine_open ord crc cluster root (en_index en) = Ok en' \<and> engine_keeps crc v en v en'
     \<and> (\<forall>s e m. iv_bind v (shard_prefix s) = Some e \<and> iv_meta v e = Some m \<and> em_status m = Writable \<longrightarrow>
          (\<exists>w. fmlookup (en_writers en') e = Some w \<and> wt_offset w = committed_size v e))"
proof -
  have rel: "index_rel (en_index en) v" and names: "names_ok (en_disk en)" and bind: "bind_ok v"
    using inv by (simp_all add: engine_inv_def)
  have dk: "dk_extents dk = dr_extents root"
    using load by (auto simp: disk_load_def result_simps split: option.splits if_splits)
  have onfile: "\<exists>f g. extent_bytes (en_disk en) e = Some f \<and> extent_bytes dk e = Some g \<and> ext_state crc v e f (cursor_of en e f)
      \<and> take (committed_size v e) g = take (committed_size v e) f \<and> committed_size v e \<le> length g"
    if m: "iv_meta v e = Some m" for e m
  proof -
    obtain f where f: "extent_bytes (en_disk en) e = Some f" "ext_state crc v e f (cursor_of en e f)"
      using engine_inv_ext [OF inv m] by blast
    have "get_extent_meta (en_index en) e = Ok (Some m)" using m rel by simp
    then obtain rest where "extent_bytes dk e = Some (take (unat (em_size m)) f @ rest)"
      using crash f(1) unfolding crash_image_def dk extent_bytes_def [of dk] by blast
    moreover have "unat (em_size m) \<le> length f" using f(2) m by (auto simp: ext_state_def)
    ultimately show ?thesis using f m by (simp add: committed_size_def min_absorb2)
  qed
  have "fmdom (dr_extents root) = fmdom (dk_extents (en_disk en))" using crash by (simp add: crash_image_def)
  then have dom: "fmlookup (dk_extents dk) k = None \<longleftrightarrow> fmlookup (dk_extents (en_disk en)) k = None" for k
    unfolding dk by (metis fmdom_notD fmdom_notI)
  have meta: "\<exists>m. iv_meta v e = Some m" if "extent_bytes dk e = Some g" for e g
  proof -
    have "extent_bytes (en_disk en) e \<noteq> None"
      using that dom [of "extent_file_name e"] unfolding extent_bytes_def by (metis option.distinct(1))
    moreover have "ext_ok crc v en e" using inv by (simp add: engine_inv_def)
    ultimately show ?thesis by (cases "iv_meta v e") (simp_all add: ext_ok_def)
  qed
  let ?files = "list_extent_paths ord dk"
  have ms: "mset ?files = mset (kv_entries (dk_extents dk))" using ord by (simp add: lists_all_def list_extent_paths_def)
  have mem: "(name, g) \<in> set ?files \<longleftrightarrow> fmlookup (dk_extents dk) name = Some g" for name g
    using mset_eq_setD [OF ms] set_kv_entries by simp
  have "mset (map fst ?files) = mset (map fst (kv_entries (dk_extents dk)))" using ms by simp
  then have dist: "distinct (map fst ?files)"
    using distinct_kv_entries mset_eq_imp_distinct_iff by blast
  have found: "\<exists>e. name = extent_file_name e \<and> found_ok crc v e g" if "(name, g) \<in> set ?files" for name g
  proof -
    have name: "fmlookup (dk_extents dk) name = Some g" using that mem by blast
    then have "\<exists>f. fmlookup (dk_extents (en_disk en)) name = Some f"
      using dom [of name] by (cases "fmlookup (dk_extents (en_disk en)) name") simp_all
    then obtain e where e: "name = extent_file_name e" using names unfolding names_ok_def by blast
    then have g: "extent_bytes dk e = Some g" using name by (simp add: extent_bytes_def)
    then obtain m where m: "iv_meta v e = Some m" using meta by blast
    obtain f where "ext_state crc v e f (cursor_of en e f)" "take (committed_size v e) g = take (committed_size v e) f"
      "committed_size v e \<le> length g" using onfile [OF m] g by auto
    then show ?thesis using e m take_entry(3) by (auto simp: found_ok_def)
  qed
  obtain dk' efs where rec: "recover_files crc ?files dk (en_index en) [] = Ok (dk', en_index en, [] @ efs)"
     "\<And>name. name \<notin> fst ` set ?files \<Longrightarrow> fmlookup (dk_extents dk') name = fmlookup (dk_extents dk) name"
     "\<And>e g. (extent_file_name e, g) \<in> set ?files \<Longrightarrow>
          extent_bytes dk' e = Some (take (committed_size v e) g) \<and> restored v e g \<in> set efs"
     "\<And>ef. ef \<in> set efs \<Longrightarrow> \<exists>e g. (extent_file_name e, g) \<in> set ?files \<and> ef = restored v e g"
    using recover_files_ok [OF rel dist found, of dk "[]"] by blast
  let ?en0 = "\<lparr>en_disk = dk', en_index = en_index en, en_broken = False, en_writers = fmempty\<rparr>"
  obtain ws where ws: "spawn_writers_for efs ?en0 = Ok (?en0\<lparr>en_writers := ws\<rparr>)"
    "\<And>x w. fmlookup ws x = Some w \<Longrightarrow> \<exists>ef \<in> set efs. ef_extent_id ef = x \<and> wt_offset w = ef_write_offset ef"
    "\<And>ef m. ef \<in> set efs \<Longrightarrow> iv_meta v (ef_extent_id ef) = Some m \<Longrightarrow> em_status m = Writable \<Longrightarrow>
       iv_bind v (shard_prefix (em_shard_id m)) = Some (ef_extent_id ef) \<Longrightarrow> fmlookup ws (ef_extent_id ef) \<noteq> None"
    using spawn_writers_for_ok [of ?en0 v efs] rel by auto
  let ?en = "?en0\<lparr>en_writers := ws\<rparr>"
  have run: "engine_open ord crc cluster root (en_index en) = Ok ?en"
    using load rec(1) ws(1) by (simp add: engine_open_def)
  have offs: "wt_offset w = committed_size v x" if w: "fmlookup ws x = Some w" for x w
  proof -
    obtain ef where ef: "ef \<in> set efs" "ef_extent_id ef = x" "wt_offset w = ef_write_offset ef" using ws(2) [OF w] by blast
    obtain e g where "ef = restored v e g" using rec(4) [OF ef(1)] by blast
    then show ?thesis using ef(2,3) by (simp add: restored_def)
  qed
  have ext: "ext_ok crc v ?en e \<and> (\<forall>b. serves crc v en v ?en e b)" for e
  proof (cases "iv_meta v e")
    case None
    have "ext_ok crc v en e" using inv by (simp add: engine_inv_def)
    then have blobs: "\<And>b. iv_blob v e b = None" using None by (simp add: ext_ok_def)
    have "extent_bytes dk e = None" using meta [of e] None by (cases "extent_bytes dk e") simp_all
    then have "(extent_file_name e, g) \<notin> set ?files" for g unfolding mem extent_bytes_def by simp
    then have "extent_file_name e \<notin> fst ` set ?files" by auto
    then have "extent_bytes dk' e = None" using rec(2) \<open>extent_bytes dk e = None\<close> by (simp add: extent_bytes_def)
    then have "ext_ok crc v ?en e" using None blobs by (simp add: ext_ok_def)
    moreover have "engine_body crc v en e b = None" "\<not> live_in v e b" for b
      by (simp_all add: engine_body_def stored_body_def live_in_def blobs split: option.split)
    ultimately show ?thesis by (simp add: serves_def)
  next
    case (Some m)
    obtain f g where f: "extent_bytes (en_disk en) e = Some f" "extent_bytes dk e = Some g" "ext_state crc v e f (cursor_of en e f)"
      "take (committed_size v e) g = take (committed_size v e) f" "committed_size v e \<le> length g" using onfile [OF Some] by blast
    have new: "extent_bytes dk' e = Some (take (committed_size v e) g)" using rec(3) mem f(2) by (simp add: extent_bytes_def)
    have cur: "cursor_of ?en e (take (committed_size v e) g) = committed_size v e"
      using f(5) offs by (simp add: cursor_of_def min_absorb2 split: option.split)
    have "ext_ok crc v ?en e" using take_entry(1) [OF f(3-5)] new cur Some by (simp add: ext_ok_def)
    moreover have "engine_body crc v ?en e b = engine_body crc v en e b" for b
      using take_entry(2) [OF f(3-5)] by (simp add: engine_body_def new f(1))
    ultimately show ?thesis by (simp add: serves_def)
  qed
  have "names_ok dk'"
    unfolding names_ok_def
  proof (intro allI impI)
    fix name f assume a: "fmlookup (dk_extents dk') name = Some f"
    show "\<exists>e. name = extent_file_name e"
    proof (cases "name \<in> fst ` set ?files")
      case True
      then obtain g where "(name, g) \<in> set ?files" by auto
      then show ?thesis using found by blast
    next
      case False
      then have "(name, f) \<in> set ?files" using rec(2) [OF False] a unfolding mem by simp
      then show ?thesis using False by (metis fst_conv image_eqI)
    qed
  qed
  then have keeps: "engine_keeps crc v en v ?en" using ext rel bind by (simp add: engine_keeps_def engine_inv_def)
  have "\<exists>w. fmlookup ws e = Some w \<and> wt_offset w = committed_size v e"
    if s: "iv_bind v (shard_prefix s) = Some e" "iv_meta v e = Some m" "em_status m = Writable" for s e m
  proof -
    obtain g where "extent_bytes dk e = Some g" using onfile [OF s(2)] by blast
    then have "restored v e g \<in> set efs" using rec(3) mem by (simp add: extent_bytes_def)
    moreover have "shard_prefix (em_shard_id m) = shard_prefix s" using bind s unfolding bind_ok_def by fastforce
    moreover have "ef_extent_id (restored v e g) = e" by (simp add: restored_def)
    ultimately have "fmlookup ws e \<noteq> None" using ws(3) [of "restored v e g" m] s by simp
    then show ?thesis using offs by blast
  qed
  then have "\<forall>s e m. iv_bind v (shard_prefix s) = Some e \<and> iv_meta v e = Some m \<and> em_status m = Writable \<longrightarrow>
      (\<exists>w. fmlookup (en_writers ?en) e = Some w \<and> wt_offset w = committed_size v e)" by simp blast
  then show ?thesis using run keeps by blast
qed

section \<open>The life of an engine\<close>

text \<open>The calls of the engine, the rounds of its writers and a crash with restart. The guards bound file
  offsets by 64 bits and let the clock not repeat an extent id.\<close>

datatype engine_act =
    ACreate shard_id i64
  | ACreateRebuilding shard_id i64
  | APromote extent_id
  | AEnqueue extent_id blob_id bytes nat
  | ARound extent_id
  | ASeal extent_id
  | ADelete extent_id blob_id
  | ACompact extent_id i64
  | AReclaimDropped
  | AReclaimOrphans
  | AShutdownWriter extent_id
  | ARestart

inductive engine_step :: "checksum \<Rightarrow> engine \<Rightarrow> engine_act \<Rightarrow> engine \<Rightarrow> bool" for crc where
  create: "create_extent_at crc s ts en = (r, en') \<Longrightarrow> engine_step crc en (ACreate s ts) en'"
| create_rebuilding: "create_rebuilding_extent crc s ts en = (r, en') \<Longrightarrow> engine_step crc en (ACreateRebuilding s ts) en'"
| promote: "promote_rebuilt e en = (r, en') \<Longrightarrow> engine_step crc en (APromote e) en'"
| enqueue: "enqueue_write e b body n en = (r, en') \<Longrightarrow> engine_step crc en (AEnqueue e b body n) en'"
| round: "queue_fits e en \<Longrightarrow> writer_round crc fl e en = (rs, en') \<Longrightarrow> engine_step crc en (ARound e) en'"
| seal: "queue_fits e en \<Longrightarrow> engine_seal_extent crc fl e en = (r, en') \<Longrightarrow> engine_step crc en (ASeal e) en'"
| delete: "engine_delete e b en = (r', en') \<Longrightarrow> engine_step crc en (ADelete e b) en'"
| compact: "compact_fits crc fl e ts en \<Longrightarrow> engine_compact crc fl e ts en = (r'', en') \<Longrightarrow> engine_step crc en (ACompact e ts) en'"
| reclaim_dropped: "reclaim_dropped_blocking en = (r3, en') \<Longrightarrow> engine_step crc en AReclaimDropped en'"
| reclaim_orphans: "reclaim_orphans_blocking en = (r3, en') \<Longrightarrow> engine_step crc en AReclaimOrphans en'"
| stop: "queue_fits e en \<Longrightarrow> stop_writer crc fl e en = (rs, en') \<Longrightarrow> engine_step crc en (AShutdownWriter e) en'"
| restart: "crash_image en root \<Longrightarrow> lists_all ord \<Longrightarrow> engine_open ord crc cluster root (en_index en) = Ok en' \<Longrightarrow>
    engine_step crc en ARestart en'"

inductive_cases engine_step_cases: "engine_step crc en a en'"

text \<open>A new engine: a formatted disk without extents and an empty index.\<close>

definition engine_new :: "checksum \<Rightarrow> superblock \<Rightarrow> engine" where
  "engine_new crc sb =
     \<lparr>en_disk = disk_format crc sb \<lparr>dr_superblock_file = None, dr_extents = fmempty, dr_trash = fmempty\<rparr>,
      en_index = fmempty, en_broken = False, en_writers = fmempty\<rparr>"

inductive engine_reach :: "checksum \<Rightarrow> engine \<Rightarrow> bool" for crc where
  new: "engine_reach crc (engine_new crc sb)"
| step: "engine_reach crc en \<Longrightarrow> engine_step crc en a en' \<Longrightarrow> engine_reach crc en'"

lemma engine_new_inv: "engine_inv crc empty_view (engine_new crc sb)"
proof -
  have "ext_ok crc empty_view (engine_new crc sb) e" for e
    by (simp add: ext_ok_def engine_new_def empty_view_def new_disk_free)
  then show ?thesis
    using index_rel_empty by (simp add: engine_inv_def engine_new_def bind_ok_def names_ok_def disk_format_def empty_view_def)
qed

text \<open>What a step does to the blobs of a shard: it keeps them, it moves the shard's live blobs to another
  extent, or it is one of the steps that may take a blob out of the shard.\<close>

definition touches :: "shard_id \<Rightarrow> blob_id \<Rightarrow> engine_act \<Rightarrow> engine \<Rightarrow> bool" where
  "touches s b a en =
     (case a of
        ACreate s' _ \<Rightarrow> shard_prefix s' = shard_prefix s
      | ACreateRebuilding s' _ \<Rightarrow> shard_prefix s' = shard_prefix s
      | ADelete e b' \<Rightarrow> b' = b \<and> shard_prefix (extent_shard_id e) = shard_prefix s
      | ACompact e _ \<Rightarrow> shard_prefix (extent_shard_id e) = shard_prefix s \<and> get_shard_binding (en_index en) s \<noteq> Ok (Some e)
      | _ \<Rightarrow> False)"

definition shard_holds :: "checksum \<Rightarrow> index_view \<Rightarrow> engine \<Rightarrow> shard_id \<Rightarrow> blob_id \<Rightarrow> bytes \<Rightarrow> bool" where
  "shard_holds crc v en s b body \<longleftrightarrow>
     (\<exists>e. iv_bind v (shard_prefix s) = Some e \<and> live_in v e b \<and> engine_body crc v en e b = Some body)"

lemma engine_keeps_holds:
  "engine_keeps crc v en v' en' \<Longrightarrow> shard_holds crc v en s b body \<Longrightarrow> shard_holds crc v' en' s b body"
  unfolding engine_keeps_def serves_def shard_holds_def by metis

lemma bound_serves_holds:
  assumes "iv_bind v' = iv_bind v" "\<And>p e b. iv_bind v p = Some e \<Longrightarrow> serves crc v en v' en' e b" "shard_holds crc v en s b body"
  shows "shard_holds crc v' en' s b body"
  using assms unfolding serves_def shard_holds_def by metis

lemma engine_moves_holds:
  assumes "engine_inv crc v en" "engine_moves crc v en e n v' en'" "shard_holds crc v en s b body"
    and "shard_prefix (extent_shard_id e) = shard_prefix s \<Longrightarrow> iv_bind v (shard_prefix s) = Some e"
  shows "shard_holds crc v' en' s b body"
proof -
  obtain x where x: "iv_bind v (shard_prefix s) = Some x" "live_in v x b" "engine_body crc v en x b = Some body"
    using assms(3) by (auto simp: shard_holds_def)
  show ?thesis
  proof (cases "shard_prefix (extent_shard_id e) = shard_prefix s")
    case True
    then have "x = e" using assms(4) x(1) by simp
    then show ?thesis using x assms(2) True by (auto simp: engine_moves_def shard_holds_def)
  next
    case False
    obtain m where m: "iv_meta v x = Some m" "shard_prefix (em_shard_id m) = shard_prefix s"
      using assms(1) x(1) unfolding engine_inv_def bind_ok_def by blast
    then have "em_shard_id m = extent_shard_id x" using engine_inv_ext [OF assms(1) m(1)] by (auto simp: ext_state_def)
    then have "x \<noteq> e" using m(2) False by auto
    then show ?thesis using x assms(2) False by (auto simp: engine_moves_def serves_def shard_holds_def)
  qed
qed

definition step_post :: "checksum \<Rightarrow> index_view \<Rightarrow> engine \<Rightarrow> engine_act \<Rightarrow> index_view \<Rightarrow> engine \<Rightarrow> bool" where
  "step_post crc v en a v' en' \<longleftrightarrow>
     engine_inv crc v' en'
     \<and> (\<forall>s b body. shard_holds crc v en s b body \<and> \<not> touches s b a en \<longrightarrow> shard_holds crc v' en' s b body)"

lemma step_post_keeps: "engine_keeps crc v en v' en' \<Longrightarrow> step_post crc v en a v' en'"
  using engine_keeps_holds by (auto simp: step_post_def engine_keeps_def)

lemma step_post_observe: "step_post crc v en a v' en' \<Longrightarrow> step_post crc v en a v' (observe r en')"
  by (simp add: step_post_def shard_holds_def)

lemma create_step:
  assumes "engine_inv crc v en" "status \<noteq> Dropped" "create_extent_with_status crc s ts status en = (r, en')"
    and "\<And>s' b. touches s' b a en \<longleftrightarrow> shard_prefix s = shard_prefix s'"
  shows "\<exists>v'. step_post crc v en a v' en'"
proof -
  obtain v' where v': "engine_inv crc v' en'"
    "if iv_meta v (extent_new s ts) = None
     then iv_bind v' = (iv_bind v)(shard_prefix s \<mapsto> extent_new s ts) \<and> iv_meta v' (extent_new s ts) = Some (fresh_meta (extent_new s ts) status ts)
       \<and> iv_blob v' = iv_blob v
     else v' = v \<and> en' = en" "\<And>x b. serves crc v en v' en' x b"
    using create_extent_inv [OF assms(1,2) refl assms(3)] by blast
  have "iv_bind v' (shard_prefix s') = iv_bind v (shard_prefix s')" if "shard_prefix s \<noteq> shard_prefix s'" for s'
    using v'(2) that by (simp split: if_splits)
  then show ?thesis
    using v'(1,3) assms(4) unfolding step_post_def shard_holds_def serves_def by metis
qed

lemma delete_step:
  assumes inv: "engine_inv crc v en" and run: "delete_blocking e b en = (r, en')"
  shows "\<exists>v'. step_post crc v en (ADelete e b) v' en'"
proof -
  define t where "t = (case iv_bind v (shard_prefix (extent_shard_id e)) of Some x \<Rightarrow> x | None \<Rightarrow> e)"
  have v': "engine_inv crc (view_tombstone t b v) en'" "en_disk en' = en_disk en"
    using delete_blocking_inv [OF inv run] by (auto simp: t_def)
  have "iv_meta v t \<noteq> None \<or> iv_blob v t b = None"
    using engine_inv_blob_meta [OF inv, of t b] by (cases "iv_blob v t b") auto
  note keep = tombstone_keeps [OF this v'(2)]
  have "shard_holds crc (view_tombstone t b v) en' s c body"
    if h: "shard_holds crc v en s c body" and n: "\<not> touches s c (ADelete e b) en" for s c body
  proof -
    obtain x where x: "iv_bind v (shard_prefix s) = Some x" "live_in v x c" "engine_body crc v en x c = Some body"
      using h by (auto simp: shard_holds_def)
    have "(x, c) \<noteq> (t, b)"
    proof
      assume eq: "(x, c) = (t, b)"
      then have ne: "shard_prefix (extent_shard_id e) \<noteq> shard_prefix s" using n by (simp add: touches_def)
      have pre: "shard_prefix (extent_shard_id y) = p" if y: "iv_bind v p = Some y" for p y
      proof -
        obtain m where m: "iv_meta v y = Some m" "shard_prefix (em_shard_id m) = p"
          using inv y unfolding engine_inv_def bind_ok_def by blast
        then show ?thesis using engine_inv_ext [OF inv m(1)] by (auto simp: ext_state_def)
      qed
      have "shard_prefix (extent_shard_id t) = shard_prefix (extent_shard_id e)"
        using pre by (auto simp: t_def split: option.splits)
      then show False using pre [OF x(1)] eq ne by simp
    qed
    then show ?thesis using x keep unfolding shard_holds_def by metis
  qed
  then show ?thesis using v'(1) unfolding step_post_def by blast
qed

lemma compact_step:
  assumes inv: "engine_inv crc v en" and "compact_fits crc fl e ts en" "compact_blocking crc fl e ts en = (r, en')"
  shows "\<exists>v'. step_post crc v en (ACompact e ts) v' en'"
proof -
  have rel: "index_rel (en_index en) v" using inv by (rule engine_inv_rel)
  from compact_blocking_inv [OF assms] show ?thesis
  proof (elim disjE exE conjE)
    fix out v' assume m: "engine_moves crc v en e (extent_new (extent_shard_id e) ts) v' en'"
    have "step_post crc v en (ACompact e ts) v' en'"
      unfolding step_post_def
    proof (intro conjI allI impI)
      show "engine_inv crc v' en'" using m by (simp add: engine_moves_def)
      fix s b body assume a: "shard_holds crc v en s b body \<and> \<not> touches s b (ACompact e ts) en"
      show "shard_holds crc v' en' s b body"
        using a rel by (intro engine_moves_holds [OF inv m]) (simp_all add: touches_def)
    qed
    then show ?thesis by blast
  qed (blast intro: step_post_keeps)
qed

lemma engine_step_inv:
  assumes step: "engine_step crc en a en'" and inv: "engine_inv crc v en"
  shows "\<exists>v'. step_post crc v en a v' en'"
  using step
proof cases
  case (create s ts r)
  obtain r1 en1 where c: "create_extent_with_status crc s ts Writable en = (r1, en1)" by (cases "create_extent_with_status crc s ts Writable en")
  then have "en' = observe (run_blocking r1) en1" using create(2) by (auto simp: create_extent_at_def Let_def)
  then show ?thesis using create_step [OF inv _ c, of a] step_post_observe create(1) by (fastforce simp: touches_def)
next
  case (create_rebuilding s ts r)
  obtain r1 en1 where c: "create_extent_with_status crc s ts Rebuilding en = (r1, en1)" by (cases "create_extent_with_status crc s ts Rebuilding en")
  then have "en' = observe (run_blocking r1) en1" using create_rebuilding(2) by (auto simp: create_rebuilding_extent_def Let_def)
  then show ?thesis using create_step [OF inv _ c, of a] step_post_observe create_rebuilding(1) by (fastforce simp: touches_def)
next
  case (promote e r)
  obtain r1 en1 where c: "promote_rebuilt_blocking e en = (r1, en1)" by (cases "promote_rebuilt_blocking e en")
  then have en': "en' = observe (run_blocking r1) en1" using promote(2) by (auto simp: promote_rebuilt_def Let_def)
  obtain v' where v': "engine_inv crc v' en1" "en_disk en1 = en_disk en" "iv_bind v' = iv_bind v" "iv_blob v' = iv_blob v"
    using promote_rebuilt_inv [OF inv c] by blast
  have "serves crc v en v' en1 x b" for x b using v' by (intro serves_frame) simp_all
  then have "engine_keeps crc v en v' en1" using v' by (simp add: engine_keeps_def)
  then show ?thesis using step_post_keeps step_post_observe en' by blast
next
  case (enqueue e b body n r)
  note q = enqueue_write_inv [OF inv enqueue(2)]
  have "serves crc v en v en' x b" for x b using q(2) by (intro serves_frame) simp_all
  then have "engine_keeps crc v en v en'" using q(1) by (simp add: engine_keeps_def)
  then show ?thesis using step_post_keeps by blast
next
  case (round e fl rs)
  then obtain v' where "engine_inv crc v' en'" "same_off e v v'" "\<forall>x b. serves crc v en v' en' x b"
    using writer_round_inv [OF inv] by blast
  then have "engine_keeps crc v en v' en'" by (simp add: engine_keeps_def same_off_def)
  then show ?thesis using step_post_keeps by blast
next
  case (seal e fl r)
  obtain r1 where "seal_extent_blocking crc fl e en = (r1, en')"
    using seal(3) by (auto simp: engine_seal_extent_def split: prod.splits)
  then obtain v' where "engine_keeps crc v en v' en'" using seal_extent_inv [OF inv seal(2)] unfolding engine_keeps_def by blast
  then show ?thesis using step_post_keeps by blast
next
  case (delete e b r')
  obtain r1 where "delete_blocking e b en = (r1, en')" using delete(2) by (auto simp: engine_delete_def split: prod.splits)
  then show ?thesis using delete_step [OF inv] delete(1) by blast
next
  case (compact fl e ts r'')
  obtain r1 where "compact_blocking crc fl e ts en = (r1, en')" using compact(3) by (auto simp: engine_compact_def split: prod.splits)
  then show ?thesis using compact_step [OF inv compact(2)] compact(1) by blast
next
  case (reclaim_dropped r3)
  then show ?thesis using reclaim_dropped_inv [OF inv] bound_serves_holds unfolding step_post_def by metis
next
  case (reclaim_orphans r3)
  then show ?thesis using reclaim_orphans_inv [OF inv] bound_serves_holds unfolding step_post_def by metis
next
  case (stop e fl rs)
  then obtain v' where "engine_inv crc v' en'" "same_off e v v'" "\<forall>x b. serves crc v en v' en' x b"
    using stop_writer_inv [OF inv] by blast
  then have "engine_keeps crc v en v' en'" by (simp add: engine_keeps_def same_off_def)
  then show ?thesis using step_post_keeps by blast
next
  case (restart root ord cluster)
  obtain dk where "disk_load crc cluster root = Ok dk"
    using restart(4) by (auto simp: engine_open_def result_simps)
  then have "engine_keeps crc v en v en'" using engine_open_inv [OF inv restart(2,3)] restart(4) by fastforce
  then show ?thesis using step_post_keeps by blast
qed

lemma engine_reach_inv: "engine_reach crc en \<Longrightarrow> \<exists>v. engine_inv crc v en"
proof (induction rule: engine_reach.induct)
  case (new sb)
  then show ?case using engine_new_inv by blast
next
  case (step en a en')
  then show ?case using engine_step_inv unfolding step_post_def by blast
qed

text \<open>Runs whose steps leave one blob of one shard alone.\<close>

inductive quiet_run :: "checksum \<Rightarrow> shard_id \<Rightarrow> blob_id \<Rightarrow> engine \<Rightarrow> engine \<Rightarrow> bool" for crc s b where
  refl: "quiet_run crc s b en en"
| step: "quiet_run crc s b en en1 \<Longrightarrow> engine_step crc en1 a en2 \<Longrightarrow> \<not> touches s b a en1 \<Longrightarrow> quiet_run crc s b en en2"

lemma quiet_run_holds:
  assumes "quiet_run crc s b en en'" "engine_inv crc v en" "shard_holds crc v en s b body"
  shows "\<exists>v'. engine_inv crc v' en' \<and> shard_holds crc v' en' s b body"
  using assms
proof (induction rule: quiet_run.induct)
  case (step en en1 a en2)
  then show ?case using engine_step_inv unfolding step_post_def by blast
qed blast

lemma shard_holds_read:
  "engine_inv crc v en \<Longrightarrow> shard_holds crc v en s b body \<Longrightarrow> read_shard crc s b en = Ok (Some body)"
  by (auto simp: read_shard_def run_blocking_def read_shard_blocking_ok shard_holds_def)

section \<open>Properties\<close>




section \<open>Witnesses\<close>

text \<open>A shard with one write in its writer's queue.\<close>

definition demo_extent :: extent_id where "demo_extent = extent_new (ShardId 0) 9"

definition demo_created :: engine where
  "demo_created = snd (create_extent_at (\<lambda>_. 0) (ShardId 0) 9 (engine_new (\<lambda>_. 0) (sample_superblock 1)))"

definition demo_queued :: engine where
  "demo_queued = snd (enqueue_write demo_extent (BlobId 3) [1, 2] 0 demo_created)"

lemma demo_reach: "engine_reach (\<lambda>_. 0) demo_created" "engine_reach (\<lambda>_. 0) demo_queued"
proof -
  show "engine_reach (\<lambda>_. 0) demo_created"
    unfolding demo_created_def by (rule engine_reach.step [OF engine_reach.new engine_step.create]) (rule prod.collapse [symmetric])
  then show "engine_reach (\<lambda>_. 0) demo_queued"
    unfolding demo_queued_def by (rule engine_reach.step [OF _ engine_step.enqueue]) (rule prod.collapse [symmetric])
qed

lemma demo_created_writers: "fmlookup (en_writers demo_created) demo_extent = Some \<lparr>wt_offset = EXTENT_HEADER_LEN, wt_queue = []\<rparr>"
  by (simp add: demo_created_def create_extent_at_def create_extent_with_status_def Let_def engine_new_def new_disk_free
      extent_create_new install_created_def spawn_writer_def demo_extent_def)

lemma demo_created_inv:
  "\<exists>v. engine_inv (\<lambda>_. 0) v demo_created \<and> iv_meta v demo_extent = Some (fresh_meta demo_extent Writable 9)
     \<and> iv_bind v (shard_prefix (ShardId 0)) = Some demo_extent \<and> (\<forall>b. iv_blob v demo_extent b = None)"
proof -
  let ?en = "engine_new (\<lambda>_. 0) (sample_superblock 1)"
  obtain r en' where c: "create_extent_with_status (\<lambda>_. 0) (ShardId 0) 9 Writable ?en = (r, en')"
    by (cases "create_extent_with_status (\<lambda>_. 0) (ShardId 0) 9 Writable ?en")
  obtain v where "engine_inv (\<lambda>_. 0) v en'" "iv_bind v = (iv_bind empty_view)(shard_prefix (ShardId 0) \<mapsto> demo_extent)"
    "iv_meta v demo_extent = Some (fresh_meta demo_extent Writable 9)" "iv_blob v = iv_blob empty_view"
    using create_extent_inv [OF engine_new_inv _ demo_extent_def c] by (auto simp: empty_view_def)
  moreover have dc: "demo_created = observe (run_blocking r) en'"
    by (simp add: demo_created_def create_extent_at_def c Let_def)
  ultimately show ?thesis unfolding dc by (intro exI [of _ v]) (simp add: empty_view_def)
qed

lemma demo_queued_facts:
  "fmlookup (en_writers demo_queued) demo_extent
     = Some \<lparr>wt_offset = EXTENT_HEADER_LEN, wt_queue = [\<lparr>wq_blob = BlobId 3, wq_body = [1, 2], wq_reply = 0\<rparr>]\<rparr>"
  "en_index demo_queued = en_index demo_created" "en_disk demo_queued = en_disk demo_created"
  by (simp_all add: demo_queued_def enqueue_write_def demo_created_writers)

lemma demo_fits: "queue_fits demo_extent demo_queued"
  by (simp add: queue_fits_def demo_queued_facts batch_space_def record_len_def body_of_record_def record_on_disk_len_def
      next_multiple_of_def div_ceil_def RECORD_HEADER_LEN_def RECORD_FOOTER_LEN_def RECORD_ALIGN_def EXTENT_HEADER_LEN_def)

text \<open>A single new blob on a healthy device is written.\<close>

lemma process_batch_single:
  assumes "index_rel d v" "ef_write_offset ef \<le> length (ef_file ef)" "length (wq_body req) < 2 ^ 32"
    and "ef_write_offset ef + record_len (wq_blob req, ShardId 0, wq_body req) < 2 ^ 64"
    and "iv_meta v (ef_extent_id ef) = Some m" "em_status m = Writable" "iv_blob v (ef_extent_id ef) (wq_blob req) = None"
  shows "fst (process_batch crc no_faults [req] d ef) = [(wq_reply req, Ok Written)]"
proof -
  let ?s = "extent_shard_id (ef_extent_id ef)"
  have sp: "ef_write_offset ef + record_len (wq_blob req, ?s, wq_body req) < 2 ^ 64"
    using assms(4) record_len_body [of "wq_blob req" ?s "wq_body req" "wq_blob req" "ShardId 0"] by simp
  have fits: "record_fits (wq_blob req, ?s, wq_body req)" using assms(3) by (simp add: record_fits_def body_of_record_def)
  have gate: "load_writable_meta d (ef_extent_id ef) = Ok ()" "get_blob d (ef_extent_id ef) (wq_blob req) = Ok None"
    using assms by (simp_all add: load_writable_meta_def writable_gate_def)
  show ?thesis
  proof (rule append_on_cases [OF assms(2,3) sp, of crc no_faults])
    fix e ef' assume "append_on crc no_faults (wq_blob req) ?s (wq_body req) ef = (Err e, ef')"
    then show ?thesis using append_record_at_cursor [OF fits assms(2)] by (simp add: append_on_def no_faults_def)
  next
    fix ef' assume "append_on crc no_faults (wq_blob req) ?s (wq_body req) ef = (Ok (ef_write_offset ef, crc (wq_body req)), ef')"
    then show ?thesis
      using gate assms(3) by (simp add: process_batch_def batch_request_def commit_group_def extent_sync_def no_faults_def Let_def)
  qed
qed

lemma demo_round: "(0, Ok Written) \<in> set (fst (writer_round (\<lambda>_. 0) no_faults demo_extent demo_queued))"
  "get_shard_binding (en_index (snd (writer_round (\<lambda>_. 0) no_faults demo_extent demo_queued))) (ShardId 0) = Ok (Some demo_extent)"
proof -
  let ?req = "\<lparr>wq_blob = BlobId 3, wq_body = [1, 2], wq_reply = 0\<rparr>"
  let ?w = "\<lparr>wt_offset = EXTENT_HEADER_LEN, wt_queue = [?req]\<rparr>"
  obtain v where v: "engine_inv (\<lambda>_. 0) v demo_created" "iv_meta v demo_extent = Some (fresh_meta demo_extent Writable 9)"
    "iv_bind v (shard_prefix (ShardId 0)) = Some demo_extent" "\<And>b. iv_blob v demo_extent b = None"
    using demo_created_inv by blast
  have v': "engine_inv (\<lambda>_. 0) v demo_queued"
    using enqueue_write_inv(1) [OF v(1), of demo_extent "BlobId 3" "[1, 2]" 0] by (metis demo_queued_def prod.collapse)
  obtain f where f: "ext_state (\<lambda>_. 0) v demo_extent f EXTENT_HEADER_LEN"
    "writer_file demo_queued demo_extent ?w = \<lparr>ef_file = f, ef_extent_id = demo_extent, ef_write_offset = EXTENT_HEADER_LEN\<rparr>"
    using writer_file_state [OF v' demo_queued_facts(1) v(2)] by auto
  have "EXTENT_HEADER_LEN + record_len (BlobId 3, ShardId 0, [1, 2]) < 2 ^ 64"
    using demo_fits by (simp add: queue_fits_def demo_queued_facts batch_space_def)
  then have "fst (process_batch (\<lambda>_. 0) no_faults [?req] (en_index demo_queued) (writer_file demo_queued demo_extent ?w)) = [(0, Ok Written)]"
    using f v(2,4) by (subst process_batch_single [OF engine_inv_rel [OF v'], where m = "fresh_meta demo_extent Writable 9"])
      (simp_all add: ext_state_def, simp add: fresh_meta_def)
  moreover have "take_batch [?req] = ([?req], [])" by simp
  ultimately show "(0, Ok Written) \<in> set (fst (writer_round (\<lambda>_. 0) no_faults demo_extent demo_queued))"
    by (auto simp: writer_round_def demo_queued_facts Let_def split: prod.splits)
  obtain rs en1 where r: "writer_round (\<lambda>_. 0) no_faults demo_extent demo_queued = (rs, en1)" by (metis prod.exhaust)
  obtain v1 where "engine_inv (\<lambda>_. 0) v1 en1" "same_off demo_extent v v1" using writer_round_inv [OF v' demo_fits r] by blast
  then show "get_shard_binding (en_index (snd (writer_round (\<lambda>_. 0) no_faults demo_extent demo_queued))) (ShardId 0) = Ok (Some demo_extent)"
    using v(3) r engine_inv_rel by (simp add: same_off_def) (metis get_shard_binding_rel v(3))
qed

text \<open>A crash that leaves the files as they are.\<close>

definition demo_root :: disk_root where
  "demo_root = \<lparr>dr_superblock_file = dk_superblock_file (en_disk demo_created), dr_extents = dk_extents (en_disk demo_created),
     dr_trash = fmempty\<rparr>"

lemma demo_crash: "crash_image demo_created demo_root"
proof -
  have "\<exists>rest. fmlookup (dr_extents demo_root) (extent_file_name e) = Some (take n f @ rest)"
    if "extent_bytes (en_disk demo_created) e = Some f" for e f n
    using that by (intro exI [of _ "drop n f"]) (simp add: demo_root_def extent_bytes_def)
  then show ?thesis by (simp add: crash_image_def demo_root_def)
qed

lemma demo_load: "\<exists>dk. disk_load (\<lambda>_. 0) 1 demo_root = Ok dk"
proof -
  have "dk_superblock_file (en_disk demo_created) = Some (write_superblock (\<lambda>_. 0) (sample_superblock 1) None)"
    by (simp add: demo_created_def create_extent_at_def create_extent_with_status_def Let_def engine_new_def new_disk_free
        extent_create_new install_created_def spawn_writer_def put_extent_bytes_def)
      (simp add: disk_format_def)
  then show ?thesis by (simp add: disk_load_def demo_root_def read_written_superblock sample_superblock_def)
qed


text \<open>A file without metadata, as a crash between the creation of a compaction's destination and the
  installation of its metadata leaves it, is bound to its shard by recovery, although it is empty and
  the shard is bound to an extent with blobs.\<close>

theorem recovery_rebinds_unindexed_file:
  assumes "index_rel d v" "iv_meta v n = None" "iv_bind v (shard_prefix (extent_shard_id n)) = Some e" "\<And>b. iv_blob v n b = None"
  shows "\<exists>d' ef. recover_extent crc d \<lparr>ef_file = extent_header_encode crc n, ef_extent_id = n, ef_write_offset = EXTENT_HEADER_LEN\<rparr> = Ok (d', ef)
     \<and> get_shard_binding d' (extent_shard_id n) = Ok (Some n) \<and> (\<forall>b. get_blob d' n b = Ok None)"
proof -
  let ?ef = "\<lparr>ef_file = extent_header_encode crc n, ef_extent_id = n, ef_write_offset = EXTENT_HEADER_LEN\<rparr>"
  let ?m = "\<lparr>em_shard_id = extent_shard_id n, em_status = Writable, em_size = of_nat EXTENT_HEADER_LEN, em_deleted_bytes = 0,
     em_create_ts = extent_create_ts n\<rparr>"
  have len: "length (extent_header_encode crc n) = EXTENT_HEADER_LEN" by (rule extent_header.enc_length)
  then have "scan crc ?ef = Ok \<lparr>rc_records = [], rc_valid_end = EXTENT_HEADER_LEN, rc_truncated = False\<rparr>"
    by (simp add: scan_def scan_loop.simps RECORD_HEADER_LEN_def)
  then have run: "recover_extent crc d ?ef = Ok (install_extent n ?m [] d, ?ef)"
    using assms(1,2) by (simp add: recover_extent_def)
  have "index_rel (install_extent n ?m [] d) (view_bind (extent_shard_id n) n (view_put_meta n ?m v))"
    using install_extent_rel [OF assms(1), of n ?m "[]"] by simp
  then show ?thesis using run assms(4) by (auto simp: view_bind_def view_put_meta_def)
qed



end
