(* ===== verification/Store_Qos.thy ===== *)
theory Store_Qos
  imports Store_Compact
begin

text \<open>
  The rate limiter of \<open>crates/epoch-store/src/qos.rs\<close> and the cache of read handles of \<open>io_pool.rs\<close>.
  An \<open>Instant\<close> is a number of nanoseconds, a \<open>Duration\<close> too; the clock is an argument of the calls.
  A read handle is whatever opening a file returns; opening is an argument of the cache.
\<close>

section \<open>Token buckets\<close>

datatype io_class = Foreground | Background | Repair

record qos_config =
  foreground_rate :: u64
  background_rate :: u64
  repair_rate :: u64
  burst :: u64

record rate_limiter =
  rate_per_sec :: u64
  capacity :: u64
  tokens :: u64
  last_refill :: nat

definition rate_limiter_new :: "u64 \<Rightarrow> u64 \<Rightarrow> nat \<Rightarrow> rate_limiter" where
  "rate_limiter_new rate cap now = \<lparr>rate_per_sec = rate, capacity = cap, tokens = cap, last_refill = now\<rparr>"

text \<open>A 128-bit intermediate clamped to 64 bits.\<close>

definition clamp_u64 :: "nat \<Rightarrow> u64" where
  "clamp_u64 n = (if n < 2 ^ 64 then of_nat n else - 1)"

definition refill :: "nat \<Rightarrow> rate_limiter \<Rightarrow> rate_limiter" where
  "refill now rl =
     (let elapsed = now - last_refill rl in
      if elapsed = 0 then rl
      else
        let added = clamp_u64 (unat (rate_per_sec rl) * elapsed div 1000000000)
        in rl\<lparr>last_refill := now, tokens := min (saturating_add (tokens rl) added) (capacity rl)\<rparr>)"

definition reserve :: "u64 \<Rightarrow> nat \<Rightarrow> rate_limiter \<Rightarrow> nat \<times> rate_limiter" where
  "reserve cost now rl =
     (if rate_per_sec rl = 0 then (0, rl)
      else
        let rl1 = refill now rl in
        if cost \<le> tokens rl1 then (0, rl1\<lparr>tokens := tokens rl1 - cost\<rparr>)
        else
          let deficit = cost - tokens rl1;
              nanos = unat deficit * 1000000000 div unat (rate_per_sec rl1)
          in (unat (clamp_u64 nanos), rl1\<lparr>tokens := 0\<rparr>))"

text \<open>The blocking wrapper: the time at which the caller goes on.\<close>

definition throttle :: "u64 \<Rightarrow> nat \<Rightarrow> rate_limiter \<Rightarrow> nat \<times> rate_limiter" where
  "throttle cost now rl = (let (wait, rl') = reserve cost now rl in (now + wait, rl'))"

record qos =
  q_foreground :: rate_limiter
  q_background :: rate_limiter
  q_repair :: rate_limiter

definition qos_new :: "qos_config \<Rightarrow> nat \<Rightarrow> qos" where
  "qos_new cfg now =
     \<lparr>q_foreground = rate_limiter_new (foreground_rate cfg) (burst cfg) now,
      q_background = rate_limiter_new (background_rate cfg) (burst cfg) now,
      q_repair = rate_limiter_new (repair_rate cfg) (burst cfg) now\<rparr>"

definition limiter :: "io_class \<Rightarrow> qos \<Rightarrow> rate_limiter" where
  "limiter c q = (case c of Foreground \<Rightarrow> q_foreground q | Background \<Rightarrow> q_background q | Repair \<Rightarrow> q_repair q)"

section \<open>The handle cache\<close>

record 'h pool_entry =
  pe_file :: 'h
  last_used :: u64

record 'h fd_pool =
  fp_capacity :: nat
  handles :: "(extent_id, 'h pool_entry) kv"
  tick :: u64

text \<open>A zero capacity panics.\<close>

definition fd_pool_new :: "nat \<Rightarrow> 'h fd_pool option" where
  "fd_pool_new cap = (if 0 < cap then Some \<lparr>fp_capacity = cap, handles = fmempty, tick = 0\<rparr> else None)"

definition next_tick :: "'h fd_pool \<Rightarrow> u64 \<times> 'h fd_pool" where
  "next_tick p = (let p' = p\<lparr>tick := tick p + 1\<rparr> in (tick p', p'))"

definition touch :: "extent_id \<Rightarrow> 'h fd_pool \<Rightarrow> 'h option \<times> 'h fd_pool" where
  "touch e p =
     (let (t, p1) = next_tick p in
      case fmlookup (handles p1) e of
        None \<Rightarrow> (None, p1)
      | Some entry \<Rightarrow> (Some (pe_file entry), p1\<lparr>handles := fmupd e (entry\<lparr>last_used := t\<rparr>) (handles p1)\<rparr>))"

text \<open>The first entry with the smallest key; the order of the map does not matter as long as the stamps
  differ.\<close>

fun min_by_key :: "('a \<Rightarrow> 'b::linorder) \<Rightarrow> 'a list \<Rightarrow> 'a option" where
  "min_by_key f [] = None"
| "min_by_key f (x # xs) =
     (case min_by_key f xs of None \<Rightarrow> Some x | Some y \<Rightarrow> if f x \<le> f y then Some x else Some y)"

definition evict_lru :: "'h fd_pool \<Rightarrow> 'h fd_pool" where
  "evict_lru p =
     (case min_by_key (\<lambda>(_, entry). last_used entry) (kv_entries (handles p)) of
        None \<Rightarrow> p
      | Some (e, _) \<Rightarrow> p\<lparr>handles := fmdrop e (handles p)\<rparr>)"

definition pool_insert :: "extent_id \<Rightarrow> 'h \<Rightarrow> 'h fd_pool \<Rightarrow> 'h fd_pool" where
  "pool_insert e file p =
     (let (t, p1) = next_tick p;
          p2 = p1\<lparr>handles := fmupd e \<lparr>pe_file = file, last_used = t\<rparr> (handles p1)\<rparr>
      in if fp_capacity p2 < fcard (fmdom (handles p2)) then evict_lru p2 else p2)"

definition get_or_open ::
    "(extent_id \<Rightarrow> (store_error, 'h) result) \<Rightarrow> extent_id \<Rightarrow> 'h fd_pool \<Rightarrow> (store_error, 'h) result \<times> 'h fd_pool" where
  "get_or_open opn e p =
     (case touch e p of
        (Some file, p1) \<Rightarrow> (Ok file, p1)
      | (None, p1) \<Rightarrow>
          (case opn e of
             Err err \<Rightarrow> (Err err, p1)
           | Ok file \<Rightarrow> (Ok file, pool_insert e file p1)))"

definition evict :: "extent_id \<Rightarrow> 'h fd_pool \<Rightarrow> 'h fd_pool" where
  "evict e p = p\<lparr>handles := fmdrop e (handles p)\<rparr>"

section \<open>The rate a bucket grants\<close>

lemma unat_clamp_u64: "unat (clamp_u64 n) = min n (2 ^ 64 - 1)"
  by (simp add: clamp_u64_def unsigned_of_nat take_bit_nat_eq_self min_def unsigned_minus_1_eq_mask mask_eq_exp_minus_1)

lemma refill_tokens:
  "unat (tokens (refill now rl)) * 1000000000 \<le> unat (tokens rl) * 1000000000 + unat (rate_per_sec rl) * (now - last_refill rl)"
  "rate_per_sec (refill now rl) = rate_per_sec rl" "last_refill (refill now rl) = max now (last_refill rl)"
proof -
  let ?n = "unat (rate_per_sec rl) * (now - last_refill rl) div 1000000000"
  have "unat (min (saturating_add (tokens rl) (clamp_u64 ?n)) (capacity rl)) \<le> unat (tokens rl) + ?n"
    by (simp add: min_def unat_saturating_add unat_clamp_u64 word_le_nat_alt)
  moreover have "?n * 1000000000 \<le> unat (rate_per_sec rl) * (now - last_refill rl)" by simp
  ultimately have "unat (min (saturating_add (tokens rl) (clamp_u64 ?n)) (capacity rl)) * 1000000000
      \<le> unat (tokens rl) * 1000000000 + unat (rate_per_sec rl) * (now - last_refill rl)" by linarith
  then show "unat (tokens (refill now rl)) * 1000000000 \<le> unat (tokens rl) * 1000000000 + unat (rate_per_sec rl) * (now - last_refill rl)"
    by (simp add: refill_def Let_def)
  show "rate_per_sec (refill now rl) = rate_per_sec rl" "last_refill (refill now rl) = max now (last_refill rl)"
    by (simp_all add: refill_def Let_def)
qed

lemma deficit_wait:
  fixes d r :: nat
  assumes "0 < r"
  shows "d * 1000000000 \<le> (d * 1000000000 div r + 1) * r"
proof -
  have "d * 1000000000 = d * 1000000000 div r * r + d * 1000000000 mod r" by (rule div_mult_mod_eq [symmetric])
  also have "\<dots> \<le> d * 1000000000 div r * r + r" using mod_less_divisor [OF assms] by (intro add_left_mono less_imp_le)
  finally show ?thesis by simp
qed

lemma reserve_balance:
  assumes "rate_per_sec rl \<noteq> 0" and "unat cost * 1000000000 div unat (rate_per_sec rl) < 2 ^ 64"
    and "reserve cost now rl = (wait, rl')"
  shows "(unat cost + unat (tokens rl')) * 1000000000
           \<le> unat (tokens rl) * 1000000000 + unat (rate_per_sec rl) * (now - last_refill rl) + (wait + 1) * unat (rate_per_sec rl)"
    and "rate_per_sec rl' = rate_per_sec rl" "last_refill rl' = max now (last_refill rl)"
proof -
  let ?r = "unat (rate_per_sec rl)" and ?rl = "refill now rl"
  have r: "0 < ?r" using assms(1) by (simp add: unat_gt_0)
  note f = refill_tokens [of now rl]
  consider "cost \<le> tokens ?rl" "wait = 0" "rl' = ?rl\<lparr>tokens := tokens ?rl - cost\<rparr>"
    | "tokens ?rl < cost" "wait = unat (clamp_u64 (unat (cost - tokens ?rl) * 1000000000 div ?r))" "rl' = ?rl\<lparr>tokens := 0\<rparr>"
    using assms(1,3) f(2) by (auto simp: reserve_def Let_def not_le split: if_splits)
  then show "(unat cost + unat (tokens rl')) * 1000000000
           \<le> unat (tokens rl) * 1000000000 + ?r * (now - last_refill rl) + (wait + 1) * ?r"
  proof cases
    case 1
    then have "unat cost + unat (tokens rl') = unat (tokens ?rl)" by (simp add: unat_sub word_le_nat_alt)
    then show ?thesis using f(1) trans_le_add1 by metis
  next
    case 2
    let ?d = "unat (cost - tokens ?rl)"
    have d: "?d + unat (tokens ?rl) = unat cost" using 2(1) by (simp add: unat_sub word_less_nat_alt word_le_nat_alt)
    have "?d * 1000000000 div ?r \<le> unat cost * 1000000000 div ?r" using d by (intro div_le_mono mult_right_mono) simp_all
    then have "wait = ?d * 1000000000 div ?r" using assms(2) 2(2) by (simp add: unat_clamp_u64)
    then have "?d * 1000000000 \<le> (wait + 1) * ?r" using deficit_wait [OF r, of ?d] by simp
    then show ?thesis using f(1) d 2(3) by (simp add: algebra_simps)
  qed
  show "rate_per_sec rl' = rate_per_sec rl" "last_refill rl' = max now (last_refill rl)"
    using assms(1,3) f(2,3) by (auto simp: reserve_def Let_def split: if_splits)
qed

text \<open>One caller that throttles a list of costs: the time it has waited for each before it starts the next,
  plus whatever time the work in between takes.\<close>

fun throttle_all :: "(u64 \<times> nat) list \<Rightarrow> nat \<Rightarrow> rate_limiter \<Rightarrow> nat \<times> rate_limiter" where
  "throttle_all [] now rl = (now, rl)"
| "throttle_all ((cost, work) # reqs) now rl =
     (let (t, rl') = throttle cost now rl in throttle_all reqs (t + work) rl')"

lemma throttle_all_balance:
  assumes "rate_per_sec rl \<noteq> 0" "\<forall>(cost, _) \<in> set reqs. unat cost * 1000000000 div unat (rate_per_sec rl) < 2 ^ 64"
    and "last_refill rl \<le> now" "throttle_all reqs now rl = (t, rl')"
  shows "now \<le> t \<and> (\<Sum>(cost, _) \<leftarrow> reqs. unat cost) * 1000000000
     \<le> unat (tokens rl) * 1000000000 + unat (rate_per_sec rl) * ((t - last_refill rl) + (t - now) + length reqs)"
  using assms
proof (induction reqs arbitrary: now rl)
  case (Cons p reqs)
  obtain cost work where p: "p = (cost, work)" by (cases p)
  obtain wait rl1 where rs: "reserve cost now rl = (wait, rl1)" by (cases "reserve cost now rl")
  let ?r = "unat (rate_per_sec rl)" and ?now = "now + wait + work"
  have small: "unat cost * 1000000000 div ?r < 2 ^ 64" using Cons.prems(2) p by auto
  note b = reserve_balance [OF Cons.prems(1) small rs]
  have last: "last_refill rl1 = now" using b(3) Cons.prems(3) by simp
  have run: "throttle_all reqs ?now rl1 = (t, rl')" using Cons.prems(4) by (simp add: p throttle_def rs)
  have ih: "?now \<le> t" "(\<Sum>(cost, _) \<leftarrow> reqs. unat cost) * 1000000000
     \<le> unat (tokens rl1) * 1000000000 + ?r * ((t - now) + (t - ?now) + length reqs)"
    using Cons.IH [OF _ _ _ run] Cons.prems(1,2) b(2) last by (auto simp: p)
  let ?c = "(\<Sum>(cost, _) \<leftarrow> reqs. unat cost)"
  have "(unat cost + ?c) * 1000000000
      \<le> unat (tokens rl) * 1000000000 + ?r * (now - last_refill rl) + (wait + 1) * ?r + ?r * ((t - now) + (t - ?now) + length reqs)"
    using b(1) ih(2) by (simp add: algebra_simps)
  also have "\<dots> = unat (tokens rl) * 1000000000 + ?r * ((now - last_refill rl) + (wait + 1) + ((t - now) + (t - ?now) + length reqs))"
    by (simp add: algebra_simps)
  also have "\<dots> \<le> unat (tokens rl) * 1000000000 + ?r * ((t - last_refill rl) + (t - now) + Suc (length reqs))"
    using ih(1) Cons.prems(3) by (intro add_left_mono mult_left_mono) simp_all
  finally show ?case using ih(1) by (simp add: p)
qed simp

text \<open>A bucket whose waiter has slept off its deficit grants the bytes of that sleep a second time: at
  1000 bytes a second an empty bucket lets 1000 bytes pass within half a second.\<close>

lemma throttle_grants_sleep_again:
  "throttle_all [(500, 0), (500, 0)] 0 \<lparr>rate_per_sec = 1000, capacity = 1000, tokens = 0, last_refill = 0\<rparr>
     = (500000000, \<lparr>rate_per_sec = 1000, capacity = 1000, tokens = 0, last_refill = 500000000\<rparr>)"
  by (simp add: throttle_def reserve_def refill_def clamp_u64_def saturating_add_def Let_def)

section \<open>The handle cache evicts the least recently used\<close>

text \<open>A list of extent ids, most recently used first, stands for a pool.\<close>

definition stamp :: "'h fd_pool \<Rightarrow> extent_id \<Rightarrow> nat" where
  "stamp p e = (case fmlookup (handles p) e of None \<Rightarrow> 0 | Some entry \<Rightarrow> unat (last_used entry))"

definition recency :: "'h fd_pool \<Rightarrow> extent_id list \<Rightarrow> bool" where
  "recency p es \<longleftrightarrow> set es = fmdom' (handles p) \<and> sorted_wrt (\<lambda>a b. stamp p b < stamp p a) es
     \<and> (\<forall>e \<in> set es. stamp p e \<le> unat (tick p)) \<and> length es \<le> fp_capacity p"

lemma recency_distinct: "recency p es \<Longrightarrow> distinct es"
proof -
  have "sorted_wrt (\<lambda>a b. f b < (f a :: nat)) xs \<Longrightarrow> distinct xs" for f :: "extent_id \<Rightarrow> nat" and xs
    by (induction xs) auto
  then show "recency p es \<Longrightarrow> distinct es" by (auto simp: recency_def)
qed

lemma recency_lookup: "recency p es \<Longrightarrow> (fmlookup (handles p) e = None) = (e \<notin> set es)"
  by (auto simp: recency_def fmlookup_dom'_iff)

lemma min_by_key_least: "min_by_key f xs = Some y \<Longrightarrow> y \<in> set xs \<and> (\<forall>x \<in> set xs. f y \<le> f x)"
proof (induction xs arbitrary: y)
  case (Cons a xs)
  show ?case
  proof (cases "min_by_key f xs")
    case None
    then have "xs = []" by (cases xs) (auto split: option.splits if_splits)
    then show ?thesis using Cons.prems by simp
  next
    case (Some b)
    then show ?thesis using Cons.IH [OF Some] Cons.prems by (auto split: if_splits intro: order_trans)
  qed
qed simp

lemma min_by_key_None [simp]: "min_by_key f xs = None \<longleftrightarrow> xs = []"
  by (cases xs) (auto split: option.splits)

lemma next_tick_recency:
  assumes "recency p es" "unat (tick p) + 1 < 2 ^ 64"
  shows "recency (snd (next_tick p)) es" "fst (next_tick p) = tick p + 1" "unat (tick p + 1) = unat (tick p) + 1"
    "snd (next_tick p) = p\<lparr>tick := tick p + 1\<rparr>"
proof -
  show t: "unat (tick p + 1) = unat (tick p) + 1" using assms(2) by (simp add: unat_add_lem [THEN iffD1])
  have "stamp (snd (next_tick p)) = stamp p" by (rule ext) (simp add: next_tick_def stamp_def)
  then show "recency (snd (next_tick p)) es" using assms(1) t by (auto simp: recency_def next_tick_def le_SucI)
qed (simp_all add: next_tick_def)

text \<open>Stamping an entry with a fresh tick moves it to the front.\<close>

lemma recency_front:
  assumes "recency p es" "unat t = unat (tick p) + 1" "p' = p\<lparr>tick := t, handles := fmupd e entry (handles p)\<rparr>"
    "last_used entry = t" "length (e # remove1 e es) \<le> fp_capacity p"
  shows "recency p' (e # remove1 e es)"
proof -
  have d: "distinct es" using assms(1) by (rule recency_distinct)
  have st: "stamp p' x = (if x = e then unat t else stamp p x)" for x using assms(3,4) by (simp add: stamp_def)
  have srt: "sorted_wrt (\<lambda>a b. stamp p b < stamp p a) (remove1 e es)"
    using assms(1) d by (simp add: recency_def distinct_remove1_removeAll removeAll_filter_not_eq sorted_wrt_filter)
  have "sorted_wrt (\<lambda>a b. stamp p' b < stamp p' a) (remove1 e es)"
    by (rule sorted_wrt_mono_rel [OF _ srt]) (use d in \<open>auto simp: st\<close>)
  moreover have lt: "stamp p' x < unat t" if "x \<in> set (remove1 e es)" for x
    using that assms(1,2) d by (fastforce simp: recency_def st)
  ultimately have "sorted_wrt (\<lambda>a b. stamp p' b < stamp p' a) (e # remove1 e es)" by (simp add: st)
  moreover have "\<forall>x \<in> set (e # remove1 e es). stamp p' x \<le> unat (tick p')"
    using lt st [of e] assms(3) by (simp add: less_imp_le)
  moreover have "set (e # remove1 e es) = fmdom' (handles p')"
    using assms(1,3) d by (auto simp: recency_def fmdom'_fmupd)
  moreover have "length (e # remove1 e es) \<le> fp_capacity p'" using assms(3,5) by simp
  ultimately show ?thesis unfolding recency_def by blast
qed

lemma touch_recency:
  assumes "recency p es" "unat (tick p) + 1 < 2 ^ 64" "touch e p = (r, p')"
  shows "if e \<in> set es then r = map_option pe_file (fmlookup (handles p) e) \<and> recency p' (e # remove1 e es)
         else r = None \<and> recency p' es \<and> p' = p\<lparr>tick := tick p + 1\<rparr>"
proof (cases "fmlookup (handles p) e")
  case None
  then show ?thesis using assms next_tick_recency [OF assms(1,2)] recency_lookup [OF assms(1), of e]
    by (auto simp: touch_def next_tick_def)
next
  case (Some entry)
  have e: "e \<in> set es" using Some recency_lookup [OF assms(1), of e] by simp
  have "length (e # remove1 e es) = length es" using e length_pos_if_in_set [OF e] by (simp add: length_remove1)
  then show ?thesis using e assms Some
    by (auto simp: touch_def next_tick_def recency_def [of p]
      intro!: recency_front [OF assms(1) next_tick_recency(3) [OF assms(1,2)]])
qed

lemma evict_lru_recency:
  assumes "recency (p\<lparr>fp_capacity := Suc n\<rparr>) es" "length es = Suc n"
  shows "recency ((evict_lru p)\<lparr>fp_capacity := n\<rparr>) (butlast es)" "fp_capacity (evict_lru p) = fp_capacity p"
    "tick (evict_lru p) = tick p"
proof -
  obtain xs z where es: "es = xs @ [z]" using assms(2) by (cases es rule: rev_cases) auto
  have dom: "set (kv_entries (handles p)) = {(k, v). fmlookup (handles p) k = Some v}" by (auto simp: set_kv_entries)
  have dm: "fmdom' (handles p) = set es" and srt: "sorted_wrt (\<lambda>a b. stamp p b < stamp p a) es"
    and tk: "\<forall>e \<in> set es. stamp p e \<le> unat (tick p)"
    using assms(1) by (auto simp: recency_def stamp_def)
  have lz: "fmlookup (handles p) z \<noteq> None" using dm es by (metis fmdom'_notI in_set_conv_decomp)
  then have "min_by_key (\<lambda>(_, entry). last_used entry) (kv_entries (handles p)) \<noteq> None" using dom by auto
  then obtain y entry where m: "min_by_key (\<lambda>(_, entry). last_used entry) (kv_entries (handles p)) = Some (y, entry)"
    by (metis option.exhaust surj_pair)
  have y: "fmlookup (handles p) y = Some entry" and least: "stamp p y \<le> stamp p z"
    using min_by_key_least [OF m] dom lz by (auto simp: stamp_def word_le_nat_alt)
  have "y \<in> set es" using y dm by (metis fmdom'I)
  then have yz: "y = z" using least srt by (auto simp: es sorted_wrt_append)
  have ev: "evict_lru p = p\<lparr>handles := fmdrop z (handles p)\<rparr>" by (simp add: evict_lru_def m yz)
  have nz: "z \<notin> set xs" using srt by (auto simp: es sorted_wrt_append)
  have st: "stamp (evict_lru p\<lparr>fp_capacity := n\<rparr>) x = stamp p x" if "x \<in> set xs" for x
    using that nz by (auto simp: ev stamp_def)
  have "sorted_wrt (\<lambda>a b. stamp p b < stamp p a) xs" using srt by (simp add: es sorted_wrt_append)
  then have "sorted_wrt (\<lambda>a b. stamp (evict_lru p\<lparr>fp_capacity := n\<rparr>) b < stamp (evict_lru p\<lparr>fp_capacity := n\<rparr>) a) xs"
    by (rule sorted_wrt_mono_rel [rotated]) (simp add: st)
  then show "recency (evict_lru p\<lparr>fp_capacity := n\<rparr>) (butlast es)"
    using dm nz tk assms(2) st by (auto simp: recency_def es ev)
qed (auto simp: evict_lru_def split: option.splits)

lemma recency_capacity: "recency p es \<Longrightarrow> length es \<le> c \<Longrightarrow> recency (p\<lparr>fp_capacity := c\<rparr>) es"
proof -
  have "stamp (p\<lparr>fp_capacity := c\<rparr>) = stamp p" by (rule ext) (simp add: stamp_def)
  then show "recency p es \<Longrightarrow> length es \<le> c \<Longrightarrow> recency (p\<lparr>fp_capacity := c\<rparr>) es" by (simp add: recency_def)
qed

lemma pool_insert_recency:
  assumes "recency p es" "unat (tick p) + 1 < 2 ^ 64" "e \<notin> set es"
  shows "recency (pool_insert e h p) (take (fp_capacity p) (e # es))" "fp_capacity (pool_insert e h p) = fp_capacity p"
proof -
  let ?p2 = "p\<lparr>tick := tick p + 1, handles := fmupd e \<lparr>pe_file = h, last_used = tick p + 1\<rparr> (handles p)\<rparr>"
  let ?q = "p\<lparr>fp_capacity := Suc (fp_capacity p)\<rparr>"
  have q: "recency ?q es" using assms(1) by (auto simp: recency_def stamp_def)
  have pq: "?p2\<lparr>fp_capacity := Suc (fp_capacity p)\<rparr>
      = ?q\<lparr>tick := tick p + 1, handles := fmupd e \<lparr>pe_file = h, last_used = tick p + 1\<rparr> (handles p)\<rparr>" by (cases p) simp
  have f: "recency (?p2\<lparr>fp_capacity := Suc (fp_capacity p)\<rparr>) (e # es)"
    using recency_front [OF q, of "tick p + 1" _ e "\<lparr>pe_file = h, last_used = tick p + 1\<rparr>"] assms(1,3)
      next_tick_recency(3) [OF assms(1,2)]
    unfolding pq by (simp add: remove1_idem recency_def [of p])
  have card: "fcard (fmdom (handles ?p2)) = length (e # es)"
  proof -
    have "fset (fmdom (handles ?p2)) = set (e # es)" using f by (simp add: recency_def fmdom'_alt_def)
    then have "fcard (fmdom (handles ?p2)) = card (set (e # es))" by (simp add: fcard.rep_eq)
    also have "\<dots> = length (e # es)" using recency_distinct [OF f] by (rule distinct_card)
    finally show ?thesis .
  qed
  have ins: "pool_insert e h p = (if fp_capacity p < length (e # es) then evict_lru ?p2 else ?p2)"
    using card by (simp add: pool_insert_def next_tick_def Let_def)
  have len: "length es \<le> fp_capacity p" using assms(1) by (simp add: recency_def)
  show "fp_capacity (pool_insert e h p) = fp_capacity p"
    by (simp add: ins evict_lru_def split: option.split)
  show "recency (pool_insert e h p) (take (fp_capacity p) (e # es))"
  proof (cases "fp_capacity p < length (e # es)")
    case True
    then have n: "length (e # es) = Suc (fp_capacity p)" using len by simp
    have "take (fp_capacity p) (e # es) = butlast (e # es)" using n by (simp only: butlast_conv_take) simp
    moreover have "(evict_lru ?p2)\<lparr>fp_capacity := fp_capacity p\<rparr> = evict_lru ?p2"
      by (simp add: evict_lru_def split: option.split)
    ultimately show ?thesis using evict_lru_recency(1) [OF f n] True by (simp add: ins)
  next
    case False
    then have "take (fp_capacity p) (e # es) = e # es" by simp
    moreover have "recency ?p2 (e # es)" using recency_capacity [OF f, of "fp_capacity p"] False by simp
    ultimately show ?thesis using False by (simp add: ins)
  qed
qed

lemma evict_recency:
  assumes "recency p es"
  shows "recency (evict e p) (remove1 e es)"
proof -
  have d: "distinct es" using assms by (rule recency_distinct)
  have st: "x \<noteq> e \<Longrightarrow> stamp (evict e p) x = stamp p x" for x by (simp add: evict_def stamp_def)
  have "sorted_wrt (\<lambda>a b. stamp p b < stamp p a) (remove1 e es)"
    using assms d by (simp add: recency_def distinct_remove1_removeAll removeAll_filter_not_eq sorted_wrt_filter)
  then have "sorted_wrt (\<lambda>a b. stamp (evict e p) b < stamp (evict e p) a) (remove1 e es)"
    by (rule sorted_wrt_mono_rel [rotated]) (use d in \<open>auto simp: st\<close>)
  then show ?thesis using assms d by (auto simp: recency_def evict_def stamp_def length_remove1)
qed

section \<open>Properties\<close>

text \<open>C26: Over any run of throttled requests, of any costs and with any work in between, a limited bucket
  that starts full lets through at most its burst, plus what its rate earns over the elapsed time, plus once
  more what the rate earns over that time (the bytes a waiter slept for are earned again by the next refill)
  and one rounding nanosecond per request.\<close>

theorem throttle_rate_bound:
  assumes "rate \<noteq> 0" "\<forall>(cost, _) \<in> set reqs. unat cost * 1000000000 div unat rate < 2 ^ 64"
    and "throttle_all reqs t0 (rate_limiter_new rate cap t0) = (t, rl)"
  shows "(\<Sum>(cost, _) \<leftarrow> reqs. unat cost) * 1000000000
     \<le> unat cap * 1000000000 + unat rate * (2 * (t - t0) + length reqs)"
proof -
  have "(\<Sum>(cost, _) \<leftarrow> reqs. unat cost) * 1000000000
     \<le> unat cap * 1000000000 + unat rate * ((t - t0) + (t - t0) + length reqs)"
    using conjunct2 [OF throttle_all_balance [OF _ _ _ assms(3)]] assms(1,2)
    unfolding rate_limiter_new_def rate_limiter.simps by blast
  then show ?thesis unfolding mult_2 .
qed

theorem throttle_rate_bound_witness:
  "throttle_all [(1500, 0), (500, 0)] 7 (rate_limiter_new 1000 1000 7)
     = (500000007, \<lparr>rate_per_sec = 1000, capacity = 1000, tokens = 0, last_refill = 500000007\<rparr>)
   \<and> (1500 + 500) * 1000000000 \<le> (1000 * 1000000000 + 1000 * (2 * (500000007 - 7) + 2) :: nat)"
proof
  show run: "throttle_all [(1500, 0), (500, 0)] 7 (rate_limiter_new 1000 1000 7)
     = (500000007, \<lparr>rate_per_sec = 1000, capacity = 1000, tokens = 0, last_refill = 500000007\<rparr>)"
    by (simp add: rate_limiter_new_def throttle_def reserve_def refill_def clamp_u64_def saturating_add_def Let_def)
  show "(1500 + 500) * 1000000000 \<le> (1000 * 1000000000 + 1000 * (2 * (500000007 - 7) + 2) :: nat)"
    using throttle_rate_bound [OF _ _ run] by simp
qed

text \<open>C27: The handle cache refines a least-recently-used list bounded by its capacity: a hit returns the cached
  handle and moves the extent to the front; a miss opens the file, puts it at the front and lets the least
  recently used one fall off a full list; a failed open leaves the list and reports the error; an eviction
  removes exactly its extent.\<close>

theorem fd_pool_lru:
  assumes "recency p es" "unat (tick p) + 2 < 2 ^ 64" "get_or_open opn e p = (r, p')"
  shows "(if e \<in> set es then (\<exists>entry. fmlookup (handles p) e = Some entry \<and> r = Ok (pe_file entry)) \<and> recency p' (e # remove1 e es)
          else case opn e of
                 Err err \<Rightarrow> r = Err err \<and> recency p' es
               | Ok h \<Rightarrow> r = Ok h \<and> recency p' (take (fp_capacity p) (e # es)))
         \<and> recency (evict e p) (remove1 e es)"
proof -
  obtain c p1 where t: "touch e p = (c, p1)" by (cases "touch e p")
  have small: "unat (tick p) + 1 < 2 ^ 64" using assms(2) by simp
  note tr = touch_recency [OF assms(1) small t]
  show ?thesis
  proof (cases "e \<in> set es")
    case True
    then obtain entry where "fmlookup (handles p) e = Some entry" using recency_lookup [OF assms(1), of e] by blast
    then show ?thesis using True tr assms(3) evict_recency [OF assms(1)] by (auto simp: get_or_open_def t)
  next
    case False
    then have p1: "p1 = p\<lparr>tick := tick p + 1\<rparr>" "recency p1 es" and c: "c = None" using tr by auto
    have "unat (tick p1) + 1 < 2 ^ 64" using p1(1) next_tick_recency(3) [OF assms(1) small] assms(2) by simp
    note ins = pool_insert_recency(1) [OF p1(2) this False]
    have "fp_capacity p1 = fp_capacity p" using p1(1) by simp
    then show ?thesis using False c p1(2) assms(3) ins evict_recency [OF assms(1)]
      by (auto simp: get_or_open_def t split: sum.splits)
  qed
qed

theorem fd_pool_lru_witness:
  "let p = \<lparr>fp_capacity = 1, handles = fmupd (ExtentId 5) \<lparr>pe_file = ''five'', last_used = 1\<rparr> fmempty, tick = 1\<rparr> in
     recency p [ExtentId 5] \<and> fst (get_or_open (\<lambda>_. Ok ''seven'') (ExtentId 7) p) = Ok ''seven''
     \<and> recency (snd (get_or_open (\<lambda>_. Ok ''seven'') (ExtentId 7) p)) [ExtentId 7] \<and> recency (evict (ExtentId 5) p) []"
proof -
  define p where "p = \<lparr>fp_capacity = 1, handles = fmupd (ExtentId 5) \<lparr>pe_file = ''five'', last_used = 1\<rparr> fmempty, tick = 1\<rparr>"
  have r: "recency p [ExtentId 5]" by (simp add: recency_def stamp_def p_def)
  obtain res p' where g: "get_or_open (\<lambda>_. Ok ''seven'') (ExtentId 7) p = (res, p')" by (cases "get_or_open (\<lambda>_. Ok ''seven'') (ExtentId 7) p :: _ \<times> _")
  have small: "unat (tick p) + 2 < 2 ^ 64" by (simp add: p_def)
  have "fp_capacity p = 1" by (simp add: p_def)
  then have "recency p [ExtentId 5] \<and> fst (get_or_open (\<lambda>_. Ok ''seven'') (ExtentId 7) p) = Ok ''seven''
     \<and> recency (snd (get_or_open (\<lambda>_. Ok ''seven'') (ExtentId 7) p)) [ExtentId 7]"
    using fd_pool_lru [OF r small g] r g by simp
  moreover have "recency (evict (ExtentId 5) p) []"
    using fd_pool_lru [OF r small, of "\<lambda>_. Ok ''seven''" "ExtentId 5"] by (cases "get_or_open (\<lambda>_. Ok ''seven'') (ExtentId 5) p") simp
  ultimately show ?thesis unfolding p_def Let_def by blast
qed

end
