(* ===== verification/Meta_Keys.thy ===== *)
theory Meta_Keys
  imports Ids Kv
begin

text \<open>
  The key layout of the metadata store (\<open>epoch-meta/src/store/keys.rs\<close>): column families with their
  tags, the key encoders of the two namespaces, the routing coordinates of a key, and the upper bound of
  a prefix. Keys are byte lists in lexicographic order, as the engines order them.
\<close>

datatype meta_cf = Meta | Fs | MetaSeg | Upload | Delq | Ttl | Applied

definition cf_tag :: "meta_cf \<Rightarrow> byte" where
  "cf_tag cf = (case cf of Meta \<Rightarrow> 0x6F | Fs \<Rightarrow> 0x66 | MetaSeg \<Rightarrow> 0x67 | Upload \<Rightarrow> 0x75
     | Delq \<Rightarrow> 0x71 | Ttl \<Rightarrow> 0x74 | Applied \<Rightarrow> 0xFF)"

definition cf_name :: "meta_cf \<Rightarrow> string" where
  "cf_name cf = (case cf of Meta \<Rightarrow> ''meta'' | Fs \<Rightarrow> ''fs'' | MetaSeg \<Rightarrow> ''meta_seg'' | Upload \<Rightarrow> ''upload''
     | Delq \<Rightarrow> ''delq'' | Ttl \<Rightarrow> ''ttl'' | Applied \<Rightarrow> ''applied'')"

definition ALL_CFS :: "meta_cf list" where
  "ALL_CFS = [Meta, Fs, MetaSeg, Upload, Delq, Ttl]"

definition flat_key :: "meta_cf \<Rightarrow> bucket_id \<Rightarrow> bytes \<Rightarrow> bytes \<Rightarrow> bytes" where
  "flat_key cf bucket object_key sfx = cf_tag cf # to_be_bytes 8 (bucket_get bucket) @ object_key @ sfx"

definition hier_key :: "meta_cf \<Rightarrow> bucket_id \<Rightarrow> u64 \<Rightarrow> bytes \<Rightarrow> bytes \<Rightarrow> bytes" where
  "hier_key cf bucket parent_ino name sfx =
     cf_tag cf # to_be_bytes 8 (bucket_get bucket) @ to_be_bytes 8 parent_ino @ name @ sfx"

definition hier_routing_key :: "u64 \<Rightarrow> bytes \<Rightarrow> bytes" where
  "hier_routing_key parent_ino name = to_be_bytes 8 parent_ino @ name"

definition routing_key :: "bytes \<Rightarrow> (bucket_id \<times> bytes) option" where
  "routing_key key =
     (case key of
        [] \<Rightarrow> None
      | tag # rest \<Rightarrow>
          if length rest < 8 then None
          else
            let bucket = BucketId (from_be_bytes (take 8 rest)); routing = drop 8 rest in
            if tag \<in> {0x6F, 0x67, 0x75, 0x71, 0x66} then Some (bucket, routing)
            else if tag = 0x74 then (if 8 \<le> length routing then Some (bucket, drop 8 routing) else None)
            else None)"

definition bucket_prefix :: "meta_cf \<Rightarrow> bucket_id \<Rightarrow> bytes" where
  "bucket_prefix cf bucket = cf_tag cf # to_be_bytes 8 (bucket_get bucket)"

text \<open>Trailing \<open>0xFF\<close> bytes are popped; the last remaining byte is incremented. The loop runs on the
  reversed prefix, whose head is the last byte.\<close>

fun prefix_end_loop :: "bytes \<Rightarrow> bytes option" where
  "prefix_end_loop [] = None"
| "prefix_end_loop (l # rest) = (if l = 0xFF then prefix_end_loop rest else Some (rev ((l + 1) # rest)))"

definition prefix_end :: "bytes \<Rightarrow> bytes option" where
  "prefix_end p = prefix_end_loop (rev p)"

definition suffix_seg_no :: "u32 \<Rightarrow> bytes" where
  "suffix_seg_no n = to_be_bytes 4 n"

definition suffix_upload_part :: "u128 \<Rightarrow> u32 \<Rightarrow> bytes" where
  "suffix_upload_part upload_id part_no = to_be_bytes 16 upload_id @ to_be_bytes 4 part_no"

definition suffix_delq_seq :: "u64 \<Rightarrow> u32 \<Rightarrow> bytes" where
  "suffix_delq_seq s seg_no = to_be_bytes 8 s @ to_be_bytes 4 seg_no"

definition suffix_expire_ts :: "u64 \<Rightarrow> bytes" where
  "suffix_expire_ts ts = to_be_bytes 8 ts"

lemmas suffix_defs = suffix_seg_no_def suffix_upload_part_def suffix_delq_seq_def suffix_expire_ts_def

section \<open>Lexicographic order\<close>

lemma append_le_append_iff [simp]: "p @ a \<le> p @ b \<longleftrightarrow> a \<le> (b :: 'c::linorder list)"
  by (induction p) auto

lemma append_less_append_iff [simp]: "p @ a < p @ b \<longleftrightarrow> a < (b :: 'c::linorder list)"
  by (induction p) auto

text \<open>Lists of equal length compare by themselves before anything appended to them.\<close>

lemma append_less_same_length:
  "length a = length b \<Longrightarrow> a @ x < b @ y \<longleftrightarrow> a < b \<or> (a = b \<and> x < (y :: 'c::linorder list))"
  by (induction a b rule: list_induct2) auto

lemma append_le_same_length:
  "length a = length b \<Longrightarrow> a @ x \<le> b @ y \<longleftrightarrow> a < b \<or> (a = b \<and> x \<le> (y :: 'c::linorder list))"
  by (induction a b rule: list_induct2) auto

text \<open>The next key after one key, and the end of the keys with a prefix.\<close>

lemma less_snoc_zero: "k < k' @ [0 :: byte] \<longleftrightarrow> k \<le> k'"
proof (induction k' arbitrary: k)
  case Nil
  show ?case by (cases k) (auto simp: word_less_nat_alt)
next
  case (Cons a k')
  show ?case using Cons.IH by (cases k) auto
qed

lemma snoc_zero_le: "k' @ [0 :: byte] \<le> k \<longleftrightarrow> k' < k"
  using less_snoc_zero [of k k'] by (simp add: not_less [symmetric])

lemma prefix_end_loop_Some:
  assumes "prefix_end_loop r = Some e"
  shows "(rev r \<le> k \<and> k < e) \<longleftrightarrow> prefix (rev r) k"
  using assms
proof (induction r arbitrary: e k)
  case (Cons l rest)
  show ?case
  proof (cases "l = 0xFF")
    case True
    then have e: "prefix_end_loop rest = Some e" using Cons.prems by simp
    have top: "x \<le> l" for x :: byte
      using unsigned_less [of x, where 'a = nat] True by (simp add: word_le_nat_alt)
    note ih = Cons.IH [OF e, of k]
    have "rev rest \<le> k \<and> k < e \<and> rev (l # rest) \<le> k \<longleftrightarrow> prefix (rev (l # rest)) k"
    proof -
      have "prefix (rev rest) k \<and> rev rest @ [l] \<le> k \<longleftrightarrow> prefix (rev rest @ [l]) k"
      proof
        assume h: "prefix (rev rest) k \<and> rev rest @ [l] \<le> k"
        then obtain t where k: "k = rev rest @ t" by (auto simp: prefix_def)
        then have "[l] \<le> t" using h by simp
        then show "prefix (rev rest @ [l]) k" using k top by (cases t) (auto simp: antisym)
      next
        assume "prefix (rev rest @ [l]) k"
        then show "prefix (rev rest) k \<and> rev rest @ [l] \<le> k"
          by (auto simp: prefix_le dest: append_prefixD)
      qed
      then show ?thesis using ih by auto
    qed
    moreover have "rev (l # rest) \<le> k \<Longrightarrow> rev rest \<le> k"
      using prefix_le [of "rev rest" "rev rest @ [l]"] by (auto intro: order_trans)
    ultimately show ?thesis by blast
  next
    case False
    then have e: "e = rev rest @ [l + 1]" using Cons.prems by simp
    have "unat l \<noteq> 255" using False unsigned_word_eqI [of l 255, where ?'a = nat] by auto
    then have "unat l + 1 < 2 ^ LENGTH(8)" using unsigned_less [of l, where 'a = nat] by simp
    then have up: "unat (l + 1) = unat l + 1" by (simp add: unat_add_lem [THEN iffD1])
    then have lt: "l < l + 1" by (simp add: word_less_nat_alt)
    have step: "x < l + 1 \<longleftrightarrow> x \<le> l" for x :: byte
      by (simp add: word_less_nat_alt word_le_nat_alt up less_Suc_eq_le)
    show ?thesis
    proof
      assume h: "rev (l # rest) \<le> k \<and> k < e"
      have "prefix (rev rest) k"
      proof (rule prefix_between)
        show "rev rest \<le> k" using h prefix_le [of "rev rest" "rev rest @ [l]"] by (auto intro: order_trans)
        show "k \<le> e" using h by (simp add: less_imp_le)
        show "prefix (rev rest) e" by (simp add: e)
      qed
      then obtain t where k: "k = rev rest @ t" by (auto simp: prefix_def)
      have t: "[l] \<le> t" "t < [l + 1]" using h by (simp_all add: k e)
      then obtain b ts where b: "t = b # ts" by (cases t) auto
      have "l \<le> b" "b < l + 1" using t by (auto simp: b)
      then have "b = l" using step [of b] by (intro antisym) simp_all
      then show "prefix (rev (l # rest)) k" by (simp add: k b)
    next
      assume "prefix (rev (l # rest)) k"
      then obtain t where k: "k = rev rest @ l # t" by (auto simp: prefix_def)
      then show "rev (l # rest) \<le> k \<and> k < e" using lt by (simp add: e)
    qed
  qed
qed simp

lemma prefix_end_loop_None: "prefix_end_loop r = None \<longleftrightarrow> (\<forall>b \<in> set r. b = 0xFF)"
  by (induction r) auto

lemma prefix_end_Some: "prefix_end p = Some e \<Longrightarrow> (p \<le> k \<and> k < e) = prefix p k"
  using prefix_end_loop_Some [of "rev p" e k] by (simp add: prefix_end_def)

lemma cf_tag_neq_FF: "cf \<noteq> Applied \<Longrightarrow> cf_tag cf \<noteq> 0xFF"
  by (cases cf) (auto simp: cf_tag_def)

lemma prefix_end_key: "cf \<noteq> Applied \<Longrightarrow> \<exists>e. prefix_end (flat_key cf b k s) = Some e"
  using prefix_end_loop_None [of "rev (flat_key cf b k s)"] cf_tag_neq_FF [of cf]
  by (cases "prefix_end_loop (rev (flat_key cf b k s))") (auto simp: prefix_end_def flat_key_def)

lemma hier_key_flat: "hier_key cf b p n s = flat_key cf b (hier_routing_key p n) s"
  by (simp add: hier_key_def flat_key_def hier_routing_key_def)

lemma flat_key_inject [simp]:
  "flat_key cf b k s = flat_key cf b k' s' \<longleftrightarrow> k @ s = k' @ s'"
  by (simp add: flat_key_def)

lemma prefix_flat_key: "prefix (flat_key cf b k []) key \<longleftrightarrow> (\<exists>s. key = flat_key cf b k s)"
  by (auto simp: flat_key_def prefix_def)

lemma suffix_lengths [simp]:
  "length (suffix_seg_no n) = 4" "length (suffix_upload_part u p) = 20" "length (suffix_delq_seq s n) = 12"
  by (simp_all add: suffix_defs)

lemma be_bytes_inject [simp]:
  "to_be_bytes 4 (a :: u32) = to_be_bytes 4 a' \<longleftrightarrow> a = a'"
  "to_be_bytes 8 (b :: u64) = to_be_bytes 8 b' \<longleftrightarrow> b = b'"
  "to_be_bytes 16 (c :: u128) = to_be_bytes 16 c' \<longleftrightarrow> c = c'"
  by (metis be_bytes_roundtrip)+

lemma suffix_inject [simp]:
  "suffix_seg_no m = suffix_seg_no n \<longleftrightarrow> m = n"
  "suffix_delq_seq s m = suffix_delq_seq t n \<longleftrightarrow> s = t \<and> m = n"
  "suffix_upload_part u m = suffix_upload_part v n \<longleftrightarrow> u = v \<and> m = n"
  by (simp_all add: suffix_defs)

lemma flat_key_same_suffix_length:
  "length s = length s' \<Longrightarrow> flat_key cf b k s = flat_key cf b k' s' \<longleftrightarrow> k = k' \<and> s = s'"
  by simp

end
