(* ===== verification/Meta_Store.thy ===== *)
theory Meta_Store
  imports Meta_Keys
begin

text \<open>
  The storage interface of the metadata node (\<open>epoch-meta/src/store\<close>). A \<open>store\<close> is what the
  \<open>MetaStore\<close> trait promises: one ordered map per column family, changed by atomic batches. The memory
  engine (\<open>store/mem.rs\<close>) and the RocksDB engine (\<open>store/rocks.rs\<close>) are modelled beside it and
  shown to implement it; RocksDB itself is its documented contents, an ordered map per column family. The
  paged export of a partition (\<open>store/mod.rs\<close>) walks ranges with a resume cursor.

  A panic is the outer \<^const>\<open>None\<close>. Device failures of RocksDB are not part of the model: they stop the
  raft group that applies to the store.
\<close>

datatype meta_store_error = Rocks | MissingCf string | ValueCodec

record store_op =
  so_cf :: meta_cf
  so_key :: bytes
  so_value :: "bytes option"

definition op_put :: "meta_cf \<Rightarrow> bytes \<Rightarrow> bytes \<Rightarrow> store_op" where
  "op_put cf key val = \<lparr>so_cf = cf, so_key = key, so_value = Some val\<rparr>"

definition op_delete :: "meta_cf \<Rightarrow> bytes \<Rightarrow> store_op" where
  "op_delete cf key = \<lparr>so_cf = cf, so_key = key, so_value = None\<rparr>"

record key_range =
  kr_cf :: meta_cf
  kr_start :: bytes
  kr_end :: bytes

type_synonym kv_page = "(bytes \<times> bytes) list"
type_synonym export_entry = "meta_cf \<times> bytes \<times> bytes"

section \<open>The contract\<close>

type_synonym store = "meta_cf \<Rightarrow> (bytes, bytes) kv"

definition empty_store :: store where
  "empty_store = (\<lambda>_. fmempty)"

definition store_op_apply :: "store_op \<Rightarrow> store \<Rightarrow> store" where
  "store_op_apply op st =
     (case so_value op of
        Some val \<Rightarrow> st(so_cf op := fmupd (so_key op) val (st (so_cf op)))
      | None \<Rightarrow> st(so_cf op := fmdrop (so_key op) (st (so_cf op))))"

definition store_apply :: "store_op list \<Rightarrow> store \<Rightarrow> store" where
  "store_apply ops st = fold store_op_apply ops st"

definition store_get :: "store \<Rightarrow> meta_cf \<Rightarrow> bytes \<Rightarrow> bytes option" where
  "store_get st cf key = fmlookup (st cf) key"

definition store_scan :: "store \<Rightarrow> meta_cf \<Rightarrow> bytes \<Rightarrow> bytes \<Rightarrow> nat \<Rightarrow> kv_page" where
  "store_scan st cf start stop limit = take limit (kv_range start (Some stop) (st cf))"

definition range_entries :: "store \<Rightarrow> key_range \<Rightarrow> export_entry list" where
  "range_entries st r = map (\<lambda>(k, v). (kr_cf r, k, v)) (kv_range (kr_start r) (Some (kr_end r)) (st (kr_cf r)))"

definition store_snapshot :: "store \<Rightarrow> key_range list \<Rightarrow> export_entry list" where
  "store_snapshot st ranges = concat (map (range_entries st) ranges)"

text \<open>The reading loop that every handler uses: pages of a limited size, resumed strictly after the last
  key of the previous page, until a page is empty.\<close>

lemma kv_range_resume:
  assumes "kv_range start (Some stop) m = xs @ (k, v) # ys"
  shows "kv_range (k @ [0 :: byte]) (Some stop) m = ys"
proof (rule sorted_entries_unique)
  have srt: "sorted (map fst (xs @ (k, v) # ys))" and dst: "distinct (map fst (xs @ (k, v) # ys))"
    unfolding assms [symmetric] by (rule sorted_kv_range, rule distinct_kv_range)
  show "sorted (map fst ys)" "distinct (map fst ys)" using srt dst by (simp_all add: sorted_append)
  have gt: "(a, b) \<in> set ys \<Longrightarrow> k < a" for a b
    using srt dst by (force simp: sorted_append le_less)
  have le: "(a, b) \<in> set (xs @ [(k, v)]) \<Longrightarrow> a \<le> k" for a b
    using srt by (force simp: sorted_append)
  have mem: "(a, b) \<in> set (xs @ (k, v) # ys) \<longleftrightarrow> start \<le> a \<and> a < stop \<and> fmlookup m a = Some b" for a b
    unfolding assms [symmetric] by (simp add: set_kv_range)
  have "start \<le> k" using mem [of k v] by simp
  then have "(a, b) \<in> set (kv_range (k @ [0]) (Some stop) m) \<longleftrightarrow> (a, b) \<in> set ys" for a b
    using mem [of a b] gt [of a b] le [of a b] by (auto simp: set_kv_range snoc_zero_le)
  then show "set (kv_range (k @ [0]) (Some stop) m) = set ys" by auto
qed (rule sorted_kv_range, rule distinct_kv_range)

lemma kv_range_next_page:
  assumes "page = take limit (kv_range start (Some stop) m)" "page \<noteq> []"
  shows "kv_range (fst (last page) @ [0 :: byte]) (Some stop) m = drop limit (kv_range start (Some stop) m)"
proof -
  obtain xs kv where p: "page = xs @ [kv]" using assms(2) by (cases page rule: rev_cases) auto
  obtain k v where kv: "kv = (k, v)" by (cases kv)
  have "kv_range start (Some stop) m = page @ drop limit (kv_range start (Some stop) m)"
    unfolding assms(1) by simp
  then have "kv_range start (Some stop) m = xs @ (k, v) # drop limit (kv_range start (Some stop) m)"
    unfolding p kv by simp
  from kv_range_resume [OF this] show ?thesis by (simp add: p kv)
qed

function scan_pages :: "store \<Rightarrow> meta_cf \<Rightarrow> bytes \<Rightarrow> bytes \<Rightarrow> nat \<Rightarrow> kv_page" where
  "scan_pages st cf cursor stop limit =
     (let page = store_scan st cf cursor stop limit in
      if page = [] then [] else page @ scan_pages st cf (fst (last page) @ [0]) stop limit)"
  by pat_completeness auto
termination
  by (relation "measure (\<lambda>(st, cf, cursor, stop, limit). length (kv_range cursor (Some stop) (st cf)))")
     (auto simp: store_scan_def kv_range_next_page [OF refl])

declare scan_pages.simps [simp del]

lemma scan_pages_eq: "0 < limit \<Longrightarrow> scan_pages st cf cursor stop limit = kv_range cursor (Some stop) (st cf)"
proof (induction st cf cursor stop limit rule: scan_pages.induct)
  case (1 st cf cursor stop limit)
  let ?all = "kv_range cursor (Some stop) (st cf)" and ?page = "store_scan st cf cursor stop limit"
  show ?case
  proof (cases "?page = []")
    case True
    then show ?thesis using "1.prems" by (simp add: scan_pages.simps store_scan_def)
  next
    case False
    have "scan_pages st cf cursor stop limit = ?page @ scan_pages st cf (fst (last ?page) @ [0]) stop limit"
      using False by (subst scan_pages.simps) (simp add: Let_def)
    also have "\<dots> = ?page @ kv_range (fst (last ?page) @ [0]) (Some stop) (st cf)"
      using "1.IH" [OF refl False "1.prems"] by simp
    also have "\<dots> = ?page @ drop limit ?all"
      using kv_range_next_page [OF _ False] by (simp add: store_scan_def)
    finally show ?thesis by (simp add: store_scan_def)
  qed
qed

section \<open>Paged export\<close>

record export_cursor =
  range_index :: nat
  after_key :: bytes

record export_page =
  ep_entries :: "export_entry list"
  ep_next :: "export_cursor option"

function export_range :: "store \<Rightarrow> key_range \<Rightarrow> nat \<Rightarrow> bytes \<Rightarrow> export_entry list \<Rightarrow> export_entry list \<times> bool" where
  "export_range st r limit scan_start entries =
     (if limit \<le> length entries then (entries, True)
      else
        let page = store_scan st (kr_cf r) scan_start (kr_end r) (limit - length entries) in
        if page = [] then (entries, False)
        else export_range st r limit (fst (last page) @ [0]) (entries @ map (\<lambda>(k, v). (kr_cf r, k, v)) page))"
  by pat_completeness auto
termination
proof (relation "measure (\<lambda>(st, r, limit, start, entries). limit - length entries)", goal_cases)
  case (2 st r limit scan_start entries page)
  then have "0 < length page" "length entries < limit" by simp_all
  then show ?case by (simp del: length_greater_0_conv)
qed simp

declare export_range.simps [simp del]

fun export_ranges ::
    "store \<Rightarrow> nat \<Rightarrow> (nat \<times> key_range) list \<Rightarrow> bytes option \<Rightarrow> export_entry list \<Rightarrow> export_page option" where
  "export_ranges st limit [] resume_after entries = Some \<lparr>ep_entries = entries, ep_next = None\<rparr>"
| "export_ranges st limit ((idx, r) # rs) resume_after entries =
     (let scan_start = (case resume_after of Some k \<Rightarrow> k @ [0] | None \<Rightarrow> kr_start r);
          (entries', full) = export_range st r limit scan_start entries in
      if full then
        (if entries' = [] then None
         else Some \<lparr>ep_entries = entries',
                    ep_next = Some \<lparr>range_index = idx, after_key = fst (snd (last entries'))\<rparr>\<rparr>)
      else export_ranges st limit rs None entries')"

definition export_page :: "store \<Rightarrow> key_range list \<Rightarrow> export_cursor option \<Rightarrow> nat \<Rightarrow> export_page option" where
  "export_page st ranges cursor limit =
     (let (start_idx, resume_after) = (case cursor of Some c \<Rightarrow> (range_index c, Some (after_key c)) | None \<Rightarrow> (0, None))
      in export_ranges st limit (drop start_idx (zip [0..<length ranges] ranges)) resume_after [])"

text \<open>The migration loop: pages until the cursor is exhausted.\<close>

fun export_all :: "nat \<Rightarrow> store \<Rightarrow> key_range list \<Rightarrow> export_cursor option \<Rightarrow> nat \<Rightarrow> export_entry list option" where
  "export_all 0 st ranges cursor limit = None"
| "export_all (Suc fuel) st ranges cursor limit =
     (case export_page st ranges cursor limit of
        None \<Rightarrow> None
      | Some page \<Rightarrow>
          (case ep_next page of
             None \<Rightarrow> Some (ep_entries page)
           | Some c \<Rightarrow> map_option (\<lambda>rest. ep_entries page @ rest) (export_all fuel st ranges (Some c) limit)))"

section \<open>The memory engine\<close>

record mem_engine =
  me_maps :: "(byte, (bytes, bytes) kv) kv"

definition mem_new :: mem_engine where
  "mem_new = \<lparr>me_maps = fmempty\<rparr>"

definition mem_map :: "meta_cf \<Rightarrow> mem_engine \<Rightarrow> (bytes, bytes) kv option" where
  "mem_map cf e = fmlookup (me_maps e) (cf_tag cf)"

text \<open>The map of a column family, created empty on first use, changed by a function.\<close>

definition mem_map_mut :: "meta_cf \<Rightarrow> ((bytes, bytes) kv \<Rightarrow> (bytes, bytes) kv) \<Rightarrow> mem_engine \<Rightarrow> mem_engine" where
  "mem_map_mut cf f e =
     e\<lparr>me_maps := fmupd (cf_tag cf) (f (case mem_map cf e of None \<Rightarrow> fmempty | Some m \<Rightarrow> m)) (me_maps e)\<rparr>"

fun mem_apply :: "store_op list \<Rightarrow> mem_engine \<Rightarrow> (meta_store_error, mem_engine) result" where
  "mem_apply [] e = Ok e"
| "mem_apply (op # ops) e =
     mem_apply ops
       (case so_value op of
          Some val \<Rightarrow> mem_map_mut (so_cf op) (fmupd (so_key op) val) e
        | None \<Rightarrow> mem_map_mut (so_cf op) (fmdrop (so_key op)) e)"

definition mem_get :: "mem_engine \<Rightarrow> meta_cf \<Rightarrow> bytes \<Rightarrow> (meta_store_error, bytes option) result" where
  "mem_get e cf key = Ok (Option.bind (mem_map cf e) (\<lambda>m. fmlookup m key))"

text \<open>\<open>BTreeMap::range\<close> panics when the start lies behind the end.\<close>

definition btree_range :: "bytes \<Rightarrow> bytes \<Rightarrow> (bytes, bytes) kv \<Rightarrow> kv_page option" where
  "btree_range start stop m = (if start \<le> stop then Some (kv_range start (Some stop) m) else None)"

definition mem_scan ::
    "mem_engine \<Rightarrow> meta_cf \<Rightarrow> bytes \<Rightarrow> bytes \<Rightarrow> nat \<Rightarrow> (meta_store_error, kv_page) result option" where
  "mem_scan e cf start stop limit =
     (case mem_map cf e of
        None \<Rightarrow> Some (Ok [])
      | Some m \<Rightarrow> map_option (\<lambda>page. Ok (take limit page)) (btree_range start stop m))"

fun mem_snapshot :: "mem_engine \<Rightarrow> key_range list \<Rightarrow> (meta_store_error, export_entry list) result option" where
  "mem_snapshot e [] = Some (Ok [])"
| "mem_snapshot e (r # rs) =
     (case mem_map (kr_cf r) e of
        None \<Rightarrow> mem_snapshot e rs
      | Some m \<Rightarrow>
          Option.bind (btree_range (kr_start r) (kr_end r) m) (\<lambda>page.
            map_option (\<lambda>res. and_then res (\<lambda>rest. Ok (map (\<lambda>(k, v). (kr_cf r, k, v)) page @ rest)))
              (mem_snapshot e rs)))"

section \<open>The RocksDB engine\<close>

text \<open>The database by column-family name. A write batch is applied as a whole.\<close>

record rocks_engine =
  re_db :: "(string, (bytes, bytes) kv) kv"

definition rocks_open :: rocks_engine where
  "rocks_open = \<lparr>re_db = fmap_of_list (map (\<lambda>cf. (cf_name cf, fmempty)) (ALL_CFS @ [Applied]))\<rparr>"

definition rocks_cf :: "meta_cf \<Rightarrow> rocks_engine \<Rightarrow> (meta_store_error, (bytes, bytes) kv) result" where
  "rocks_cf cf e = ok_or (MissingCf (cf_name cf)) (fmlookup (re_db e) (cf_name cf))"

definition db_op :: "store_op \<Rightarrow> rocks_engine \<Rightarrow> rocks_engine" where
  "db_op op e =
     (case fmlookup (re_db e) (cf_name (so_cf op)) of
        None \<Rightarrow> e
      | Some m \<Rightarrow>
          e\<lparr>re_db := fmupd (cf_name (so_cf op))
              (case so_value op of Some val \<Rightarrow> fmupd (so_key op) val m | None \<Rightarrow> fmdrop (so_key op) m) (re_db e)\<rparr>)"

definition rocks_apply :: "store_op list \<Rightarrow> rocks_engine \<Rightarrow> (meta_store_error, rocks_engine) result" where
  "rocks_apply ops e = and_then (collect_results (map (\<lambda>op. rocks_cf (so_cf op) e) ops)) (\<lambda>_. Ok (fold db_op ops e))"

definition rocks_get :: "rocks_engine \<Rightarrow> meta_cf \<Rightarrow> bytes \<Rightarrow> (meta_store_error, bytes option) result" where
  "rocks_get e cf key = and_then (rocks_cf cf e) (\<lambda>m. Ok (fmlookup m key))"

fun rocks_iterate :: "bytes \<Rightarrow> nat \<Rightarrow> kv_page \<Rightarrow> kv_page \<Rightarrow> kv_page" where
  "rocks_iterate stop limit [] out = out"
| "rocks_iterate stop limit ((key, val) # items) out =
     (if stop \<le> key \<or> limit \<le> length out then out else rocks_iterate stop limit items (out @ [(key, val)]))"

definition rocks_scan ::
    "rocks_engine \<Rightarrow> meta_cf \<Rightarrow> bytes \<Rightarrow> bytes \<Rightarrow> nat \<Rightarrow> (meta_store_error, kv_page) result option" where
  "rocks_scan e cf start stop limit = Some (and_then (rocks_cf cf e) (\<lambda>m. Ok (rocks_iterate stop limit (kv_from start m) [])))"

definition rocks_range :: "rocks_engine \<Rightarrow> key_range \<Rightarrow> (meta_store_error, export_entry list) result" where
  "rocks_range e r =
     and_then (rocks_cf (kr_cf r) e) (\<lambda>m.
       Ok (map (\<lambda>(k, v). (kr_cf r, k, v)) (takeWhile (\<lambda>(k, _). \<not> kr_end r \<le> k) (kv_from (kr_start r) m))))"

definition rocks_snapshot :: "rocks_engine \<Rightarrow> key_range list \<Rightarrow> (meta_store_error, export_entry list) result option" where
  "rocks_snapshot e ranges = Some (and_then (collect_results (map (rocks_range e) ranges)) (\<lambda>xss. Ok (concat xss)))"

section \<open>Both engines implement the contract\<close>

lemma cf_tag_inject [simp]: "cf_tag a = cf_tag b \<longleftrightarrow> a = b"
  by (cases a; cases b) (simp_all add: cf_tag_def)

lemma cf_name_inject [simp]: "cf_name a = cf_name b \<longleftrightarrow> a = b"
  by (cases a; cases b) (simp_all add: cf_name_def)

text \<open>A sequence of batches on one engine.\<close>

fun apply_batches :: "(store_op list \<Rightarrow> 's \<Rightarrow> (meta_store_error, 's) result) \<Rightarrow> store_op list list \<Rightarrow> 's \<Rightarrow> (meta_store_error, 's) result" where
  "apply_batches f [] s = Ok s"
| "apply_batches f (ops # batches) s = and_then (f ops s) (apply_batches f batches)"

text \<open>What a client of \<open>MetaStore\<close> may rely on: the engine has contents; every call on a good engine
  succeeds and acts on the contents as the contract says, as long as range starts do not exceed range ends.\<close>

locale meta_engine =
  fixes good :: "'s \<Rightarrow> bool"
    and contents :: "'s \<Rightarrow> store"
    and eapply :: "store_op list \<Rightarrow> 's \<Rightarrow> (meta_store_error, 's) result"
    and eget :: "'s \<Rightarrow> meta_cf \<Rightarrow> bytes \<Rightarrow> (meta_store_error, bytes option) result"
    and escan :: "'s \<Rightarrow> meta_cf \<Rightarrow> bytes \<Rightarrow> bytes \<Rightarrow> nat \<Rightarrow> (meta_store_error, kv_page) result option"
    and esnapshot :: "'s \<Rightarrow> key_range list \<Rightarrow> (meta_store_error, export_entry list) result option"
  assumes apply_law: "good s \<Longrightarrow> \<exists>s'. eapply ops s = Ok s' \<and> good s' \<and> contents s' = store_apply ops (contents s)"
    and get_law: "good s \<Longrightarrow> eget s cf key = Ok (store_get (contents s) cf key)"
    and scan_law: "good s \<Longrightarrow> start \<le> stop \<Longrightarrow> escan s cf start stop limit = Some (Ok (store_scan (contents s) cf start stop limit))"
    and snapshot_law: "good s \<Longrightarrow> \<forall>r \<in> set ranges. kr_start r \<le> kr_end r \<Longrightarrow>
      esnapshot s ranges = Some (Ok (store_snapshot (contents s) ranges))"
begin

lemma apply_batches_law: "good s \<Longrightarrow> \<exists>s'. apply_batches eapply batches s = Ok s' \<and> good s' \<and> contents s' = store_apply (concat batches) (contents s)"
proof (induction batches arbitrary: s)
  case (Cons ops batches)
  obtain s1 where "eapply ops s = Ok s1" "good s1" "contents s1 = store_apply ops (contents s)"
    using apply_law [OF Cons.prems] by blast
  then show ?case using Cons.IH [of s1] by (simp add: store_apply_def)
qed (simp add: store_apply_def)

end

definition mem_contents :: "mem_engine \<Rightarrow> store" where
  "mem_contents e = (\<lambda>cf. case mem_map cf e of None \<Rightarrow> fmempty | Some m \<Rightarrow> m)"

lemma mem_map_mut_contents: "mem_contents (mem_map_mut cf f e) = (mem_contents e)(cf := f (mem_contents e cf))"
  by (rule ext) (simp add: mem_contents_def mem_map_mut_def mem_map_def)

lemma mem_apply_contents: "\<exists>e'. mem_apply ops e = Ok e' \<and> mem_contents e' = store_apply ops (mem_contents e)"
proof (induction ops arbitrary: e)
  case (Cons op ops)
  let ?e = "case so_value op of Some val \<Rightarrow> mem_map_mut (so_cf op) (fmupd (so_key op) val) e
        | None \<Rightarrow> mem_map_mut (so_cf op) (fmdrop (so_key op)) e"
  have "mem_contents ?e = store_op_apply op (mem_contents e)"
    by (simp add: mem_map_mut_contents store_op_apply_def split: option.split)
  then show ?case using Cons.IH [of ?e] by (simp add: store_apply_def)
qed (simp add: store_apply_def)

lemma kv_range_empty [simp]: "kv_range a b fmempty = []"
  by (simp add: kv_range_def kv_entries_def sorted_list_of_fset.rep_eq)

lemma mem_snapshot_contents:
  "\<forall>r \<in> set ranges. kr_start r \<le> kr_end r \<Longrightarrow> mem_snapshot e ranges = Some (Ok (store_snapshot (mem_contents e) ranges))"
  by (induction ranges) (auto simp: store_snapshot_def range_entries_def btree_range_def mem_contents_def split: option.split)

interpretation mem: meta_engine "\<lambda>_. True" mem_contents mem_apply mem_get mem_scan mem_snapshot
proof
  show "\<exists>s'. mem_apply ops s = Ok s' \<and> True \<and> mem_contents s' = store_apply ops (mem_contents s)" for s ops
    using mem_apply_contents by simp
  show "mem_get s cf key = Ok (store_get (mem_contents s) cf key)" for s cf key
    by (simp add: mem_get_def store_get_def mem_contents_def split: option.split)
  show "mem_scan s cf start stop limit = Some (Ok (store_scan (mem_contents s) cf start stop limit))"
    if "start \<le> stop" for s cf start stop limit
    using that by (simp add: mem_scan_def store_scan_def mem_contents_def btree_range_def split: option.split)
qed (rule mem_snapshot_contents)

definition rocks_good :: "rocks_engine \<Rightarrow> bool" where
  "rocks_good e \<longleftrightarrow> (\<forall>cf. fmlookup (re_db e) (cf_name cf) \<noteq> None)"

definition rocks_contents :: "rocks_engine \<Rightarrow> store" where
  "rocks_contents e = (\<lambda>cf. the (fmlookup (re_db e) (cf_name cf)))"

lemma rocks_cf_good: "rocks_good e \<Longrightarrow> rocks_cf cf e = Ok (rocks_contents e cf)"
  unfolding rocks_good_def rocks_cf_def rocks_contents_def by (metis ok_or_simps(2) option.exhaust_sel)

lemma rocks_open_good: "rocks_good rocks_open" "rocks_contents rocks_open = empty_store"
proof -
  have "fmlookup (re_db rocks_open) (cf_name cf) = Some fmempty" for cf
    by (cases cf) (simp_all add: rocks_open_def ALL_CFS_def cf_name_def fmlookup_of_list)
  then show "rocks_good rocks_open" "rocks_contents rocks_open = empty_store"
    by (simp_all add: rocks_good_def rocks_contents_def empty_store_def)
qed

lemma db_op_good:
  assumes "rocks_good e"
  shows "rocks_good (db_op op e) \<and> rocks_contents (db_op op e) = store_op_apply op (rocks_contents e)"
proof -
  obtain m where "fmlookup (re_db e) (cf_name (so_cf op)) = Some m" using assms by (auto simp: rocks_good_def)
  then show ?thesis using assms
    by (auto simp: rocks_good_def db_op_def rocks_contents_def store_op_apply_def fun_eq_iff split: option.split)
qed

lemma db_ops_good:
  "rocks_good e \<Longrightarrow> rocks_good (fold db_op ops e) \<and> rocks_contents (fold db_op ops e) = store_apply ops (rocks_contents e)"
proof (induction ops arbitrary: e)
  case (Cons op ops)
  then show ?case using db_op_good [OF Cons.prems, of op] by (simp add: store_apply_def)
qed (simp add: store_apply_def)

lemma rocks_iterate_eq:
  "rocks_iterate stop limit items out = out @ take (limit - length out) (takeWhile (\<lambda>(k, _). \<not> stop \<le> k) items)"
proof (induction items arbitrary: out)
  case (Cons item items)
  obtain k v where i: "item = (k, v)" by (cases item)
  show ?case
  proof (cases "stop \<le> k \<or> limit \<le> length out")
    case False
    then obtain n where n: "limit - length out = Suc n" by (metis Suc_diff_Suc not_le)
    then have "limit - length (out @ [(k, v)]) = n" by simp
    then show ?thesis using False Cons.IH [of "out @ [(k, v)]"] n by (simp add: i)
  qed (auto simp: i)
qed simp

text \<open>The iterator that stops at the first key not below the end yields the range.\<close>

lemma takeWhile_range: "takeWhile (\<lambda>(k, _). \<not> stop \<le> k) (kv_from start m) = kv_range start (Some stop) m"
proof -
  let ?xs = "kv_from start m"
  have srt: "sorted (map fst ?xs)" unfolding kv_from_def by (intro sorted_filter_fst sorted_kv_entries)
  have "takeWhile (\<lambda>(k, _). \<not> stop \<le> k) ?xs = filter (\<lambda>(k, _). \<not> stop \<le> k) ?xs"
  proof (rule takeWhile_eq_filter)
    fix i j assume ij: "i < j" "j < length ?xs" and pj: "case ?xs ! j of (k, _) \<Rightarrow> \<not> stop \<le> k"
    have "fst (?xs ! i) \<le> fst (?xs ! j)" using sorted_nth_mono [OF srt, of i j] ij by simp
    then show "case ?xs ! i of (k, _) \<Rightarrow> \<not> stop \<le> k" using pj by (auto simp: split_beta)
  qed
  also have "\<dots> = kv_range start (Some stop) m"
    by (auto simp: kv_from_def kv_range_def intro!: filter_cong)
  finally show ?thesis .
qed

interpretation rocks: meta_engine rocks_good rocks_contents rocks_apply rocks_get rocks_scan rocks_snapshot
proof
  fix s assume g: "rocks_good s"
  note cf = rocks_cf_good [OF g]
  show "\<exists>s'. rocks_apply ops s = Ok s' \<and> rocks_good s' \<and> rocks_contents s' = store_apply ops (rocks_contents s)" for ops
  proof -
    have "map (\<lambda>op. rocks_cf (so_cf op) s) ops = map Inr (map (\<lambda>op. rocks_contents s (so_cf op)) ops)"
      by (simp add: cf)
    then show ?thesis using db_ops_good [OF g, of ops] by (simp only: rocks_apply_def collect_results_Ok and_then_simps) blast
  qed
  show "rocks_get s cf key = Ok (store_get (rocks_contents s) cf key)" for cf key
    by (simp add: rocks_get_def cf store_get_def)
  show "rocks_scan s cf start stop limit = Some (Ok (store_scan (rocks_contents s) cf start stop limit))"
    for cf start stop limit
    by (simp add: rocks_scan_def cf rocks_iterate_eq takeWhile_range store_scan_def)
  show "rocks_snapshot s ranges = Some (Ok (store_snapshot (rocks_contents s) ranges))" for ranges
  proof -
    have "map (rocks_range s) ranges = map Inr (map (range_entries (rocks_contents s)) ranges)"
      by (simp add: rocks_range_def cf range_entries_def takeWhile_range)
    then show ?thesis by (simp only: rocks_snapshot_def collect_results_Ok and_then_simps store_snapshot_def)
  qed
qed

section \<open>The pages of an export\<close>

text \<open>What is left of a range, and of an export, at a resume point.\<close>

definition range_from :: "store \<Rightarrow> key_range \<Rightarrow> bytes \<Rightarrow> export_entry list" where
  "range_from st r start = map (\<lambda>(k, v). (kr_cf r, k, v)) (kv_range start (Some (kr_end r)) (st (kr_cf r)))"

definition resume_start :: "key_range \<Rightarrow> bytes option \<Rightarrow> bytes" where
  "resume_start r resume = (case resume of Some k \<Rightarrow> k @ [0] | None \<Rightarrow> kr_start r)"

definition export_rest :: "store \<Rightarrow> key_range list \<Rightarrow> bytes option \<Rightarrow> export_entry list" where
  "export_rest st ranges resume =
     (case ranges of [] \<Rightarrow> [] | r # rs \<Rightarrow> range_from st r (resume_start r resume) @ store_snapshot st rs)"

lemma export_rest_None: "export_rest st ranges None = store_snapshot st ranges"
  by (cases ranges) (simp_all add: export_rest_def range_from_def resume_start_def store_snapshot_def range_entries_def)

lemma export_range_eq:
  "length entries \<le> limit \<Longrightarrow> export_range st r limit start entries =
     (entries @ take (limit - length entries) (range_from st r start), limit \<le> length entries + length (range_from st r start))"
proof (induction st r limit start entries rule: export_range.induct)
  case (1 st r limit start entries)
  let ?all = "kv_range start (Some (kr_end r)) (st (kr_cf r))"
  let ?tag = "map (\<lambda>(k, v). (kr_cf r, k, v))"
  let ?n = "limit - length entries"
  let ?page = "store_scan st (kr_cf r) start (kr_end r) ?n"
  consider "limit \<le> length entries" | "length entries < limit" "?page = []" | "length entries < limit" "?page \<noteq> []"
    by fastforce
  then show ?case
  proof cases
    case 1
    then show ?thesis using "1.prems" by (simp add: export_range.simps)
  next
    case 2
    then have "?all = []" by (simp add: store_scan_def)
    then show ?thesis using 2 by (simp add: export_range.simps range_from_def)
  next
    case 3
    have len: "length ?page = min (length ?all) ?n" by (simp add: store_scan_def)
    have rest: "kv_range (fst (last ?page) @ [0]) (Some (kr_end r)) (st (kr_cf r)) = drop ?n ?all"
      using kv_range_next_page [OF _ 3(2)] by (simp add: store_scan_def)
    have "export_range st r limit start entries = export_range st r limit (fst (last ?page) @ [0]) (entries @ ?tag ?page)"
      using 3 by (subst export_range.simps) (simp add: Let_def)
    also have "\<dots> = (entries @ ?tag ?page @ take (limit - length (entries @ ?tag ?page)) (?tag (drop ?n ?all)),
        limit \<le> length (entries @ ?tag ?page) + length (drop ?n ?all))"
      using "1.IH" [OF _ refl 3(2)] 3(1) len by (simp add: rest range_from_def)
    also have "\<dots> = (entries @ ?tag (take ?n ?all), limit \<le> length entries + length ?all)"
      using len 3(1) by (auto simp: store_scan_def take_map)
    finally show ?thesis by (simp add: take_map range_from_def)
  qed
qed

text \<open>A full page ends in some range, and what is left after its last key is the rest of the export.\<close>

lemma range_from_resume:
  assumes "0 < n" "n \<le> length (range_from st r start)"
  shows "range_from st r (fst (snd (last (take n (range_from st r start)))) @ [0]) = drop n (range_from st r start)"
proof -
  let ?all = "kv_range start (Some (kr_end r)) (st (kr_cf r))"
  have ne: "take n ?all \<noteq> []" using assms by (auto simp: range_from_def)
  have "fst (snd (last (take n (range_from st r start)))) = fst (last (take n ?all))"
    using ne by (simp add: range_from_def take_map last_map split_beta)
  then show ?thesis using kv_range_next_page [OF refl ne] by (simp add: range_from_def drop_map)
qed

lemma export_ranges_eq:
  assumes "length entries < limit"
  shows "if length (export_rest st (map snd irs) resume) < limit - length entries then
       export_ranges st limit irs resume entries = Some \<lparr>ep_entries = entries @ export_rest st (map snd irs) resume, ep_next = None\<rparr>
     else
      \<exists>j k. j < length irs \<and>
         export_ranges st limit irs resume entries =
           Some \<lparr>ep_entries = entries @ take (limit - length entries) (export_rest st (map snd irs) resume),
                 ep_next = Some \<lparr>range_index = fst (irs ! j), after_key = k\<rparr>\<rparr>
         \<and> export_rest st (map snd (drop j irs)) (Some k) = drop (limit - length entries) (export_rest st (map snd irs) resume)"
  using assms
proof (induction irs arbitrary: resume entries)
  case (Cons ir irs)
  obtain i r where ir: "ir = (i, r)" by (cases ir)
  let ?n = "limit - length entries"
  let ?R = "range_from st r (resume_start r resume)" and ?S = "store_snapshot st (map snd irs)"
  let ?m = "limit - length (entries @ ?R)"
  have rest: "export_rest st (map snd (ir # irs)) resume = ?R @ ?S" by (simp add: ir export_rest_def)
  have S: "export_rest st (map snd irs) None = ?S" by (rule export_rest_None)
  have step: "export_ranges st limit (ir # irs) resume entries =
      (if limit \<le> length entries + length ?R
       then Some \<lparr>ep_entries = entries @ take ?n ?R,
                  ep_next = Some \<lparr>range_index = i, after_key = fst (snd (last (entries @ take ?n ?R)))\<rparr>\<rparr>
       else export_ranges st limit irs None (entries @ ?R))"
    using Cons.prems by (auto simp: ir Let_def export_range_eq resume_start_def [symmetric])
  show ?case
  proof (cases "limit \<le> length entries + length ?R")
    case True
    let ?k = "fst (snd (last (entries @ take ?n ?R)))"
    have n: "0 < ?n" "?n \<le> length ?R" using Cons.prems True by auto
    then have "take ?n ?R \<noteq> []" by auto
    then have "range_from st r (?k @ [0]) = drop ?n ?R" using range_from_resume [OF n] by simp
    then have "export_rest st (map snd (drop 0 (ir # irs))) (Some ?k) = drop ?n (?R @ ?S)"
      using n by (simp add: ir export_rest_def resume_start_def)
    then have "\<exists>j k. j < length (ir # irs) \<and> export_ranges st limit (ir # irs) resume entries =
           Some \<lparr>ep_entries = entries @ take ?n (?R @ ?S), ep_next = Some \<lparr>range_index = fst ((ir # irs) ! j), after_key = k\<rparr>\<rparr>
         \<and> export_rest st (map snd (drop j (ir # irs))) (Some k) = drop ?n (?R @ ?S)"
      using step True n by (intro exI [of _ 0] exI [of _ ?k]) (simp add: ir)
    moreover have "\<not> length (?R @ ?S) < ?n" using n by simp
    ultimately show ?thesis unfolding rest by simp
  next
    case False
    have lt: "length (entries @ ?R) < limit" using False by simp
    have td: "take ?n (?R @ ?S) = ?R @ take ?m ?S" "drop ?n (?R @ ?S) = drop ?m ?S" using False by simp_all
    note ih = Cons.IH [OF lt, of None, unfolded S]
    show ?thesis
    proof (cases "length ?S < ?m")
      case True
      then have "length (?R @ ?S) < ?n" by simp
      then show ?thesis using step False ih True unfolding rest by simp
    next
      case nf: False
      then obtain j k where jk: "j < length irs"
        "export_ranges st limit irs None (entries @ ?R) =
           Some \<lparr>ep_entries = (entries @ ?R) @ take ?m ?S, ep_next = Some \<lparr>range_index = fst (irs ! j), after_key = k\<rparr>\<rparr>"
        "export_rest st (map snd (drop j irs)) (Some k) = drop ?m ?S" using ih by auto
      have "\<exists>j k. j < length (ir # irs) \<and> export_ranges st limit (ir # irs) resume entries =
           Some \<lparr>ep_entries = entries @ take ?n (?R @ ?S), ep_next = Some \<lparr>range_index = fst ((ir # irs) ! j), after_key = k\<rparr>\<rparr>
         \<and> export_rest st (map snd (drop j (ir # irs))) (Some k) = drop ?n (?R @ ?S)"
        unfolding td using step False jk by (intro exI [of _ "Suc j"] exI [of _ k]) simp
      moreover have "\<not> length (?R @ ?S) < ?n" using nf by simp
      ultimately show ?thesis unfolding rest by simp
    qed
  qed
qed (simp add: export_rest_def)

text \<open>One call: the next entries of the export, and a cursor to the rest unless it is exhausted.\<close>

definition cursor_rest :: "store \<Rightarrow> key_range list \<Rightarrow> export_cursor option \<Rightarrow> export_entry list" where
  "cursor_rest st ranges cursor =
     (case cursor of None \<Rightarrow> store_snapshot st ranges
      | Some c \<Rightarrow> export_rest st (drop (range_index c) ranges) (Some (after_key c)))"

lemma export_page_eq:
  assumes "0 < limit"
  shows "if length (cursor_rest st ranges cursor) < limit then
           export_page st ranges cursor limit = Some \<lparr>ep_entries = cursor_rest st ranges cursor, ep_next = None\<rparr>
         else \<exists>c. export_page st ranges cursor limit =
             Some \<lparr>ep_entries = take limit (cursor_rest st ranges cursor), ep_next = Some c\<rparr>
           \<and> cursor_rest st ranges (Some c) = drop limit (cursor_rest st ranges cursor)"
proof -
  obtain i resume where ir: "(case cursor of Some c \<Rightarrow> (range_index c, Some (after_key c)) | None \<Rightarrow> (0, None)) = (i, resume)"
    by (cases "case cursor of Some c \<Rightarrow> (range_index c, Some (after_key c)) | None \<Rightarrow> (0, None)")
  let ?irs = "drop i (zip [0..<length ranges] ranges)"
  have snds: "map snd (drop j ?irs) = drop (i + j) ranges" for j by (simp add: drop_map [symmetric] add.commute)
  have rest: "cursor_rest st ranges cursor = export_rest st (map snd ?irs) resume"
    using ir snds [of 0] by (cases cursor) (auto simp: cursor_rest_def export_rest_None)
  have fsts: "j < length ?irs \<Longrightarrow> fst (?irs ! j) = i + j" for j by simp
  have page: "export_page st ranges cursor limit = export_ranges st limit ?irs resume []"
    by (simp add: export_page_def ir)
  note e = export_ranges_eq [of "[]" limit st ?irs resume]
  show ?thesis
  proof (cases "length (export_rest st (map snd ?irs) resume) < limit")
    case True
    then show ?thesis using e assms unfolding page rest by simp
  next
    case False
    then obtain j k where jk: "j < length ?irs"
      "export_ranges st limit ?irs resume [] = Some \<lparr>ep_entries = take limit (export_rest st (map snd ?irs) resume),
         ep_next = Some \<lparr>range_index = fst (?irs ! j), after_key = k\<rparr>\<rparr>"
      "export_rest st (map snd (drop j ?irs)) (Some k) = drop limit (export_rest st (map snd ?irs) resume)"
      using e assms by auto
    have "cursor_rest st ranges (Some \<lparr>range_index = fst (?irs ! j), after_key = k\<rparr>) = export_rest st (map snd (drop j ?irs)) (Some k)"
      unfolding snds fsts [OF jk(1)] by (simp add: cursor_rest_def)
    then show ?thesis using False jk(2,3) unfolding page rest by auto
  qed
qed

lemma export_all_eq:
  assumes "0 < limit"
  shows "length (cursor_rest st ranges cursor) < fuel * limit \<Longrightarrow>
    export_all fuel st ranges cursor limit = Some (cursor_rest st ranges cursor)"
proof (induction fuel arbitrary: cursor)
  case (Suc fuel)
  let ?rest = "cursor_rest st ranges cursor"
  note e = export_page_eq [OF assms, of st ranges cursor]
  show ?case
  proof (cases "length ?rest < limit")
    case False
    then obtain c where c: "export_page st ranges cursor limit = Some \<lparr>ep_entries = take limit ?rest, ep_next = Some c\<rparr>"
      "cursor_rest st ranges (Some c) = drop limit ?rest" using e by auto
    have "length (drop limit ?rest) < fuel * limit" using Suc.prems False by simp
    then show ?thesis using Suc.IH [of "Some c"] c by simp
  qed (use e in simp)
qed simp

section \<open>Properties\<close>

text \<open>C28: Paged export is complete and terminates: for every positive page size, following the cursors from the
  start for at most one page more than the entries fill returns exactly the entries of a point-in-time
  snapshot of the ranges, in the same order.\<close>

theorem export_pages_complete:
  assumes "0 < limit"
  shows "export_all (length (store_snapshot st ranges) div limit + 1) st ranges None limit = Some (store_snapshot st ranges)"
proof -
  have "length (store_snapshot st ranges) < (length (store_snapshot st ranges) div limit + 1) * limit"
    using dividend_less_times_div [OF assms, of "length (store_snapshot st ranges)"] by (simp add: mult.commute)
  with export_all_eq [OF assms, of st ranges None] show ?thesis unfolding cursor_rest_def option.case by blast
qed

theorem export_pages_complete_witness:
  "export_all 2 (store_apply [op_put Meta [1] [7], op_put Meta [2] [8]] empty_store) [\<lparr>kr_cf = Meta, kr_start = [0], kr_end = [9]\<rparr>] None 2
     = Some [(Meta, [1], [7]), (Meta, [2], [8])]"
proof -
  let ?st = "store_apply [op_put Meta [1] [7], op_put Meta [2] [8]] empty_store"
  let ?r = "[\<lparr>kr_cf = Meta, kr_start = [0], kr_end = [9]\<rparr>]"
  have m: "?st Meta = fmupd [2] [8] (fmupd [1] [7] fmempty)"
    by (simp add: store_apply_def store_op_apply_def op_put_def empty_store_def)
  have "kv_range [0] (Some [9]) (?st Meta) = [([1], [7]), ([2], [8])]"
  proof (rule sorted_entries_unique)
    show "set (kv_range [0] (Some [9]) (?st Meta)) = set [([1], [7]), ([2], [8])]"
      unfolding m by (auto simp: set_kv_range split: if_splits)
  qed (auto intro: sorted_kv_range distinct_kv_range)
  then have s: "store_snapshot ?st ?r = [(Meta, [1], [7]), (Meta, [2], [8])]"
    by (simp add: store_snapshot_def range_entries_def)
  show ?thesis using export_pages_complete [of 2 ?st ?r] unfolding s by (simp add: numeral_2_eq_2)
qed



text \<open>A scan whose start lies behind its end panics in the memory engine and is empty in the other.\<close>

lemma reversed_scan_panics:
  assumes "stop < start"
  shows "mem_scan (mem_map_mut cf f e) cf start stop limit = None"
    and "rocks_good r \<Longrightarrow> rocks_scan r cf start stop limit = Some (Ok [])"
proof -
  show "mem_scan (mem_map_mut cf f e) cf start stop limit = None"
    using assms by (simp add: mem_scan_def mem_map_def mem_map_mut_def btree_range_def)
  have "kv_range start (Some stop) m = []" for m :: "(bytes, bytes) kv"
    using assms unfolding kv_range_def filter_empty_conv by (auto dest: order.strict_trans2)
  then show "rocks_good r \<Longrightarrow> rocks_scan r cf start stop limit = Some (Ok [])"
    by (simp add: rocks_scan_def rocks_cf_good rocks_iterate_eq takeWhile_range)
qed

end
