(* ===== verification/Meta_Values.thy ===== *)
theory Meta_Values
  imports Meta_Store
begin

text \<open>
  The value model of the metadata store: the shared content types of \<open>ns_common/mod.rs\<close>, the slice
  references and their extraction of \<open>ref_extractor.rs\<close>, the flat and multipart records of
  \<open>ns_flat\<close>, the tree records of \<open>ns_hier\<close>, and the inline guard of \<open>guard.rs\<close>.

  Values are stored as \<open>serde_json\<close> bytes. The JSON library is a parameter, one codec per stored type;
  what the code relies on is that encoding succeeds and that decoding gives the encoded value back.
\<close>

record slice =
  sl_chunk_id :: chunk_id
  sl_blob_ids :: "blob_id list"
  sl_blob_size :: u32

record pending_delete =
  pd_slices :: "slice list"
  pd_enqueue_ts :: i64

definition HEAD_EMBEDDED_SLICES :: nat where "HEAD_EMBEDDED_SLICES = 64"
definition SEGMENT_SLICES :: nat where "SEGMENT_SLICES = 1024"

datatype storage_class = Standard

record http_meta =
  hm_content_type :: "string option"
  hm_content_encoding :: "string option"
  hm_cache_control :: "string option"
  hm_user :: "(string, string) kv"

definition http_default :: http_meta where
  "http_default = \<lparr>hm_content_type = None, hm_content_encoding = None, hm_cache_control = None, hm_user = fmempty\<rparr>"

definition http_is_empty :: "http_meta \<Rightarrow> bool" where
  "http_is_empty h \<longleftrightarrow> hm_content_type h = None \<and> hm_content_encoding h = None \<and> hm_cache_control h = None \<and> hm_user h = fmempty"

datatype content_head = Inline bytes | Slices "slice list"

definition into_slices :: "content_head \<Rightarrow> slice list" where
  "into_slices c = (case c of Inline _ \<Rightarrow> [] | Slices ss \<Rightarrow> ss)"

definition inline_account :: "content_head \<Rightarrow> u64 \<times> u64" where
  "inline_account c = (case c of Inline bs \<Rightarrow> (of_nat (length bs), 1) | Slices _ \<Rightarrow> (0, 0))"

record slice_segment =
  sg_slices :: "slice list"

datatype meta_response = RNone | Rejected string | MintedIno u64

definition split_slices :: "slice list \<Rightarrow> slice list \<times> slice_segment list" where
  "split_slices ss =
     (if length ss \<le> HEAD_EMBEDDED_SLICES then (ss, [])
      else (take HEAD_EMBEDDED_SLICES ss,
            map (\<lambda>c. \<lparr>sg_slices = c\<rparr>) (chunks SEGMENT_SLICES (drop HEAD_EMBEDDED_SLICES ss))))"

section \<open>Flat and multipart records\<close>

record object_head =
  oh_size :: u64
  oh_etag :: bytes
  oh_mtime :: i64
  oh_storage :: storage_class
  oh_content :: content_head
  oh_seg_count :: u32
  oh_http :: http_meta

record upload_session =
  us_upload_id :: u128
  us_init_ts :: i64

record part_meta =
  pm_size :: u64
  pm_etag :: bytes
  pm_slices :: "slice list"

record part_ref =
  pr_part_no :: u32
  pr_etag :: bytes

section \<open>Tree records\<close>

record file_record =
  fr_ino :: u64
  fr_size :: u64
  fr_etag :: bytes
  fr_mtime :: i64
  fr_content :: content_head
  fr_seg_count :: u32
  fr_http :: http_meta

record dir_entry =
  de_ino :: u64

datatype dir_count = Exact u64 | Unknown

record dir_record =
  dr_ino :: u64
  dr_mtime :: i64
  dr_entry_count :: dir_count
  dr_parent_link :: "(u64 \<times> bytes) option"
  dr_created_ts :: i64

datatype fs_record = File file_record | Dir dir_entry | Sentinel dir_record

section \<open>Encoding\<close>

record 'a codec =
  to_vec :: "'a \<Rightarrow> bytes option"
  from_slice :: "bytes \<Rightarrow> 'a option"

definition encode :: "'a codec \<Rightarrow> 'a \<Rightarrow> (meta_store_error, bytes) result" where
  "encode c x = ok_or ValueCodec (to_vec c x)"

definition decode :: "'a codec \<Rightarrow> bytes \<Rightarrow> (meta_store_error, 'a) result" where
  "decode c bs = ok_or ValueCodec (from_slice c bs)"

definition codec_ok :: "'a codec \<Rightarrow> bool" where
  "codec_ok c \<longleftrightarrow> (\<forall>x. \<exists>bs. to_vec c x = Some bs \<and> from_slice c bs = Some x)"

record serde =
  sd_head :: "object_head codec"
  sd_segment :: "slice_segment codec"
  sd_session :: "upload_session codec"
  sd_part :: "part_meta codec"
  sd_pending :: "pending_delete codec"
  sd_fs :: "fs_record codec"

text \<open>What is relied on: every type round-trips, and a session record, which has none of the fields of a
  part, is not read as a part.\<close>

definition serde_ok :: "serde \<Rightarrow> bool" where
  "serde_ok j \<longleftrightarrow> codec_ok (sd_head j) \<and> codec_ok (sd_segment j) \<and> codec_ok (sd_session j) \<and> codec_ok (sd_part j)
     \<and> codec_ok (sd_pending j) \<and> codec_ok (sd_fs j)
     \<and> (\<forall>s bs. to_vec (sd_session j) s = Some bs \<longrightarrow> from_slice (sd_part j) bs = None)"

definition extract_refs :: "serde \<Rightarrow> meta_cf \<Rightarrow> bytes \<Rightarrow> slice list" where
  "extract_refs j cf val =
     (case cf of
        Meta \<Rightarrow> (case from_slice (sd_head j) val of Some h \<Rightarrow> into_slices (oh_content h) | None \<Rightarrow> [])
      | Fs \<Rightarrow> (case from_slice (sd_fs j) val of Some (File f) \<Rightarrow> into_slices (fr_content f) | _ \<Rightarrow> [])
      | MetaSeg \<Rightarrow> (case from_slice (sd_segment j) val of Some s \<Rightarrow> sg_slices s | None \<Rightarrow> [])
      | Upload \<Rightarrow> (case from_slice (sd_part j) val of Some p \<Rightarrow> pm_slices p | None \<Rightarrow> [])
      | _ \<Rightarrow> [])"

section \<open>The delete queue\<close>

fun enqueue_chunks ::
    "serde \<Rightarrow> u32 \<Rightarrow> slice list list \<Rightarrow> i64 \<Rightarrow> (u32 \<Rightarrow> bytes) \<Rightarrow> store_op list \<Rightarrow> (meta_store_error, u32 \<times> store_op list) result" where
  "enqueue_chunks j seg_no [] ts delq_key ops = Ok (seg_no, ops)"
| "enqueue_chunks j seg_no (c # cs) ts delq_key ops =
     and_then (encode (sd_pending j) \<lparr>pd_slices = c, pd_enqueue_ts = ts\<rparr>) (\<lambda>val.
       enqueue_chunks j (seg_no + 1) cs ts delq_key (ops @ [op_put Delq (delq_key seg_no) val]))"

definition enqueue_delete_slices ::
    "serde \<Rightarrow> u32 \<Rightarrow> slice list \<Rightarrow> i64 \<Rightarrow> (u32 \<Rightarrow> bytes) \<Rightarrow> store_op list \<Rightarrow> (meta_store_error, u32 \<times> store_op list) result" where
  "enqueue_delete_slices j first_seg_no ss ts delq_key ops =
     enqueue_chunks j first_seg_no (chunks SEGMENT_SLICES ss) ts delq_key ops"

section \<open>The inline guard\<close>

definition DEFAULT_INLINE_THRESHOLD :: u64 where "DEFAULT_INLINE_THRESHOLD = 128 * 1024"
definition HARD_INLINE_CAP :: u64 where "HARD_INLINE_CAP = 1024 * 1024"

definition resolve_threshold :: "u64 \<Rightarrow> u64 option \<Rightarrow> u64" where
  "resolve_threshold cluster_default bucket_override =
     min (case bucket_override of Some t \<Rightarrow> t | None \<Rightarrow> cluster_default) HARD_INLINE_CAP"

datatype inline_reject = Disabled | TooLarge u64 | RatioExceeded

record guard_delta =
  gd_inline_bytes :: i64
  gd_inline_count :: i64
  gd_total_bytes :: i64

definition no_guard_delta :: guard_delta where
  "no_guard_delta = \<lparr>gd_inline_bytes = 0, gd_inline_count = 0, gd_total_bytes = 0\<rparr>"

record partition_guard =
  pg_inline_bytes :: u64
  pg_inline_count :: u64
  pg_total_bytes :: u64
  pg_delq_depth :: u64

definition guard_new :: partition_guard where
  "guard_new = \<lparr>pg_inline_bytes = 0, pg_inline_count = 0, pg_total_bytes = 0, pg_delq_depth = 0\<rparr>"

definition guard_load :: "u64 \<Rightarrow> u64 \<Rightarrow> u64 \<Rightarrow> partition_guard \<Rightarrow> partition_guard" where
  "guard_load ib ic tb g = g\<lparr>pg_inline_bytes := ib, pg_inline_count := ic, pg_total_bytes := tb\<rparr>"

text \<open>\<open>u64::saturating_add_signed\<close>.\<close>

definition saturating_add_signed :: "u64 \<Rightarrow> i64 \<Rightarrow> u64" where
  "saturating_add_signed a d = (if 0 \<le> sint d then saturating_add a d else saturating_sub a (- d))"

definition guard_account :: "guard_delta \<Rightarrow> partition_guard \<Rightarrow> (u64 \<times> u64 \<times> u64) \<times> partition_guard" where
  "guard_account d g =
     (let ib = saturating_add_signed (pg_inline_bytes g) (gd_inline_bytes d);
          ic = saturating_add_signed (pg_inline_count g) (gd_inline_count d);
          tb = saturating_add_signed (pg_total_bytes g) (gd_total_bytes d)
      in ((ib, ic, tb), guard_load ib ic tb g))"

definition guard_counters :: "partition_guard \<Rightarrow> u64 \<times> u64 \<times> u64" where
  "guard_counters g = (pg_inline_bytes g, pg_inline_count g, pg_total_bytes g)"

definition load_delq_depth :: "u64 \<Rightarrow> partition_guard \<Rightarrow> partition_guard" where
  "load_delq_depth depth g = g\<lparr>pg_delq_depth := depth\<rparr>"

definition account_delq :: "i64 \<Rightarrow> partition_guard \<Rightarrow> u64 \<times> partition_guard" where
  "account_delq d g = (let depth = saturating_add_signed (pg_delq_depth g) d in (depth, g\<lparr>pg_delq_depth := depth\<rparr>))"

text \<open>The conversion of an unsigned integer to the nearest double, ties to even.\<close>

definition f64_of :: "nat \<Rightarrow> nat" where
  "f64_of n =
     (let s = (if n < 2 ^ 53 then 0 else length (takeWhile (\<lambda>i. 2 ^ (53 + i) \<le> n) [0..<64]));
          q = n div 2 ^ s; r = n mod 2 ^ s; half = 2 ^ s div 2
      in if s \<noteq> 0 \<and> (half < r \<or> (half = r \<and> odd q)) then (q + 1) * 2 ^ s else q * 2 ^ s)"

definition check_inline :: "u64 \<Rightarrow> u64 \<Rightarrow> partition_guard \<Rightarrow> (inline_reject, unit) result" where
  "check_inline payload_len threshold g =
     (if threshold = 0 then Err Disabled
      else if threshold < payload_len then Err (TooLarge payload_len)
      else
        let (inline_bytes, _, total_bytes) = guard_counters g in
        if 0 < total_bytes \<and> f64_of (unat total_bytes) < 2 * f64_of (unat inline_bytes) then Err RatioExceeded
        else Ok ())"

record apply_outcome =
  ao_ops :: "store_op list"
  ao_response :: meta_response
  ao_delta :: guard_delta

definition no_delta :: "store_op list \<Rightarrow> meta_response \<Rightarrow> apply_outcome" where
  "no_delta ops r = \<lparr>ao_ops = ops, ao_response = r, ao_delta = no_guard_delta\<rparr>"

section \<open>Lemmas\<close>

lemma codec_okE:
  assumes "codec_ok c"
  obtains bs where "to_vec c x = Some bs" "from_slice c bs = Some x"
  using assms by (auto simp: codec_ok_def)

lemma split_slices_concat: "split_slices ss = (emb, segs) \<Longrightarrow> emb @ concat (map sg_slices segs) = ss"
  by (auto simp: split_slices_def SEGMENT_SLICES_def comp_def concat_chunks split: if_splits)

lemma split_slices_bounds:
  "split_slices ss = (emb, segs) \<Longrightarrow>
     length emb \<le> HEAD_EMBEDDED_SLICES \<and> (\<forall>s \<in> set segs. sg_slices s \<noteq> [] \<and> length (sg_slices s) \<le> SEGMENT_SLICES)"
  using chunks_bounded [where n = SEGMENT_SLICES and xs = "drop HEAD_EMBEDDED_SLICES ss"]
  by (auto simp: split_slices_def split: if_splits)

text \<open>Encoding the delete queue succeeds and numbers the pieces from the first free number.\<close>

lemma enqueue_chunks_ok:
  assumes "codec_ok (sd_pending j)"
  shows "\<exists>vals. enqueue_chunks j n cs ts key ops =
       Ok (n + of_nat (length cs), ops @ map2 (\<lambda>i val. op_put Delq (key (n + of_nat i)) val) [0..<length cs] vals)
     \<and> length vals = length cs
     \<and> (\<forall>i < length cs. from_slice (sd_pending j) (vals ! i) = Some \<lparr>pd_slices = cs ! i, pd_enqueue_ts = ts\<rparr>)"
proof (induction cs arbitrary: n ops)
  case (Cons c cs)
  obtain v where v: "to_vec (sd_pending j) \<lparr>pd_slices = c, pd_enqueue_ts = ts\<rparr> = Some v"
    "from_slice (sd_pending j) v = Some \<lparr>pd_slices = c, pd_enqueue_ts = ts\<rparr>" using assms by (rule codec_okE)
  obtain vals where ih: "enqueue_chunks j (n + 1) cs ts key (ops @ [op_put Delq (key n) v]) =
       Ok (n + 1 + of_nat (length cs), (ops @ [op_put Delq (key n) v]) @
         map2 (\<lambda>i val. op_put Delq (key (n + 1 + of_nat i)) val) [0..<length cs] vals)"
    "length vals = length cs"
    "\<forall>i < length cs. from_slice (sd_pending j) (vals ! i) = Some \<lparr>pd_slices = cs ! i, pd_enqueue_ts = ts\<rparr>"
    using Cons.IH by blast
  have up: "[0..<Suc (length cs)] = 0 # map Suc [0..<length cs]" by (simp add: upt_conv_Cons map_Suc_upt del: upt_Suc)
  have shift: "map2 (\<lambda>i val. op_put Delq (key (n + of_nat i)) val) (map Suc [0..<length cs]) vals
      = map2 (\<lambda>i val. op_put Delq (key (n + 1 + of_nat i)) val) [0..<length cs] vals"
    by (simp add: zip_map1 split_beta comp_def add.assoc)
  show ?case
  proof (intro exI [of _ "v # vals"] conjI)
    show "enqueue_chunks j n (c # cs) ts key ops = Ok (n + of_nat (length (c # cs)),
        ops @ map2 (\<lambda>i val. op_put Delq (key (n + of_nat i)) val) [0..<length (c # cs)] (v # vals))"
      using ih(1) v(1) by (simp add: encode_def up shift del: upt_Suc)
    show "\<forall>i < length (c # cs). from_slice (sd_pending j) ((v # vals) ! i) = Some \<lparr>pd_slices = (c # cs) ! i, pd_enqueue_ts = ts\<rparr>"
      using ih(3) v(2) by (auto simp: less_Suc_eq_0_disj)
  qed (simp add: ih(2))
qed simp

end
