(* ===== verification/Meta_Flat.thy ===== *)
theory Meta_Flat
  imports Meta_Values
begin

text \<open>
  The flat namespace (\<open>epoch-meta/src/ns_flat\<close>): objects as a head record with overflow segments,
  multipart uploads, and the handlers that turn one replicated operation into a batch of store changes.
  Every handler reads the current store and returns the batch, the reply and the change of the inline
  counters. Old slice references leave through the delete queue in the same batch.
\<close>

datatype flat_op =
    FPut bucket_id bytes object_head i64
  | FDelete bucket_id bytes i64
  | FCreateMultipart bucket_id bytes u128 i64
  | FPutPart bucket_id bytes u128 u32 part_meta i64
  | FCompleteMultipart bucket_id bytes u128 "part_ref list" i64
  | FAbortMultipart bucket_id bytes u128 i64

section \<open>Objects\<close>

definition flat_enqueue ::
    "serde \<Rightarrow> bucket_id \<Rightarrow> bytes \<Rightarrow> u64 \<Rightarrow> u32 \<Rightarrow> slice list \<Rightarrow> i64 \<Rightarrow> store_op list
       \<Rightarrow> (meta_store_error, u32 \<times> store_op list) result" where
  "flat_enqueue j bucket key sq first_seg_no ss ts ops =
     enqueue_delete_slices j first_seg_no ss ts (\<lambda>seg_no. flat_key Delq bucket key (suffix_delq_seq sq seg_no)) ops"

definition pack :: "object_head \<Rightarrow> object_head \<times> slice_segment list" where
  "pack head =
     (case oh_content head of
        Inline _ \<Rightarrow> (head\<lparr>oh_seg_count := 0\<rparr>, [])
      | Slices ss \<Rightarrow>
          let (embedded, segments) = split_slices ss
          in (head\<lparr>oh_content := Slices embedded, oh_seg_count := of_nat (length segments)\<rparr>, segments))"

record capture_outcome =
  co_account :: "u64 \<times> u64 \<times> u64"
  co_next_seg_no :: u32

text \<open>The upper end of a scan over the keys with a prefix.\<close>

definition scan_end :: "meta_cf \<Rightarrow> bytes \<Rightarrow> bytes" where
  "scan_end cf p = (case prefix_end p of Some e \<Rightarrow> e | None \<Rightarrow> [cf_tag cf + 1])"

definition capture_old ::
    "serde \<Rightarrow> store \<Rightarrow> bucket_id \<Rightarrow> bytes \<Rightarrow> u64 \<Rightarrow> i64 \<Rightarrow> store_op list
       \<Rightarrow> (meta_store_error, capture_outcome \<times> store_op list) result" where
  "capture_old j st bucket key sq ts ops =
     (case store_get st Meta (flat_key Meta bucket key []) of
        None \<Rightarrow> Ok (\<lparr>co_account = (0, 0, 0), co_next_seg_no = 0\<rparr>, ops)
      | Some old_head \<Rightarrow>
          let account = (case decode (sd_head j) old_head of
                           Ok head \<Rightarrow> let (ib, ic) = inline_account (oh_content head) in (ib, ic, oh_size head)
                         | Err _ \<Rightarrow> (0, 0, 0));
              seg_start = flat_key MetaSeg bucket key [];
              segs = scan_pages st MetaSeg seg_start (scan_end MetaSeg seg_start) 1024;
              captured = extract_refs j Meta old_head @ concat (map (\<lambda>(_, val). extract_refs j MetaSeg val) segs)
          in and_then (flat_enqueue j bucket key sq 0 captured ts (ops @ map (\<lambda>(k, _). op_delete MetaSeg k) segs))
               (\<lambda>(next_seg_no, ops'). Ok (\<lparr>co_account = account, co_next_seg_no = next_seg_no\<rparr>, ops')))"

text \<open>The segments of a packed head, numbered from zero.\<close>

fun put_segments ::
    "serde \<Rightarrow> (u32 \<Rightarrow> bytes) \<Rightarrow> nat \<Rightarrow> slice_segment list \<Rightarrow> store_op list \<Rightarrow> (meta_store_error, store_op list) result" where
  "put_segments j seg_key seg_no [] ops = Ok ops"
| "put_segments j seg_key seg_no (segment # segments) ops =
     and_then (encode (sd_segment j) segment) (\<lambda>val.
       put_segments j seg_key (Suc seg_no) segments (ops @ [op_put MetaSeg (seg_key (of_nat seg_no)) val]))"

definition put_packed ::
    "serde \<Rightarrow> bucket_id \<Rightarrow> bytes \<Rightarrow> object_head \<Rightarrow> slice_segment list \<Rightarrow> store_op list \<Rightarrow> (meta_store_error, store_op list) result" where
  "put_packed j bucket key packed segments ops =
     and_then (encode (sd_head j) packed) (\<lambda>val.
       put_segments j (\<lambda>seg_no. flat_key MetaSeg bucket key (suffix_seg_no seg_no)) 0 segments
         (ops @ [op_put Meta (flat_key Meta bucket key []) val]))"

definition apply_put ::
    "serde \<Rightarrow> store \<Rightarrow> bucket_id \<Rightarrow> bytes \<Rightarrow> object_head \<Rightarrow> u64 \<Rightarrow> i64 \<Rightarrow> (meta_store_error, apply_outcome) result" where
  "apply_put j st bucket key new_head sq ts =
     and_then (capture_old j st bucket key sq ts []) (\<lambda>(out, ops).
       let (old_inline, old_count, old_total) = co_account out;
           (packed, segments) = pack new_head
       in and_then (put_packed j bucket key packed segments ops) (\<lambda>ops'.
            let (new_inline, new_count) = inline_account (oh_content packed)
            in Ok \<lparr>ao_ops = ops', ao_response = RNone,
                   ao_delta = \<lparr>gd_inline_bytes = new_inline - old_inline, gd_inline_count = new_count - old_count,
                               gd_total_bytes = oh_size new_head - old_total\<rparr>\<rparr>))"

definition apply_delete ::
    "serde \<Rightarrow> store \<Rightarrow> bucket_id \<Rightarrow> bytes \<Rightarrow> u64 \<Rightarrow> i64 \<Rightarrow> (meta_store_error, apply_outcome) result" where
  "apply_delete j st bucket key sq ts =
     and_then (capture_old j st bucket key sq ts []) (\<lambda>(out, ops).
       let (old_inline, old_count, old_total) = co_account out
       in Ok \<lparr>ao_ops = ops @ [op_delete Meta (flat_key Meta bucket key [])], ao_response = RNone,
              ao_delta = \<lparr>gd_inline_bytes = - old_inline, gd_inline_count = - old_count, gd_total_bytes = - old_total\<rparr>\<rparr>)"

definition get_head :: "serde \<Rightarrow> store \<Rightarrow> bucket_id \<Rightarrow> bytes \<Rightarrow> (meta_store_error, object_head option) result" where
  "get_head j st bucket key =
     (case store_get st Meta (flat_key Meta bucket key []) of
        None \<Rightarrow> Ok None
      | Some bs \<Rightarrow> and_then (decode (sd_head j) bs) (\<lambda>h. Ok (Some h)))"

definition get_segment :: "serde \<Rightarrow> store \<Rightarrow> bucket_id \<Rightarrow> bytes \<Rightarrow> u32 \<Rightarrow> (meta_store_error, slice_segment option) result" where
  "get_segment j st bucket key seg_no =
     (case store_get st MetaSeg (flat_key MetaSeg bucket key (suffix_seg_no seg_no)) of
        None \<Rightarrow> Ok None
      | Some bs \<Rightarrow> and_then (decode (sd_segment j) bs) (\<lambda>s. Ok (Some s)))"

definition list_objects ::
    "serde \<Rightarrow> store \<Rightarrow> bucket_id \<Rightarrow> bytes \<Rightarrow> bytes option \<Rightarrow> nat \<Rightarrow> (meta_store_error, (bytes \<times> object_head) list) result" where
  "list_objects j st bucket pfx start_after limit =
     (let start = flat_key Meta bucket (case start_after of Some a \<Rightarrow> a | None \<Rightarrow> pfx) [];
          start' = (if start_after \<noteq> None then start @ [0] else start);
          stop = scan_end Meta (flat_key Meta bucket pfx [])
      in collect_results (map (\<lambda>(k, val). and_then (decode (sd_head j) val) (\<lambda>head. Ok (drop 9 k, head)))
           (store_scan st Meta start' stop limit)))"

section \<open>Multipart uploads\<close>

definition upload_key :: "bucket_id \<Rightarrow> bytes \<Rightarrow> u128 \<Rightarrow> u32 \<Rightarrow> bytes" where
  "upload_key bucket key upload_id part_no = flat_key Upload bucket key (suffix_upload_part upload_id part_no)"

definition upload_prefix :: "bucket_id \<Rightarrow> bytes \<Rightarrow> u128 \<Rightarrow> bytes" where
  "upload_prefix bucket key upload_id = flat_key Upload bucket key (to_be_bytes 16 upload_id)"

definition part_no_of :: "bytes \<Rightarrow> u32 option" where
  "part_no_of key =
     (let tail = drop (length key - 4) key in if length tail = 4 then Some (from_be_bytes tail) else None)"

definition parse_upload_key :: "bytes \<Rightarrow> (bucket_id \<times> bytes \<times> u128) option" where
  "parse_upload_key key =
     (case key of
        [] \<Rightarrow> None
      | tag # rest \<Rightarrow>
          if tag \<noteq> cf_tag Upload \<or> length rest < 28 then None
          else
            let body = drop 8 rest; n = length body - 20
            in Some (BucketId (from_be_bytes (take 8 rest)), take n body, from_be_bytes (take 16 (drop n body))))"

definition scan_session :: "store \<Rightarrow> bucket_id \<Rightarrow> bytes \<Rightarrow> u128 \<Rightarrow> kv_page" where
  "scan_session st bucket key upload_id =
     (let p = upload_prefix bucket key upload_id in scan_pages st Upload p (scan_end Upload p) 4096)"

definition apply_create :: "serde \<Rightarrow> store \<Rightarrow> bucket_id \<Rightarrow> bytes \<Rightarrow> u128 \<Rightarrow> i64 \<Rightarrow> (meta_store_error, apply_outcome) result" where
  "apply_create j st bucket key upload_id ts =
     (let session_key = upload_key bucket key upload_id 0 in
      if store_get st Upload session_key \<noteq> None then Ok (no_delta [] RNone)
      else and_then (encode (sd_session j) \<lparr>us_upload_id = upload_id, us_init_ts = ts\<rparr>) (\<lambda>val.
             Ok (no_delta [op_put Upload session_key val] RNone)))"

definition apply_put_part ::
    "serde \<Rightarrow> store \<Rightarrow> bucket_id \<Rightarrow> bytes \<Rightarrow> u128 \<Rightarrow> u32 \<Rightarrow> part_meta \<Rightarrow> u64 \<Rightarrow> i64 \<Rightarrow> (meta_store_error, apply_outcome) result" where
  "apply_put_part j st bucket key upload_id part_no part sq ts =
     (if store_get st Upload (upload_key bucket key upload_id 0) = None then Ok (no_delta [] (Rejected ''unknown upload id''))
      else
        let part_key = upload_key bucket key upload_id part_no in
        and_then
          (case store_get st Upload part_key of
             None \<Rightarrow> Ok (0, [])
           | Some old \<Rightarrow> flat_enqueue j bucket key sq 0 (extract_refs j Upload old) ts []) (\<lambda>(_, ops).
        and_then (encode (sd_part j) part) (\<lambda>val.
          Ok (no_delta (ops @ [op_put Upload part_key val]) RNone))))"

text \<open>The listed parts in order: a rejection (its message here without the part number), or the assembled
  size and slices.\<close>

fun assemble ::
    "serde \<Rightarrow> store \<Rightarrow> bucket_id \<Rightarrow> bytes \<Rightarrow> u128 \<Rightarrow> part_ref list \<Rightarrow> u64 \<Rightarrow> slice list
       \<Rightarrow> (meta_store_error, string + (u64 \<times> slice list)) result" where
  "assemble j st bucket key upload_id [] sz ss = Ok (Inr (sz, ss))"
| "assemble j st bucket key upload_id (p # ps) sz ss =
     (case store_get st Upload (upload_key bucket key upload_id (pr_part_no p)) of
        None \<Rightarrow> Ok (Inl ''part missing'')
      | Some raw \<Rightarrow>
          and_then (decode (sd_part j) raw) (\<lambda>part.
            if pm_etag part \<noteq> pr_etag p then Ok (Inl ''part etag mismatch'')
            else assemble j st bucket key upload_id ps (saturating_add sz (pm_size part)) (ss @ pm_slices part)))"

text \<open>Discarding the entries of a session; the slices of parts outside the listed ones are captured.\<close>

fun discard_session ::
    "serde \<Rightarrow> bucket_id \<Rightarrow> bytes \<Rightarrow> u64 \<Rightarrow> i64 \<Rightarrow> (u32 \<Rightarrow> bool) \<Rightarrow> kv_page \<Rightarrow> u32 \<Rightarrow> store_op list
       \<Rightarrow> (meta_store_error, u32 \<times> store_op list) result" where
  "discard_session j bucket key sq ts listed [] next_seg_no ops = Ok (next_seg_no, ops)"
| "discard_session j bucket key sq ts listed ((entry_key, raw) # entries) next_seg_no ops =
     and_then
       (case part_no_of entry_key of
          Some part_no \<Rightarrow>
            if part_no \<noteq> 0 \<and> \<not> listed part_no
            then flat_enqueue j bucket key sq next_seg_no (extract_refs j Upload raw) ts ops
            else Ok (next_seg_no, ops)
        | None \<Rightarrow> Ok (next_seg_no, ops)) (\<lambda>(next_seg_no', ops').
     discard_session j bucket key sq ts listed entries next_seg_no' (ops' @ [op_delete Upload entry_key]))"

definition multipart_etag :: "(bytes \<Rightarrow> bytes) \<Rightarrow> part_ref list \<Rightarrow> bytes" where
  "multipart_etag blake3 parts = take 16 (blake3 (concat (map pr_etag parts)))"

definition apply_complete ::
    "serde \<Rightarrow> (bytes \<Rightarrow> bytes) \<Rightarrow> store \<Rightarrow> bucket_id \<Rightarrow> bytes \<Rightarrow> u128 \<Rightarrow> part_ref list \<Rightarrow> u64 \<Rightarrow> i64
       \<Rightarrow> (meta_store_error, apply_outcome) result" where
  "apply_complete j blake3 st bucket key upload_id parts sq ts =
     (if store_get st Upload (upload_key bucket key upload_id 0) = None then Ok (no_delta [] (Rejected ''unknown upload id''))
      else if parts = [] then Ok (no_delta [] (Rejected ''empty part list''))
      else
        and_then (assemble j st bucket key upload_id parts 0 []) (\<lambda>r.
          case r of
            Inl reason \<Rightarrow> Ok (no_delta [] (Rejected reason))
          | Inr (sz, ss) \<Rightarrow>
              and_then (capture_old j st bucket key sq ts []) (\<lambda>(out, ops).
              let (old_inline, old_count, old_total) = co_account out in
              and_then (discard_session j bucket key sq ts (\<lambda>n. n \<in> set (map pr_part_no parts))
                          (scan_session st bucket key upload_id) (co_next_seg_no out) ops) (\<lambda>(_, ops').
              let head = \<lparr>oh_size = sz, oh_etag = multipart_etag blake3 parts, oh_mtime = ts, oh_storage = Standard,
                          oh_content = Slices ss, oh_seg_count = 0, oh_http = http_default\<rparr>;
                  (packed, segments) = pack head
              in and_then (put_packed j bucket key packed segments ops') (\<lambda>ops''.
                   Ok \<lparr>ao_ops = ops'', ao_response = RNone,
                       ao_delta = \<lparr>gd_inline_bytes = - old_inline, gd_inline_count = - old_count,
                                   gd_total_bytes = sz - old_total\<rparr>\<rparr>)))))"

definition apply_abort ::
    "serde \<Rightarrow> store \<Rightarrow> bucket_id \<Rightarrow> bytes \<Rightarrow> u128 \<Rightarrow> u64 \<Rightarrow> i64 \<Rightarrow> (meta_store_error, apply_outcome) result" where
  "apply_abort j st bucket key upload_id sq ts =
     (if store_get st Upload (upload_key bucket key upload_id 0) = None then Ok (no_delta [] RNone)
      else and_then (discard_session j bucket key sq ts (\<lambda>_. False) (scan_session st bucket key upload_id) 0 []) (\<lambda>(_, ops).
             Ok (no_delta ops RNone)))"

fun flat_apply :: "serde \<Rightarrow> (bytes \<Rightarrow> bytes) \<Rightarrow> store \<Rightarrow> flat_op \<Rightarrow> u64 \<Rightarrow> (meta_store_error, apply_outcome) result" where
  "flat_apply j blake3 st (FPut bucket key head ts) sq = apply_put j st bucket key head sq ts"
| "flat_apply j blake3 st (FDelete bucket key ts) sq = apply_delete j st bucket key sq ts"
| "flat_apply j blake3 st (FCreateMultipart bucket key upload_id ts) sq = apply_create j st bucket key upload_id ts"
| "flat_apply j blake3 st (FPutPart bucket key upload_id part_no part ts) sq =
     apply_put_part j st bucket key upload_id part_no part sq ts"
| "flat_apply j blake3 st (FCompleteMultipart bucket key upload_id parts ts) sq =
     apply_complete j blake3 st bucket key upload_id parts sq ts"
| "flat_apply j blake3 st (FAbortMultipart bucket key upload_id ts) sq = apply_abort j st bucket key upload_id sq ts"

text \<open>The sessions past their time to live, as the sweep of the partition leader collects them.\<close>

definition expired_sessions ::
    "serde \<Rightarrow> store \<Rightarrow> bytes \<Rightarrow> bytes \<Rightarrow> i64 \<Rightarrow> (meta_store_error, (bucket_id \<times> bytes \<times> u128) list) result" where
  "expired_sessions j st start stop expire_before =
     and_then
       (collect_results (map (\<lambda>(k, val).
          if part_no_of k \<noteq> Some 0 then Ok None
          else and_then (decode (sd_session j) val) (\<lambda>s.
                 Ok (if sint (us_init_ts s) \<le> sint expire_before then parse_upload_key k else None)))
          (scan_pages st Upload start stop 1024)))
       (\<lambda>xs. Ok (map the (filter (\<lambda>x. x \<noteq> None) xs)))"

section \<open>The complete object\<close>

text \<open>The metadata read of a GET: an inline body, or the embedded slices followed by every segment in order.
  A segment that the head claims and the store lacks is an internal error.\<close>

datatype read_error = ReadStore meta_store_error | SegmentAbsent u32

fun read_segments :: "serde \<Rightarrow> store \<Rightarrow> bucket_id \<Rightarrow> bytes \<Rightarrow> nat list \<Rightarrow> (read_error, slice list) result" where
  "read_segments j st bucket key [] = Ok []"
| "read_segments j st bucket key (n # ns) =
     and_then (map_err ReadStore (get_segment j st bucket key (of_nat n))) (\<lambda>s.
     and_then (ok_or (SegmentAbsent (of_nat n)) s) (\<lambda>segment.
     and_then (read_segments j st bucket key ns) (\<lambda>rest. Ok (sg_slices segment @ rest))))"

definition get_object_meta :: "serde \<Rightarrow> store \<Rightarrow> bucket_id \<Rightarrow> bytes \<Rightarrow> (read_error, (object_head \<times> content_head) option) result" where
  "get_object_meta j st bucket key =
     and_then (map_err ReadStore (get_head j st bucket key)) (\<lambda>h.
       case h of
         None \<Rightarrow> Ok None
       | Some head \<Rightarrow>
           (case oh_content head of
              Inline bs \<Rightarrow> Ok (Some (head, Inline bs))
            | Slices embedded \<Rightarrow>
                and_then (read_segments j st bucket key [0..<unat (oh_seg_count head)]) (\<lambda>ss.
                  Ok (Some (head, Slices (embedded @ ss))))))"

end
