(* ===== verification/Meta_Refs.thy ===== *)
theory Meta_Refs
  imports Meta_Flat "HOL-Library.Multiset"
begin

text \<open>
  Reference accounting of the metadata store: the multiset of all slice references a store holds, in object
  heads, overflow segments, uploaded parts, files and the delete queue, and how a batch of store changes moves
  them. The flat handlers are shown to keep the account exact.
\<close>

section \<open>Sums over a finite map\<close>

definition kv_sum :: "('v \<Rightarrow> 'a::comm_monoid_add) \<Rightarrow> ('k, 'v) kv \<Rightarrow> 'a" where
  "kv_sum f m = (\<Sum>k \<in> fmdom' m. f (the (fmlookup m k)))"

definition kv_at :: "('v \<Rightarrow> 'a::comm_monoid_add) \<Rightarrow> ('k, 'v) kv \<Rightarrow> 'k \<Rightarrow> 'a" where
  "kv_at f m k = (case fmlookup m k of None \<Rightarrow> 0 | Some v \<Rightarrow> f v)"

lemma kv_sum_split: "kv_sum f m = kv_at f m k + (\<Sum>x \<in> fmdom' m - {k}. f (the (fmlookup m x)))"
proof (cases "fmlookup m k")
  case None
  then have "fmdom' m - {k} = fmdom' m" by (auto simp: fmlookup_dom'_iff)
  then show ?thesis using None by (simp add: kv_sum_def kv_at_def)
next
  case (Some v)
  then have "k \<in> fmdom' m" by (auto simp: fmlookup_dom'_iff)
  then show ?thesis using Some by (simp add: kv_sum_def kv_at_def sum.remove)
qed

lemma kv_sum_upd: "kv_sum f (fmupd k v m) + kv_at f m k = kv_sum f m + f v"
proof -
  have "(\<Sum>x \<in> fmdom' (fmupd k v m) - {k}. f (the (fmlookup (fmupd k v m) x))) = (\<Sum>x \<in> fmdom' m - {k}. f (the (fmlookup m x)))"
    by (rule sum.cong) auto
  then show ?thesis using kv_sum_split [of f m k] kv_sum_split [of f "fmupd k v m" k]
    by (simp add: kv_at_def [of f "fmupd k v m"] add_ac)
qed

lemma kv_sum_drop: "kv_sum f (fmdrop k m) + kv_at f m k = kv_sum f m"
proof -
  have "(\<Sum>x \<in> fmdom' (fmdrop k m) - {k}. f (the (fmlookup (fmdrop k m) x))) = (\<Sum>x \<in> fmdom' m - {k}. f (the (fmlookup m x)))"
    by (rule sum.cong) auto
  then show ?thesis using kv_sum_split [of f m k] kv_sum_split [of f "fmdrop k m" k]
    by (simp add: kv_at_def [of f "fmdrop k m"] add_ac)
qed

section \<open>References of a store\<close>

definition refs_of :: "serde \<Rightarrow> meta_cf \<Rightarrow> bytes \<Rightarrow> slice multiset" where
  "refs_of j cf val =
     (if cf = Delq then (case from_slice (sd_pending j) val of Some p \<Rightarrow> mset (pd_slices p) | None \<Rightarrow> {#})
      else mset (extract_refs j cf val))"

definition every_cf :: "meta_cf set" where
  "every_cf = {Meta, Fs, MetaSeg, Upload, Delq, Ttl, Applied}"

lemma every_cf [simp, intro]: "finite every_cf" "cf \<in> every_cf"
  by (cases cf; simp add: every_cf_def)+

definition store_refs :: "serde \<Rightarrow> store \<Rightarrow> slice multiset" where
  "store_refs j st = (\<Sum>cf \<in> every_cf. kv_sum (refs_of j cf) (st cf))"

definition held :: "serde \<Rightarrow> store \<Rightarrow> meta_cf \<Rightarrow> bytes \<Rightarrow> slice multiset" where
  "held j st cf key = kv_at (refs_of j cf) (st cf) key"

lemma store_refs_split: "store_refs j st = kv_sum (refs_of j cf) (st cf) + (\<Sum>c \<in> every_cf - {cf}. kv_sum (refs_of j c) (st c))"
  unfolding store_refs_def by (rule sum.remove) simp_all

lemma store_refs_upd:
  assumes "kv_sum (refs_of j cf) m + a = kv_sum (refs_of j cf) (st cf) + b"
  shows "store_refs j (st(cf := m)) + a = store_refs j st + b"
proof -
  have "(\<Sum>c \<in> every_cf - {cf}. kv_sum (refs_of j c) ((st(cf := m)) c)) = (\<Sum>c \<in> every_cf - {cf}. kv_sum (refs_of j c) (st c))"
    by (rule sum.cong) auto
  then show ?thesis using assms store_refs_split [of j st cf] store_refs_split [of j "st(cf := m)" cf]
    by (simp add: ac_simps)
qed

lemma store_refs_put:
  "store_refs j (store_op_apply (op_put cf key val) st) + held j st cf key = store_refs j st + refs_of j cf val"
  unfolding store_op_apply_def op_put_def held_def by simp (rule store_refs_upd, rule kv_sum_upd)

lemma store_refs_delete: "store_refs j (store_op_apply (op_delete cf key) st) + held j st cf key = store_refs j st"
  using store_refs_upd [of j cf "fmdrop key (st cf)" "held j st cf key" st "{#}"] kv_sum_drop [of "refs_of j cf" key "st cf"]
  unfolding store_op_apply_def op_delete_def held_def by simp

lemma held_le: "held j st cf key \<subseteq># store_refs j st"
  using store_refs_delete [of j cf key st] by (metis mset_subset_eq_add_right)

section \<open>Lookups after a batch\<close>

lemma store_apply_Nil [simp]: "store_apply [] st = st"
  and store_apply_Cons [simp]: "store_apply (op # ops) st = store_apply ops (store_op_apply op st)"
  and store_apply_append [simp]: "store_apply (ops @ ops') st = store_apply ops' (store_apply ops st)"
  by (simp_all add: store_apply_def)

lemma lookup_put [simp]:
  "fmlookup (store_op_apply (op_put cf key val) st c) k = (if c = cf \<and> k = key then Some val else fmlookup (st c) k)"
  by (simp add: store_op_apply_def op_put_def)

lemma lookup_delete [simp]:
  "fmlookup (store_op_apply (op_delete cf key) st c) k = (if c = cf \<and> k = key then None else fmlookup (st c) k)"
  by (simp add: store_op_apply_def op_delete_def)

text \<open>Deletes of keys, and puts of pairs, in one column family.\<close>

definition deletes :: "meta_cf \<Rightarrow> bytes list \<Rightarrow> store_op list" where
  "deletes cf keys = map (op_delete cf) keys"

definition puts :: "meta_cf \<Rightarrow> (bytes \<times> bytes) list \<Rightarrow> store_op list" where
  "puts cf kvs = map (\<lambda>(k, v). op_put cf k v) kvs"

lemma lookup_deletes:
  "fmlookup (store_apply (deletes cf keys) st c) k = (if c = cf \<and> k \<in> set keys then None else fmlookup (st c) k)"
  unfolding deletes_def by (induction keys arbitrary: st) auto

lemma lookup_puts:
  "fmlookup (store_apply (puts cf kvs) st c) k =
     (case map_of (rev kvs) k of Some v \<Rightarrow> if c = cf then Some v else fmlookup (st c) k | None \<Rightarrow> fmlookup (st c) k)"
  unfolding puts_def
proof (induction kvs arbitrary: st)
  case (Cons kv kvs)
  obtain a b where "kv = (a, b)" by (cases kv)
  then show ?case using Cons.IH by (auto simp: map_add_def split: option.splits)
qed simp

lemma store_refs_deletes:
  "distinct keys \<Longrightarrow> store_refs j (store_apply (deletes cf keys) st) + (\<Sum>k \<leftarrow> keys. held j st cf k) = store_refs j st"
  unfolding deletes_def
proof (induction keys arbitrary: st)
  case (Cons k keys)
  let ?st = "store_op_apply (op_delete cf k) st"
  have "held j ?st cf x = held j st cf x" if "x \<in> set keys" for x
    using that Cons.prems by (auto simp: held_def kv_at_def)
  then have "(\<Sum>x \<leftarrow> keys. held j ?st cf x) = (\<Sum>x \<leftarrow> keys. held j st cf x)" by (simp cong: map_cong)
  then show ?case using Cons.IH [of ?st] Cons.prems store_refs_delete [of j cf k st]
    by (simp add: ac_simps)
qed simp

lemma store_refs_puts:
  "distinct (map fst kvs) \<Longrightarrow> \<forall>(k, _) \<in> set kvs. fmlookup (st cf) k = None \<Longrightarrow>
     store_refs j (store_apply (puts cf kvs) st) = store_refs j st + (\<Sum>(_, v) \<leftarrow> kvs. refs_of j cf v)"
  unfolding puts_def
proof (induction kvs arbitrary: st)
  case (Cons kv kvs)
  obtain k v where kv: "kv = (k, v)" by (cases kv)
  let ?st = "store_op_apply (op_put cf k v) st"
  have fresh: "held j st cf k = {#}" using Cons.prems(2) by (simp add: kv held_def kv_at_def)
  have "\<forall>(x, _) \<in> set kvs. fmlookup (?st cf) x = None" using Cons.prems kv by force
  then show ?case using Cons.IH [of ?st] Cons.prems(1) store_refs_put [of j cf k v st] fresh
    by (simp add: kv ac_simps)
qed simp

section \<open>Scans of a prefix\<close>

lemma scan_prefix:
  assumes "cf \<noteq> Applied" "0 < limit"
  shows "scan_pages st cf (flat_key cf b k s) (scan_end cf (flat_key cf b k s)) limit = kv_prefix_scan (flat_key cf b k s) (st cf)"
proof -
  obtain e where e: "prefix_end (flat_key cf b k s) = Some e" using prefix_end_key [OF assms(1)] by blast
  have "kv_range (flat_key cf b k s) (Some e) (st cf) = kv_prefix_scan (flat_key cf b k s) (st cf)"
    unfolding kv_prefix_scan_filter kv_range_def
    by (rule filter_cong) (auto simp: prefix_end_Some [OF e])
  then show ?thesis by (simp add: scan_pages_eq [OF assms(2)] scan_end_def e)
qed

section \<open>The delete queue\<close>

lemma length_chunks: "0 < n \<Longrightarrow> length (chunks n xs) \<le> length xs"
proof (induction n xs rule: chunks.induct)
  case (1 n xs)
  show ?case
  proof (cases "xs = []")
    case False
    then have "length (chunks n (drop n xs)) \<le> length xs - n" using 1 by simp
    moreover have "0 < length xs" using False by simp
    ultimately show ?thesis using False "1.prems" by (subst chunks.simps) (simp del: length_greater_0_conv)
  qed simp
qed

definition delq_key :: "bucket_id \<Rightarrow> bytes \<Rightarrow> u64 \<Rightarrow> nat \<Rightarrow> bytes" where
  "delq_key b key sq n = flat_key Delq b key (suffix_delq_seq sq (of_nat n))"

text \<open>The pending entries of one delete event, numbered upwards from some number.\<close>

definition delq_batch :: "serde \<Rightarrow> bucket_id \<Rightarrow> bytes \<Rightarrow> u64 \<Rightarrow> nat \<Rightarrow> slice multiset \<Rightarrow> (bytes \<times> bytes) list \<Rightarrow> bool" where
  "delq_batch j b key sq n refs kvs \<longleftrightarrow>
     map fst kvs = map (\<lambda>i. delq_key b key sq (n + i)) [0..<length kvs]
     \<and> (\<Sum>(_, v) \<leftarrow> kvs. refs_of j Delq v) = refs \<and> length kvs \<le> size refs"

lemma sum_list_mset_chunks: "(\<Sum>c \<leftarrow> cs. mset c) = mset (concat cs)"
  by (induction cs) auto

lemma flat_enqueue_ok:
  assumes "serde_ok j"
  shows "\<exists>kvs. flat_enqueue j b key sq (of_nat n) ss ts ops = Ok (of_nat (n + length kvs), ops @ puts Delq kvs)
    \<and> delq_batch j b key sq n (mset ss) kvs"
proof -
  let ?cs = "chunks SEGMENT_SLICES ss" and ?key = "\<lambda>i. flat_key Delq b key (suffix_delq_seq sq i)"
  obtain vals where v: "enqueue_chunks j (of_nat n) ?cs ts ?key ops =
       Ok (of_nat n + of_nat (length ?cs), ops @ map2 (\<lambda>i val. op_put Delq (?key (of_nat n + of_nat i)) val) [0..<length ?cs] vals)"
    "length vals = length ?cs"
    "\<forall>i < length ?cs. from_slice (sd_pending j) (vals ! i) = Some \<lparr>pd_slices = ?cs ! i, pd_enqueue_ts = ts\<rparr>"
    using enqueue_chunks_ok [of j "of_nat n" ?cs ts ?key ops] assms by (auto simp: serde_ok_def)
  let ?kvs = "zip (map (\<lambda>i. delq_key b key sq (n + i)) [0..<length ?cs]) vals"
  have ops: "map2 (\<lambda>i val. op_put Delq (?key (of_nat n + of_nat i)) val) [0..<length ?cs] vals = puts Delq ?kvs"
    by (simp add: puts_def zip_map1 split_beta comp_def delq_key_def)
  have "map (\<lambda>(_, v). refs_of j Delq v) ?kvs = map mset ?cs"
    by (rule nth_equalityI) (auto simp: v(2,3) refs_of_def)
  then have "(\<Sum>(_, v) \<leftarrow> ?kvs. refs_of j Delq v) = mset ss"
    by (simp add: sum_list_mset_chunks concat_chunks SEGMENT_SLICES_def)
  moreover have "length ?kvs \<le> length ss" using v(2) length_chunks [of SEGMENT_SLICES ss] by (simp add: SEGMENT_SLICES_def)
  ultimately have "delq_batch j b key sq n (mset ss) ?kvs" using v(2) by (simp add: delq_batch_def)
  moreover have "flat_enqueue j b key sq (of_nat n) ss ts ops = Ok (of_nat (n + length ?kvs), ops @ puts Delq ?kvs)"
    using v(1,2) by (simp add: flat_enqueue_def enqueue_delete_slices_def ops)
  ultimately show ?thesis by blast
qed

lemma delq_key_inject: "m < 2 ^ 32 \<Longrightarrow> n < 2 ^ 32 \<Longrightarrow> delq_key b k s m = delq_key b k s n \<longleftrightarrow> m = n"
  by (auto simp: delq_key_def unsigned_of_nat take_bit_nat_eq_self dest!: arg_cong [where f = unat])

lemma delq_batch_puts:
  assumes "delq_batch j b key sq n refs kvs" "n + size refs < 2 ^ 32"
    and "\<And>i. n \<le> i \<Longrightarrow> i < 2 ^ 32 \<Longrightarrow> fmlookup (st Delq) (delq_key b key sq i) = None"
  shows "store_refs j (store_apply (puts Delq kvs) st) = store_refs j st + refs"
proof -
  have keys: "map fst kvs = map (\<lambda>i. delq_key b key sq (n + i)) [0..<length kvs]" and le: "length kvs \<le> size refs"
    and sum: "(\<Sum>(_, v) \<leftarrow> kvs. refs_of j Delq v) = refs" using assms(1) by (auto simp: delq_batch_def)
  have "distinct (map fst kvs)" unfolding keys
    using le assms(2) by (auto simp: distinct_map inj_on_def delq_key_inject)
  moreover have "\<forall>(k, _) \<in> set kvs. fmlookup (st Delq) k = None"
  proof clarify
    fix k v assume "(k, v) \<in> set kvs"
    then have "k \<in> set (map fst kvs)" by force
    then obtain i where "i < length kvs" "k = delq_key b key sq (n + i)" unfolding keys by auto
    then show "fmlookup (st Delq) k = None" using assms(2,3) le by simp
  qed
  ultimately show ?thesis using sum by (simp add: store_refs_puts)
qed

section \<open>Capture, write and discard\<close>

text \<open>The keys of the segments that a capture removes: those that have the object key as a prefix, when there
  is an old head.\<close>

definition captured_segs :: "store \<Rightarrow> bucket_id \<Rightarrow> bytes \<Rightarrow> bytes list" where
  "captured_segs st b key =
     (if fmlookup (st Meta) (flat_key Meta b key []) = None then []
      else map fst (kv_prefix_scan (flat_key MetaSeg b key []) (st MetaSeg)))"

lemma distinct_captured_segs: "distinct (captured_segs st b key)"
  by (simp add: captured_segs_def distinct_kv_prefix_scan)

lemma set_captured_segs:
  "k \<in> set (captured_segs st b key) \<longleftrightarrow>
     fmlookup (st Meta) (flat_key Meta b key []) \<noteq> None \<and> prefix (flat_key MetaSeg b key []) k \<and> fmlookup (st MetaSeg) k \<noteq> None"
proof -
  have "k \<in> set (map fst (kv_prefix_scan p m)) \<longleftrightarrow> (\<exists>v. (k, v) \<in> set (kv_prefix_scan p m))" for p m by force
  then show ?thesis by (auto simp: captured_segs_def set_kv_prefix_scan)
qed

definition captured_refs :: "serde \<Rightarrow> store \<Rightarrow> bucket_id \<Rightarrow> bytes \<Rightarrow> slice multiset" where
  "captured_refs j st b key =
     held j st Meta (flat_key Meta b key []) + (\<Sum>k \<leftarrow> captured_segs st b key. held j st MetaSeg k)"

lemma sum_list_mset_concat_map: "mset (concat (map f xs)) = (\<Sum>x \<leftarrow> xs. mset (f x))"
  by (induction xs) auto

lemma capture_old_ok:
  assumes "serde_ok j"
  shows "\<exists>acct kvs. capture_old j st b key sq ts ops =
      Ok (\<lparr>co_account = acct, co_next_seg_no = of_nat (length kvs)\<rparr>, ops @ deletes MetaSeg (captured_segs st b key) @ puts Delq kvs)
    \<and> delq_batch j b key sq 0 (captured_refs j st b key) kvs"
proof (cases "fmlookup (st Meta) (flat_key Meta b key [])")
  case None
  then show ?thesis
    by (auto simp: capture_old_def store_get_def captured_segs_def captured_refs_def delq_batch_def held_def kv_at_def
      deletes_def puts_def intro!: exI [of _ "[]"])
next
  case (Some old)
  let ?p = "flat_key MetaSeg b key []"
  let ?segs = "kv_prefix_scan ?p (st MetaSeg)"
  let ?cap = "extract_refs j Meta old @ concat (map (\<lambda>(_, val). extract_refs j MetaSeg val) ?segs)"
  have scan: "scan_pages st MetaSeg ?p (scan_end MetaSeg ?p) 1024 = ?segs" by (rule scan_prefix) simp_all
  obtain kvs where k: "flat_enqueue j b key sq 0 ?cap ts (ops @ map (\<lambda>(k, _). op_delete MetaSeg k) ?segs)
      = Ok (of_nat (length kvs), (ops @ map (\<lambda>(k, _). op_delete MetaSeg k) ?segs) @ puts Delq kvs)"
    "delq_batch j b key sq 0 (mset ?cap) kvs"
    using flat_enqueue_ok [OF assms, of b key sq 0 ?cap ts "ops @ map (\<lambda>(k, _). op_delete MetaSeg k) ?segs", unfolded semiring_1_class.of_nat_0 add_0] by blast
  have del: "map (\<lambda>(k, _). op_delete MetaSeg k) ?segs = deletes MetaSeg (captured_segs st b key)"
    using Some by (simp add: deletes_def captured_segs_def comp_def split_beta)
  have "held j st MetaSeg (fst e) = mset (extract_refs j MetaSeg (snd e))" if "e \<in> set ?segs" for e
    using that set_kv_prefix_scan [of "fst e" "snd e" ?p "st MetaSeg"] by (simp add: held_def kv_at_def refs_of_def)
  then have "(\<Sum>k \<leftarrow> captured_segs st b key. held j st MetaSeg k) = (\<Sum>e \<leftarrow> ?segs. mset (extract_refs j MetaSeg (snd e)))"
    using Some by (simp add: captured_segs_def comp_def cong: map_cong)
  then have "mset ?cap = captured_refs j st b key"
    using Some by (simp add: captured_refs_def held_def kv_at_def refs_of_def sum_list_mset_concat_map split_beta)
  then have b: "delq_batch j b key sq 0 (captured_refs j st b key) kvs" using k(2) by simp
  obtain acct where "capture_old j st b key sq ts ops =
      Ok (\<lparr>co_account = acct, co_next_seg_no = of_nat (length kvs)\<rparr>, (ops @ map (\<lambda>(k, _). op_delete MetaSeg k) ?segs) @ puts Delq kvs)"
    using k(1) Some by (simp add: capture_old_def store_get_def Let_def scan)
  then show ?thesis using b unfolding del append_assoc by blast
qed

text \<open>After a capture the old head is counted twice: in place and in the queue.\<close>

lemma capture_effect:
  assumes "delq_batch j b key sq 0 (captured_refs j st b key) kvs" "size (captured_refs j st b key) < 2 ^ 32"
    and "\<And>i. i < 2 ^ 32 \<Longrightarrow> fmlookup (st Delq) (delq_key b key sq i) = None"
  shows "store_refs j (store_apply (deletes MetaSeg (captured_segs st b key) @ puts Delq kvs) st)
    = store_refs j st + held j st Meta (flat_key Meta b key [])"
proof -
  let ?st = "store_apply (deletes MetaSeg (captured_segs st b key)) st"
  have "store_refs j (store_apply (puts Delq kvs) ?st) = store_refs j ?st + captured_refs j st b key"
    by (rule delq_batch_puts [OF assms(1)]) (use assms(2,3) in \<open>simp_all add: lookup_deletes\<close>)
  moreover have "store_refs j ?st + (\<Sum>k \<leftarrow> captured_segs st b key. held j st MetaSeg k) = store_refs j st"
    by (rule store_refs_deletes [OF distinct_captured_segs])
  ultimately show ?thesis by (simp add: captured_refs_def ac_simps)
qed

definition seg_key :: "bucket_id \<Rightarrow> bytes \<Rightarrow> nat \<Rightarrow> bytes" where
  "seg_key b key n = flat_key MetaSeg b key (suffix_seg_no (of_nat n))"

lemma put_segments_ok:
  assumes "codec_ok (sd_segment j)"
  shows "\<exists>kvs. put_segments j (\<lambda>n. sk n) n segs ops = Ok (ops @ puts MetaSeg kvs)
     \<and> map fst kvs = map (\<lambda>i. sk (of_nat (n + i))) [0..<length segs]
     \<and> map (\<lambda>(_, v). from_slice (sd_segment j) v) kvs = map Some segs"
proof (induction segs arbitrary: n ops)
  case (Cons s segs)
  obtain v where v: "to_vec (sd_segment j) s = Some v" "from_slice (sd_segment j) v = Some s"
    using assms by (rule codec_okE)
  obtain kvs where ih: "put_segments j sk (Suc n) segs (ops @ [op_put MetaSeg (sk (of_nat n)) v]) =
      Ok ((ops @ [op_put MetaSeg (sk (of_nat n)) v]) @ puts MetaSeg kvs)"
    "map fst kvs = map (\<lambda>i. sk (of_nat (Suc n + i))) [0..<length segs]"
    "map (\<lambda>(_, v). from_slice (sd_segment j) v) kvs = map Some segs"
    using Cons.IH by blast
  have up: "[0..<Suc (length segs)] = 0 # map Suc [0..<length segs]" by (simp add: upt_conv_Cons map_Suc_upt del: upt_Suc)
  show ?case
    using ih v by (intro exI [of _ "(sk (of_nat n), v) # kvs"])
      (simp add: encode_def puts_def up comp_def del: upt_Suc of_nat_Suc of_nat_add)
qed (simp add: puts_def)

lemma pack_ok:
  assumes "pack head = (packed, segs)"
  shows "into_slices (oh_content packed) @ concat (map sg_slices segs) = into_slices (oh_content head)"
    and "oh_seg_count packed = of_nat (length segs)" and "length segs \<le> length (into_slices (oh_content head))"
    and "packed = head\<lparr>oh_content := oh_content packed, oh_seg_count := oh_seg_count packed\<rparr>"
    and "oh_content head = Inline bs \<Longrightarrow> oh_content packed = Inline bs"
    and "oh_content head = Slices ss \<Longrightarrow> \<exists>emb. oh_content packed = Slices emb"
proof -
  have "length (chunks SEGMENT_SLICES (drop HEAD_EMBEDDED_SLICES ss)) \<le> length ss" for ss :: "slice list"
    using length_chunks [of SEGMENT_SLICES "drop HEAD_EMBEDDED_SLICES ss"] by (simp add: SEGMENT_SLICES_def)
  then show "length segs \<le> length (into_slices (oh_content head))"
    using assms by (auto simp: pack_def split_slices_def into_slices_def split: content_head.splits if_splits)
  show "into_slices (oh_content packed) @ concat (map sg_slices segs) = into_slices (oh_content head)"
    using assms split_slices_concat
    by (auto simp: pack_def into_slices_def split: content_head.splits prod.splits)
qed (use assms in \<open>auto simp: pack_def split: content_head.splits prod.splits\<close>)

lemma seg_key_inject: "m < 2 ^ 32 \<Longrightarrow> n < 2 ^ 32 \<Longrightarrow> seg_key b k m = seg_key b k' n \<longleftrightarrow> k = k' \<and> m = n"
  by (auto simp: seg_key_def unsigned_of_nat take_bit_nat_eq_self dest!: arg_cong [where f = unat])

lemma put_packed_ok:
  assumes "serde_ok j"
  shows "\<exists>v kvs. put_packed j b key packed segs ops = Ok (ops @ op_put Meta (flat_key Meta b key []) v # puts MetaSeg kvs)
     \<and> from_slice (sd_head j) v = Some packed \<and> map fst kvs = map (seg_key b key) [0..<length segs]
     \<and> map (\<lambda>(_, v). from_slice (sd_segment j) v) kvs = map Some segs"
proof -
  obtain v where v: "to_vec (sd_head j) packed = Some v" "from_slice (sd_head j) v = Some packed"
    using assms codec_okE [of "sd_head j" packed] unfolding serde_ok_def by blast
  have ok: "codec_ok (sd_segment j)" using assms by (simp add: serde_ok_def)
  let ?ops = "ops @ [op_put Meta (flat_key Meta b key []) v]"
  obtain kvs where "put_segments j (\<lambda>n. flat_key MetaSeg b key (suffix_seg_no n)) 0 segs ?ops = Ok (?ops @ puts MetaSeg kvs)"
    "map fst kvs = map (seg_key b key) [0..<length segs]" "map (\<lambda>(_, v). from_slice (sd_segment j) v) kvs = map Some segs"
    using put_segments_ok [OF ok, of "\<lambda>n. flat_key MetaSeg b key (suffix_seg_no n)" 0 segs ?ops]
    unfolding add_0 seg_key_def by blast
  then show ?thesis using v by (auto simp: put_packed_def encode_def)
qed

lemma map_Some_refs:
  "map (\<lambda>(_, v). from_slice (sd_segment j) v) kvs = map Some segs \<Longrightarrow>
     (\<Sum>(_, v) \<leftarrow> kvs. refs_of j MetaSeg v) = mset (concat (map sg_slices segs))"
proof (induction kvs arbitrary: segs)
  case (Cons kv kvs)
  then show ?case by (cases segs; cases kv) (auto simp: refs_of_def extract_refs_def)
qed simp

lemma put_packed_effect:
  assumes "pack head = (packed, segs)" "length (into_slices (oh_content head)) < 2 ^ 32"
    and "from_slice (sd_head j) v = Some packed" "map fst kvs = map (seg_key b key) [0..<length segs]"
    and "map (\<lambda>(_, v). from_slice (sd_segment j) v) kvs = map Some segs"
    and "\<And>n. fmlookup (st MetaSeg) (seg_key b key n) = None"
  shows "store_refs j (store_apply (op_put Meta (flat_key Meta b key []) v # puts MetaSeg kvs) st)
      + held j st Meta (flat_key Meta b key []) = store_refs j st + mset (into_slices (oh_content head))"
proof -
  let ?st = "store_op_apply (op_put Meta (flat_key Meta b key []) v) st"
  have n: "length segs < 2 ^ 32" using pack_ok(3) [OF assms(1)] assms(2) by simp
  have "distinct (map fst kvs)" unfolding assms(4) using n by (auto simp: distinct_map inj_on_def seg_key_inject)
  moreover have "\<forall>(k, _) \<in> set kvs. fmlookup (?st MetaSeg) k = None"
  proof clarify
    fix k x assume "(k, x) \<in> set kvs"
    then have "k \<in> set (map fst kvs)" by force
    then show "fmlookup (?st MetaSeg) k = None" unfolding assms(4) using assms(6) by auto
  qed
  ultimately have "store_refs j (store_apply (puts MetaSeg kvs) ?st) = store_refs j ?st + mset (concat (map sg_slices segs))"
    using map_Some_refs [OF assms(5)] by (simp add: store_refs_puts)
  moreover have "store_refs j ?st + held j st Meta (flat_key Meta b key []) = store_refs j st + mset (into_slices (oh_content packed))"
    using store_refs_put [of j Meta "flat_key Meta b key []" v st] assms(3) by (simp add: refs_of_def extract_refs_def)
  moreover have "mset (into_slices (oh_content head)) = mset (into_slices (oh_content packed)) + mset (concat (map sg_slices segs))"
    unfolding pack_ok(1) [OF assms(1), symmetric] by simp
  ultimately show ?thesis by (simp add: ac_simps)
qed

text \<open>What the handlers rely on: every overflow segment belongs to an object that has a head, and the delete
  queue has no entry of the current event.\<close>

definition segs_owned :: "bucket_id \<Rightarrow> store \<Rightarrow> bool" where
  "segs_owned b st \<longleftrightarrow>
     (\<forall>key n. fmlookup (st MetaSeg) (seg_key b key n) \<noteq> None \<longrightarrow> fmlookup (st Meta) (flat_key Meta b key []) \<noteq> None)"

definition delq_fresh :: "u64 \<Rightarrow> store \<Rightarrow> bool" where
  "delq_fresh sq st \<longleftrightarrow> (\<forall>b key n. fmlookup (st Delq) (delq_key b key sq n) = None)"

lemma prefix_seg_key: "prefix (flat_key MetaSeg b key []) (seg_key b key n)"
  by (auto simp: prefix_flat_key seg_key_def)

lemma captured_segs_gone:
  assumes "segs_owned b st"
  shows "fmlookup (store_apply (deletes MetaSeg (captured_segs st b key)) st MetaSeg) (seg_key b key n) = None"
proof (cases "fmlookup (st MetaSeg) (seg_key b key n)")
  case (Some v)
  then have "fmlookup (st Meta) (flat_key Meta b key []) \<noteq> None" using assms unfolding segs_owned_def by blast
  then show ?thesis using Some prefix_seg_key [of b key n] by (simp add: lookup_deletes set_captured_segs)
qed (simp add: lookup_deletes)

lemma captured_refs_le: "captured_refs j st b key \<subseteq># store_refs j st"
proof -
  let ?st = "store_apply (deletes MetaSeg (captured_segs st b key)) st"
  have "held j st Meta (flat_key Meta b key []) = held j ?st Meta (flat_key Meta b key [])"
    by (simp add: held_def kv_at_def lookup_deletes)
  also have "\<dots> \<subseteq># store_refs j ?st" by (rule held_le)
  finally have "held j st Meta (flat_key Meta b key []) \<subseteq># store_refs j ?st" .
  then have "captured_refs j st b key \<subseteq># store_refs j ?st + (\<Sum>k \<leftarrow> captured_segs st b key. held j st MetaSeg k)"
    unfolding captured_refs_def by (rule mset_subset_eq_mono_add) simp
  then show ?thesis by (simp add: store_refs_deletes [OF distinct_captured_segs])
qed

end
