(* ===== verification/Meta_Flat_Inv.thy ===== *)
theory Meta_Flat_Inv
  imports Meta_Refs
begin

text \<open>
  The flat handlers keep the reference account exact: each operation adds the references it brings and moves
  every reference it replaces into the delete queue. They also keep what they rely on: overflow segments belong
  to objects with a head, session records hold no references, and queue keys carry the number of their event.
\<close>

section \<open>Put and delete\<close>

lemma apply_put_ok:
  assumes "serde_ok j" "pack head = (packed, segs)"
  shows "\<exists>out kvs v skvs. apply_put j st b key head sq ts = Ok out \<and> ao_response out = RNone
    \<and> ao_ops out = (deletes MetaSeg (captured_segs st b key) @ puts Delq kvs) @ op_put Meta (flat_key Meta b key []) v # puts MetaSeg skvs
    \<and> delq_batch j b key sq 0 (captured_refs j st b key) kvs
    \<and> from_slice (sd_head j) v = Some packed \<and> map fst skvs = map (seg_key b key) [0..<length segs]
    \<and> map (\<lambda>(_, v). from_slice (sd_segment j) v) skvs = map Some segs"
proof -
  obtain acct kvs where c: "capture_old j st b key sq ts [] =
      Ok (\<lparr>co_account = acct, co_next_seg_no = of_nat (length kvs)\<rparr>, deletes MetaSeg (captured_segs st b key) @ puts Delq kvs)"
    "delq_batch j b key sq 0 (captured_refs j st b key) kvs"
    using capture_old_ok [OF assms(1), of st b key sq ts "[]"] unfolding append_Nil by blast
  obtain v skvs where p: "put_packed j b key packed segs (deletes MetaSeg (captured_segs st b key) @ puts Delq kvs)
      = Ok ((deletes MetaSeg (captured_segs st b key) @ puts Delq kvs) @ op_put Meta (flat_key Meta b key []) v # puts MetaSeg skvs)"
    "from_slice (sd_head j) v = Some packed" "map fst skvs = map (seg_key b key) [0..<length segs]"
    "map (\<lambda>(_, v). from_slice (sd_segment j) v) skvs = map Some segs"
    using put_packed_ok [OF assms(1)] by blast
  obtain a1 a2 a3 where acct: "acct = (a1, a2, a3)" by (cases acct)
  obtain n1 n2 where acc: "inline_account (oh_content packed) = (n1, n2)" by (cases "inline_account (oh_content packed)")
  obtain out where "apply_put j st b key head sq ts = Ok out" "ao_response out = RNone"
    "ao_ops out = (deletes MetaSeg (captured_segs st b key) @ puts Delq kvs) @ op_put Meta (flat_key Meta b key []) v # puts MetaSeg skvs"
    using c(1) p(1) by (simp add: apply_put_def assms(2) acct acc)
  then show ?thesis using c(2) p(2-4) by blast
qed

lemma apply_delete_ok:
  assumes "serde_ok j"
  shows "\<exists>out kvs. apply_delete j st b key sq ts = Ok out \<and> ao_response out = RNone
    \<and> ao_ops out = (deletes MetaSeg (captured_segs st b key) @ puts Delq kvs) @ [op_delete Meta (flat_key Meta b key [])]
    \<and> delq_batch j b key sq 0 (captured_refs j st b key) kvs"
proof -
  obtain acct kvs where c: "capture_old j st b key sq ts [] =
      Ok (\<lparr>co_account = acct, co_next_seg_no = of_nat (length kvs)\<rparr>, deletes MetaSeg (captured_segs st b key) @ puts Delq kvs)"
    "delq_batch j b key sq 0 (captured_refs j st b key) kvs"
    using capture_old_ok [OF assms(1), of st b key sq ts "[]"] unfolding append_Nil by blast
  obtain a1 a2 a3 where acct: "acct = (a1, a2, a3)" by (cases acct)
  obtain out where "apply_delete j st b key sq ts = Ok out" "ao_response out = RNone"
    "ao_ops out = (deletes MetaSeg (captured_segs st b key) @ puts Delq kvs) @ [op_delete Meta (flat_key Meta b key [])]"
    using c(1) by (simp add: apply_delete_def acct)
  then show ?thesis using c(2) by blast
qed

lemma capture_lookup:
  "c \<noteq> MetaSeg \<Longrightarrow> c \<noteq> Delq \<Longrightarrow>
     fmlookup (store_apply (deletes MetaSeg ks @ puts Delq kvs) st c) k = fmlookup (st c) k"
  "fmlookup (store_apply (deletes MetaSeg ks @ puts Delq kvs) st MetaSeg) k = fmlookup (store_apply (deletes MetaSeg ks) st MetaSeg) k"
  by (simp_all add: lookup_deletes lookup_puts split: option.split)

lemma apply_put_refs:
  assumes "serde_ok j" "segs_owned b st" "delq_fresh sq st" "size (store_refs j st) + length (into_slices (oh_content head)) < 2 ^ 32"
    and "apply_put j st b key head sq ts = Ok out"
  shows "store_refs j (store_apply (ao_ops out) st) = store_refs j st + mset (into_slices (oh_content head))"
proof -
  obtain packed segs where pk: "pack head = (packed, segs)" by (cases "pack head")
  obtain kvs v skvs where o: "ao_ops out = (deletes MetaSeg (captured_segs st b key) @ puts Delq kvs) @ op_put Meta (flat_key Meta b key []) v # puts MetaSeg skvs"
    "delq_batch j b key sq 0 (captured_refs j st b key) kvs"
    "from_slice (sd_head j) v = Some packed" "map fst skvs = map (seg_key b key) [0..<length segs]"
    "map (\<lambda>(_, v). from_slice (sd_segment j) v) skvs = map Some segs"
    using apply_put_ok [OF assms(1) pk, of st b key sq ts] assms(5) by auto
  let ?st = "store_apply (deletes MetaSeg (captured_segs st b key) @ puts Delq kvs) st"
  have "size (captured_refs j st b key) < 2 ^ 32" using size_mset_mono [OF captured_refs_le [of j st b key]] assms(4) by linarith
  then have c: "store_refs j ?st = store_refs j st + held j st Meta (flat_key Meta b key [])"
    using capture_effect [OF o(2)] assms(3) by (simp add: delq_fresh_def)
  have "held j ?st Meta (flat_key Meta b key []) = held j st Meta (flat_key Meta b key [])"
    unfolding held_def kv_at_def by (subst capture_lookup(1)) simp_all
  moreover have "fmlookup (?st MetaSeg) (seg_key b key n) = None" for n
    using captured_segs_gone [OF assms(2)] by (simp only: capture_lookup(2))
  then have "store_refs j (store_apply (op_put Meta (flat_key Meta b key []) v # puts MetaSeg skvs) ?st)
      + held j ?st Meta (flat_key Meta b key []) = store_refs j ?st + mset (into_slices (oh_content head))"
    by (intro put_packed_effect [OF pk _ o(3-5)]) (use assms(4) in simp_all)
  moreover have "store_apply (ao_ops out) st = store_apply (op_put Meta (flat_key Meta b key []) v # puts MetaSeg skvs) ?st"
    unfolding o(1) store_apply_append ..
  ultimately show ?thesis using c by (simp add: ac_simps)
qed

lemma apply_delete_refs:
  assumes "serde_ok j" "delq_fresh sq st" "size (store_refs j st) < 2 ^ 32" "apply_delete j st b key sq ts = Ok out"
  shows "store_refs j (store_apply (ao_ops out) st) = store_refs j st"
proof -
  obtain kvs where o: "ao_ops out = (deletes MetaSeg (captured_segs st b key) @ puts Delq kvs) @ [op_delete Meta (flat_key Meta b key [])]"
    "delq_batch j b key sq 0 (captured_refs j st b key) kvs"
    using apply_delete_ok [OF assms(1), of st b key sq ts] assms(4) by auto
  let ?st = "store_apply (deletes MetaSeg (captured_segs st b key) @ puts Delq kvs) st"
  have "size (captured_refs j st b key) < 2 ^ 32" using size_mset_mono [OF captured_refs_le [of j st b key]] assms(3) by linarith
  then have c: "store_refs j ?st = store_refs j st + held j st Meta (flat_key Meta b key [])"
    using capture_effect [OF o(2)] assms(2) by (simp add: delq_fresh_def)
  have "held j ?st Meta (flat_key Meta b key []) = held j st Meta (flat_key Meta b key [])"
    unfolding held_def kv_at_def by (subst capture_lookup(1)) simp_all
  moreover have "store_apply (ao_ops out) st = store_op_apply (op_delete Meta (flat_key Meta b key [])) ?st"
    unfolding o(1) store_apply_append by simp
  ultimately show ?thesis using c store_refs_delete [of j Meta "flat_key Meta b key []" ?st] by simp
qed

section \<open>Discarding a session\<close>

definition captures :: "(u32 \<Rightarrow> bool) \<Rightarrow> bytes \<Rightarrow> bool" where
  "captures listed k \<longleftrightarrow> (case part_no_of k of Some n \<Rightarrow> n \<noteq> 0 \<and> \<not> listed n | None \<Rightarrow> False)"

text \<open>What a batch that discards entries does to a store: the entries leave the upload family, those that count as
  abandoned enter the queue under fresh numbers, and nothing else changes.\<close>

definition discards :: "serde \<Rightarrow> bucket_id \<Rightarrow> bytes \<Rightarrow> u64 \<Rightarrow> (u32 \<Rightarrow> bool) \<Rightarrow> kv_page \<Rightarrow> nat \<Rightarrow> store_op list \<Rightarrow> bool" where
  "discards j b key sq listed entries n ops \<longleftrightarrow>
     (\<forall>st. distinct (map fst entries) \<longrightarrow> (\<forall>(k, v) \<in> set entries. fmlookup (st Upload) k = Some v) \<longrightarrow>
       n + (\<Sum>(_, v) \<leftarrow> entries. size (refs_of j Upload v)) < 2 ^ 32 \<longrightarrow>
       (\<forall>i. n \<le> i \<longrightarrow> i < 2 ^ 32 \<longrightarrow> fmlookup (st Delq) (delq_key b key sq i) = None) \<longrightarrow>
       store_refs j (store_apply ops st) + (\<Sum>(k, v) \<leftarrow> entries. if captures listed k then {#} else refs_of j Upload v) = store_refs j st)
     \<and> (\<forall>st k. fmlookup (store_apply ops st Upload) k = (if k \<in> fst ` set entries then None else fmlookup (st Upload) k))
     \<and> (\<forall>st k. (\<forall>i. k \<noteq> delq_key b key sq i) \<longrightarrow> fmlookup (store_apply ops st Delq) k = fmlookup (st Delq) k)
     \<and> (\<forall>st c. c \<noteq> Upload \<longrightarrow> c \<noteq> Delq \<longrightarrow> store_apply ops st c = st c)"

lemma puts_other: "c \<noteq> cf \<Longrightarrow> store_apply (puts cf kvs) st c = st c"
  by (rule fmap_ext) (simp add: lookup_puts split: option.split)

lemma delete_other: "c \<noteq> cf \<Longrightarrow> store_op_apply (op_delete cf k) st c = st c"
  by (simp add: store_op_apply_def op_delete_def)

lemma put_other: "c \<noteq> cf \<Longrightarrow> store_op_apply (op_put cf k v) st c = st c"
  by (simp add: store_op_apply_def op_put_def)

lemma lookup_delq_batch_other:
  assumes "delq_batch j b key sq n refs kvs" "\<forall>i. k \<noteq> delq_key b key sq i"
  shows "fmlookup (store_apply (puts Delq kvs) st Delq) k = fmlookup (st Delq) k"
proof -
  have "k \<notin> set (map fst kvs)" using assms by (auto simp: delq_batch_def)
  then have "map_of (rev kvs) k = None" by (simp add: map_of_eq_None_iff)
  then show ?thesis by (simp add: lookup_puts)
qed

lemma discards_Cons:
  assumes b: "delq_batch j b key sq n (if captures listed k then refs_of j Upload v else {#}) kvs"
    and d: "discards j b key sq listed entries (n + length kvs) ops"
  shows "discards j b key sq listed ((k, v) # entries) n (puts Delq kvs @ op_delete Upload k # ops)"
proof -
  let ?st1 = "\<lambda>st. store_apply (puts Delq kvs) st" and ?st2 = "\<lambda>st. store_op_apply (op_delete Upload k) (store_apply (puts Delq kvs) st)"
  have keys: "map fst kvs = map (\<lambda>i. delq_key b key sq (n + i)) [0..<length kvs]"
    and len: "length kvs \<le> size (if captures listed k then refs_of j Upload v else {#})" using b by (auto simp: delq_batch_def)
  have refs: "store_refs j (store_apply (puts Delq kvs @ op_delete Upload k # ops) st)
      + (\<Sum>(k, v) \<leftarrow> (k, v) # entries. if captures listed k then {#} else refs_of j Upload v) = store_refs j st"
    if dst: "distinct (map fst ((k, v) # entries))" and pres: "\<forall>(k, v) \<in> set ((k, v) # entries). fmlookup (st Upload) k = Some v"
      and sz: "n + (\<Sum>(_, v) \<leftarrow> (k, v) # entries. size (refs_of j Upload v)) < 2 ^ 32"
      and fresh: "\<forall>i. n \<le> i \<longrightarrow> i < 2 ^ 32 \<longrightarrow> fmlookup (st Delq) (delq_key b key sq i) = None" for st
  proof -
    have small: "n + size (if captures listed k then refs_of j Upload v else {#}) < 2 ^ 32" using sz by auto
    have r1: "store_refs j (?st1 st) = store_refs j st + (if captures listed k then refs_of j Upload v else {#})"
      by (rule delq_batch_puts [OF b small]) (use fresh in simp)
    have "held j (?st1 st) Upload k = refs_of j Upload v" using pres by (simp add: held_def kv_at_def puts_other)
    then have r2: "store_refs j (?st2 st) + refs_of j Upload v = store_refs j (?st1 st)"
      using store_refs_delete [of j Upload k "?st1 st"] by simp
    have p2: "\<forall>(a, w) \<in> set entries. fmlookup (?st2 st Upload) a = Some w"
      using pres dst by (force simp: puts_other)
    have s2: "n + length kvs + (\<Sum>(_, v) \<leftarrow> entries. size (refs_of j Upload v)) < 2 ^ 32"
      using sz len by (auto split: if_splits)
    have f2: "\<forall>i. n + length kvs \<le> i \<longrightarrow> i < 2 ^ 32 \<longrightarrow> fmlookup (?st2 st Delq) (delq_key b key sq i) = None"
    proof (intro allI impI)
      fix i assume i: "n + length kvs \<le> i" "i < 2 ^ 32"
      then have "delq_key b key sq i \<notin> set (map fst kvs)" unfolding keys by (auto simp: delq_key_inject)
      then have "map_of (rev kvs) (delq_key b key sq i) = None" by (simp add: map_of_eq_None_iff)
      then show "fmlookup (?st2 st Delq) (delq_key b key sq i) = None" using fresh i by (simp add: lookup_puts)
    qed
    have "store_refs j (store_apply ops (?st2 st)) + (\<Sum>(k, v) \<leftarrow> entries. if captures listed k then {#} else refs_of j Upload v) = store_refs j (?st2 st)"
      using d dst p2 s2 f2 unfolding discards_def by simp
    then show ?thesis using r1 r2 by (auto simp: ac_simps)
  qed
  have up: "fmlookup (store_apply (puts Delq kvs @ op_delete Upload k # ops) st Upload) x
      = (if x \<in> fst ` set ((k, v) # entries) then None else fmlookup (st Upload) x)" for st x
    using d unfolding discards_def by (auto simp: puts_other)
  have dq: "fmlookup (store_apply (puts Delq kvs @ op_delete Upload k # ops) st Delq) x = fmlookup (st Delq) x"
    if "\<forall>i. x \<noteq> delq_key b key sq i" for st x
    using d that lookup_delq_batch_other [OF b that] unfolding discards_def by (simp add: delete_other)
  have ot: "store_apply (puts Delq kvs @ op_delete Upload k # ops) st c = st c" if "c \<noteq> Upload" "c \<noteq> Delq" for st c
    using d that unfolding discards_def by (simp add: delete_other puts_other)
  show ?thesis unfolding discards_def using refs up dq ot by (intro conjI allI impI) blast+
qed

lemma discard_session_ok:
  assumes "serde_ok j"
  shows "\<exists>m ops'. discard_session j b key sq ts listed entries (of_nat n) ops = Ok (m, ops @ ops') \<and> discards j b key sq listed entries n ops'"
proof (induction entries arbitrary: n ops)
  case Nil
  show ?case by (auto simp: discards_def intro!: exI [of _ "[]"])
next
  case (Cons e entries)
  obtain k v where e: "e = (k, v)" by (cases e)
  let ?refs = "if captures listed k then refs_of j Upload v else {#}"
  obtain kvs where b: "delq_batch j b key sq n ?refs kvs"
    and run: "(case part_no_of k of Some part_no \<Rightarrow> if part_no \<noteq> 0 \<and> \<not> listed part_no
         then flat_enqueue j b key sq (of_nat n) (extract_refs j Upload v) ts ops else Ok (of_nat n, ops)
       | None \<Rightarrow> Ok (of_nat n, ops)) = Ok (of_nat (n + length kvs), ops @ puts Delq kvs)"
  proof (cases "captures listed k")
    case True
    then obtain pn where pn: "part_no_of k = Some pn" "pn \<noteq> 0" "\<not> listed pn" by (auto simp: captures_def split: option.splits)
    then show ?thesis using that True flat_enqueue_ok [OF assms, of b key sq n "extract_refs j Upload v" ts ops]
      by (auto simp: refs_of_def)
  next
    case False
    then show ?thesis using that [of "[]"] by (auto simp: captures_def delq_batch_def puts_def split: option.splits)
  qed
  obtain m ops' where ih: "discard_session j b key sq ts listed entries (of_nat (n + length kvs)) ((ops @ puts Delq kvs) @ [op_delete Upload k])
      = Ok (m, ((ops @ puts Delq kvs) @ [op_delete Upload k]) @ ops')" "discards j b key sq listed entries (n + length kvs) ops'"
    using Cons.IH by blast
  have "discard_session j b key sq ts listed (e # entries) (of_nat n) ops = Ok (m, ops @ puts Delq kvs @ op_delete Upload k # ops')"
    unfolding e discard_session.simps run using ih(1) by simp
  then show ?case using discards_Cons [OF b ih(2)] unfolding e by blast
qed

section \<open>Parts\<close>

text \<open>Every upload entry ends in a part number, and session records, numbered zero, hold no references.\<close>

definition uploads_wf :: "serde \<Rightarrow> store \<Rightarrow> bool" where
  "uploads_wf j st \<longleftrightarrow>
     (\<forall>k v. fmlookup (st Upload) k = Some v \<longrightarrow> (\<exists>n. part_no_of k = Some n \<and> (n = 0 \<longrightarrow> refs_of j Upload v = {#})))"

lemma part_no_of_append: "length t = 4 \<Longrightarrow> part_no_of (p @ t) = Some (from_be_bytes t)"
  by (simp add: part_no_of_def)

lemma part_no_of_upload_key [simp]: "part_no_of (upload_key b key u n) = Some n"
  using part_no_of_append [of "to_be_bytes 4 n" "flat_key Upload b key (to_be_bytes 16 u)"]
  by (simp add: upload_key_def flat_key_def suffix_upload_part_def)

lemma upload_key_inject [simp]: "upload_key b key u m = upload_key b key u n \<longleftrightarrow> m = n"
  by (simp add: upload_key_def)

lemma entries_refs_le:
  assumes "distinct (map fst entries)" "\<forall>(k, v) \<in> set entries. fmlookup (st cf) k = Some v"
  shows "(\<Sum>(_, v) \<leftarrow> entries. refs_of j cf v) \<subseteq># store_refs j st"
proof -
  have "(\<Sum>(_, v) \<leftarrow> entries. refs_of j cf v) = (\<Sum>k \<leftarrow> map fst entries. held j st cf k)"
    using assms(2) by (auto simp: held_def kv_at_def comp_def split_beta intro!: arg_cong [where f = sum_list])
  then show ?thesis using store_refs_deletes [OF assms(1), of j cf st] by (metis mset_subset_eq_add_right)
qed

lemma size_sum_list: "size (\<Sum>x \<leftarrow> xs. f x :: 'b multiset) = (\<Sum>x \<leftarrow> xs. size (f x))"
  by (induction xs) auto

lemma scan_session_eq: "scan_session st b key u = kv_prefix_scan (upload_prefix b key u) (st Upload)"
  by (simp add: scan_session_def upload_prefix_def scan_prefix)

lemma scan_session_facts:
  "distinct (map fst (scan_session st b key u))"
  "\<forall>(k, v) \<in> set (scan_session st b key u). fmlookup (st Upload) k = Some v"
  "(\<Sum>(_, v) \<leftarrow> scan_session st b key u. size (refs_of j Upload v)) \<le> size (store_refs j st)"
proof -
  show d: "distinct (map fst (scan_session st b key u))" by (simp add: scan_session_eq distinct_kv_prefix_scan)
  show p: "\<forall>(k, v) \<in> set (scan_session st b key u). fmlookup (st Upload) k = Some v"
    using set_kv_prefix_scan [of _ _ "upload_prefix b key u" "st Upload"] by (auto simp: scan_session_eq)
  show "(\<Sum>(_, v) \<leftarrow> scan_session st b key u. size (refs_of j Upload v)) \<le> size (store_refs j st)"
    using size_mset_mono [OF entries_refs_le [where cf = Upload and j = j and st = st, OF d p]] by (simp add: size_sum_list case_prod_unfold)
qed

lemma apply_put_part_ok:
  assumes "serde_ok j" "fmlookup (st Upload) (upload_key b key u 0) \<noteq> None"
  shows "\<exists>out kvs v. apply_put_part j st b key u n part sq ts = Ok out \<and> ao_response out = RNone
     \<and> ao_ops out = puts Delq kvs @ [op_put Upload (upload_key b key u n) v]
     \<and> delq_batch j b key sq 0 (held j st Upload (upload_key b key u n)) kvs \<and> from_slice (sd_part j) v = Some part"
proof -
  let ?k = "upload_key b key u n"
  obtain v where v: "to_vec (sd_part j) part = Some v" "from_slice (sd_part j) v = Some part"
    using assms(1) codec_okE [of "sd_part j" part] unfolding serde_ok_def by blast
  obtain m kvs where b: "delq_batch j b key sq 0 (held j st Upload ?k) kvs"
    and run: "(case store_get st Upload ?k of None \<Rightarrow> Ok (0, []) | Some old \<Rightarrow> flat_enqueue j b key sq 0 (extract_refs j Upload old) ts [])
        = Ok (m, puts Delq kvs)"
  proof (cases "fmlookup (st Upload) ?k")
    case None
    then show ?thesis using that [of "[]" 0] by (simp add: held_def kv_at_def delq_batch_def puts_def store_get_def)
  next
    case (Some old)
    then show ?thesis using that flat_enqueue_ok [OF assms(1), of b key sq 0 "extract_refs j Upload old" ts "[]", unfolded semiring_1_class.of_nat_0 add_0]
      by (auto simp: held_def kv_at_def refs_of_def store_get_def)
  qed
  have "apply_put_part j st b key u n part sq ts = Ok (no_delta (puts Delq kvs @ [op_put Upload ?k v]) RNone)"
    using assms(2) run v(1) by (auto simp: apply_put_part_def store_get_def encode_def)
  then show ?thesis using b v(2) by (auto simp: no_delta_def)
qed

lemma apply_put_part_refs:
  assumes "serde_ok j" "delq_fresh sq st" "size (store_refs j st) < 2 ^ 32"
    and "apply_put_part j st b key u n part sq ts = Ok out"
  shows "store_refs j (store_apply (ao_ops out) st) = store_refs j st + (if ao_response out = RNone then mset (pm_slices part) else {#})"
proof (cases "fmlookup (st Upload) (upload_key b key u 0)")
  case None
  then show ?thesis using assms(4) by (auto simp: apply_put_part_def store_get_def no_delta_def)
next
  case (Some s)
  let ?k = "upload_key b key u n"
  obtain kvs v where o: "ao_response out = RNone" "ao_ops out = puts Delq kvs @ [op_put Upload ?k v]"
    "delq_batch j b key sq 0 (held j st Upload ?k) kvs" "from_slice (sd_part j) v = Some part"
    using apply_put_part_ok [OF assms(1), of st b key u n part sq ts] Some assms(4) by auto
  let ?st = "store_apply (puts Delq kvs) st"
  have "size (held j st Upload ?k) < 2 ^ 32" using size_mset_mono [OF held_le [of j st Upload ?k]] assms(3) by linarith
  then have "store_refs j ?st = store_refs j st + held j st Upload ?k"
    using delq_batch_puts [OF o(3), of st] assms(2) by (simp add: delq_fresh_def)
  moreover have "held j ?st Upload ?k = held j st Upload ?k" by (simp add: held_def puts_other)
  moreover have "refs_of j Upload v = mset (pm_slices part)" using o(4) by (simp add: refs_of_def extract_refs_def)
  ultimately show ?thesis using store_refs_put [of j Upload ?k v ?st] o(1,2) by (simp add: ac_simps)
qed

lemma apply_abort_refs:
  assumes "serde_ok j" "uploads_wf j st" "delq_fresh sq st" "size (store_refs j st) < 2 ^ 32"
    and "apply_abort j st b key u sq ts = Ok out"
  shows "store_refs j (store_apply (ao_ops out) st) = store_refs j st"
proof (cases "fmlookup (st Upload) (upload_key b key u 0)")
  case None
  then show ?thesis using assms(5) by (auto simp: apply_abort_def store_get_def no_delta_def)
next
  case (Some s)
  let ?es = "scan_session st b key u"
  obtain m ops where d: "discard_session j b key sq ts (\<lambda>_. False) ?es 0 [] = Ok (m, ops)" "discards j b key sq (\<lambda>_. False) ?es 0 ops"
    using discard_session_ok [OF assms(1), of b key sq ts "\<lambda>_. False" ?es 0 "[]"] by auto
  have o: "ao_ops out = ops" using assms(5) d(1) Some by (auto simp: apply_abort_def store_get_def no_delta_def)
  note f = scan_session_facts [where st = st and b = b and key = key and u = u]
  have "(\<Sum>(k, v) \<leftarrow> ?es. if captures (\<lambda>_. False) k then {#} else refs_of j Upload v) = (\<Sum>e \<leftarrow> ?es. {#})"
    using f(2) assms(2) by (intro arg_cong [where f = sum_list] map_cong) (force simp: uploads_wf_def captures_def)+
  then have "(\<Sum>(k, v) \<leftarrow> ?es. if captures (\<lambda>_. False) k then {#} else refs_of j Upload v) = {#}" by simp
  moreover have "0 + (\<Sum>(_, v) \<leftarrow> ?es. size (refs_of j Upload v)) < 2 ^ 32" using f(3) [where j = j] assms(4) by linarith
  moreover have "\<forall>i. 0 \<le> i \<longrightarrow> i < 2 ^ 32 \<longrightarrow> fmlookup (st Delq) (delq_key b key sq i) = None" using assms(3) by (simp add: delq_fresh_def)
  ultimately show ?thesis using d(2) f(1,2) unfolding discards_def o by (metis (no_types, lifting) add.right_neutral)
qed

section \<open>Complete\<close>

text \<open>No other object's uploads have this session's prefix.\<close>

definition session_alone :: "bucket_id \<Rightarrow> bytes \<Rightarrow> u128 \<Rightarrow> store \<Rightarrow> bool" where
  "session_alone b key u st \<longleftrightarrow>
     (\<forall>k. fmlookup (st Upload) k \<noteq> None \<longrightarrow> prefix (upload_prefix b key u) k \<longrightarrow> (\<exists>n. k = upload_key b key u n))"

lemma assemble_ok:
  "assemble j st b key u ps sz ss = Ok (Inr (sz', ss')) \<Longrightarrow>
     mset ss' = mset ss + (\<Sum>p \<leftarrow> ps. held j st Upload (upload_key b key u (pr_part_no p)))
     \<and> (\<forall>p \<in> set ps. fmlookup (st Upload) (upload_key b key u (pr_part_no p)) \<noteq> None)"
proof (induction ps arbitrary: sz ss)
  case (Cons p ps)
  let ?k = "upload_key b key u (pr_part_no p)"
  obtain raw where raw: "fmlookup (st Upload) ?k = Some raw" using Cons.prems by (auto simp: store_get_def split: option.splits)
  then obtain part where part: "from_slice (sd_part j) raw = Some part"
    "assemble j st b key u ps (saturating_add sz (pm_size part)) (ss @ pm_slices part) = Ok (Inr (sz', ss'))"
    using Cons.prems by (auto simp: store_get_def decode_def result_simps split: if_splits)
  have "held j st Upload ?k = mset (pm_slices part)" using raw part(1) by (simp add: held_def kv_at_def refs_of_def extract_refs_def)
  then show ?case using Cons.IH [OF part(2)] raw by simp
qed simp

lemma prefix_upload_key: "prefix (upload_prefix b key u) (upload_key b key u n)"
  by (simp add: upload_prefix_def upload_key_def flat_key_def suffix_upload_part_def)

lemma listed_refs:
  assumes "uploads_wf j st" "session_alone b key u st" "distinct (map pr_part_no ps)"
    and "\<forall>p \<in> set ps. fmlookup (st Upload) (upload_key b key u (pr_part_no p)) \<noteq> None"
  shows "(\<Sum>(k, v) \<leftarrow> scan_session st b key u. if captures (\<lambda>n. n \<in> set (map pr_part_no ps)) k then {#} else refs_of j Upload v)
    = (\<Sum>p \<leftarrow> ps. held j st Upload (upload_key b key u (pr_part_no p)))"
proof -
  let ?es = "scan_session st b key u" and ?L = "set (map pr_part_no ps)"
  let ?g = "\<lambda>k. if captures (\<lambda>n. n \<in> ?L) k then {#} else held j st Upload k"
  note f = scan_session_facts [where st = st and b = b and key = key and u = u]
  have "(\<Sum>(k, v) \<leftarrow> ?es. if captures (\<lambda>n. n \<in> ?L) k then {#} else refs_of j Upload v) = (\<Sum>k \<leftarrow> map fst ?es. ?g k)"
    using f(2) by (auto simp: held_def kv_at_def comp_def split_beta intro!: arg_cong [where f = sum_list])
  also have "\<dots> = (\<Sum>k \<in> set (map fst ?es). ?g k)" using f(1) by (rule sum_list_distinct_conv_sum_set)
  also have "\<dots> = (\<Sum>k \<in> upload_key b key u ` ?L. held j st Upload k)"
  proof (rule sum.mono_neutral_cong_right)
    have mem: "k \<in> set (map fst ?es) \<longleftrightarrow> prefix (upload_prefix b key u) k \<and> fmlookup (st Upload) k \<noteq> None" for k
    proof -
      have "k \<in> set (map fst ?es) \<longleftrightarrow> (\<exists>v. (k, v) \<in> set ?es)" by force
      then show ?thesis by (auto simp: scan_session_eq set_kv_prefix_scan)
    qed
    show "upload_key b key u ` ?L \<subseteq> set (map fst ?es)" using assms(4) mem prefix_upload_key by auto
    show "\<forall>k \<in> set (map fst ?es) - upload_key b key u ` ?L. ?g k = {#}"
    proof
      fix k assume k: "k \<in> set (map fst ?es) - upload_key b key u ` ?L"
      obtain v where v: "fmlookup (st Upload) k = Some v" using k mem by blast
      obtain n where n: "k = upload_key b key u n" using assms(2) k mem v unfolding session_alone_def by blast
      then have "n \<notin> ?L" using k by blast
      moreover have "\<exists>m. part_no_of k = Some m \<and> (m = 0 \<longrightarrow> refs_of j Upload v = {#})"
        using assms(1) v unfolding uploads_wf_def by blast
      then have "n = 0 \<Longrightarrow> held j st Upload k = {#}" using v n by (simp add: held_def kv_at_def)
      ultimately show "?g k = {#}" using n by (auto simp: captures_def)
    qed
    show "?g k = held j st Upload k" if "k \<in> upload_key b key u ` ?L" for k using that by (auto simp: captures_def)
  qed simp
  also have "\<dots> = (\<Sum>n \<in> ?L. held j st Upload (upload_key b key u n))" by (rule sum.reindex_cong [where l = "upload_key b key u"]) (auto simp: inj_on_def)
  also have "\<dots> = (\<Sum>n \<leftarrow> map pr_part_no ps. held j st Upload (upload_key b key u n))"
    using assms(3) by (rule sum_list_distinct_conv_sum_set [symmetric])
  finally show ?thesis by (simp add: comp_def)
qed

text \<open>The batch of a completion, in its three parts.\<close>

lemma apply_complete_ok:
  assumes "serde_ok j" "apply_complete j h st b key u ps sq ts = Ok out" "ao_response out = RNone"
  shows "\<exists>sz ss kvs dops head packed segs v skvs.
       assemble j st b key u ps 0 [] = Ok (Inr (sz, ss))
     \<and> ao_ops out = (deletes MetaSeg (captured_segs st b key) @ puts Delq kvs) @ dops @ op_put Meta (flat_key Meta b key []) v # puts MetaSeg skvs
     \<and> delq_batch j b key sq 0 (captured_refs j st b key) kvs
     \<and> discards j b key sq (\<lambda>n. n \<in> set (map pr_part_no ps)) (scan_session st b key u) (length kvs) dops
     \<and> oh_content head = Slices ss \<and> oh_size head = sz \<and> pack head = (packed, segs)
     \<and> from_slice (sd_head j) v = Some packed \<and> map fst skvs = map (seg_key b key) [0..<length segs]
     \<and> map (\<lambda>(_, v). from_slice (sd_segment j) v) skvs = map Some segs"
proof -
  let ?L = "\<lambda>n. n \<in> set (map pr_part_no ps)" and ?es = "scan_session st b key u"
  have pre: "fmlookup (st Upload) (upload_key b key u 0) \<noteq> None" "ps \<noteq> []"
    using assms(2,3) by (auto simp: apply_complete_def store_get_def no_delta_def split: if_splits)
  obtain r where r: "assemble j st b key u ps 0 [] = Ok r"
    using assms(2) pre by (auto simp: apply_complete_def store_get_def result_simps)
  obtain sz ss where a: "assemble j st b key u ps 0 [] = Ok (Inr (sz, ss))"
    using assms(2,3) pre r by (cases r) (auto simp: apply_complete_def store_get_def no_delta_def)
  obtain acct kvs where c: "capture_old j st b key sq ts [] =
      Ok (\<lparr>co_account = acct, co_next_seg_no = of_nat (length kvs)\<rparr>, deletes MetaSeg (captured_segs st b key) @ puts Delq kvs)"
    "delq_batch j b key sq 0 (captured_refs j st b key) kvs"
    using capture_old_ok [OF assms(1), of st b key sq ts "[]"] unfolding append_Nil by blast
  let ?cap = "deletes MetaSeg (captured_segs st b key) @ puts Delq kvs"
  obtain m dops where d: "discard_session j b key sq ts ?L ?es (of_nat (length kvs)) ?cap = Ok (m, ?cap @ dops)"
    "discards j b key sq ?L ?es (length kvs) dops"
    using discard_session_ok [OF assms(1)] by blast
  define head where "head = \<lparr>oh_size = sz, oh_etag = multipart_etag h ps, oh_mtime = ts, oh_storage = Standard,
                          oh_content = Slices ss, oh_seg_count = 0, oh_http = http_default\<rparr>"
  obtain packed segs where pk: "pack head = (packed, segs)" by (cases "pack head")
  obtain v skvs where p: "put_packed j b key packed segs (?cap @ dops)
      = Ok ((?cap @ dops) @ op_put Meta (flat_key Meta b key []) v # puts MetaSeg skvs)"
    "from_slice (sd_head j) v = Some packed" "map fst skvs = map (seg_key b key) [0..<length segs]"
    "map (\<lambda>(_, v). from_slice (sd_segment j) v) skvs = map Some segs"
    using put_packed_ok [OF assms(1)] by blast
  obtain a1 a2 a3 where acct: "acct = (a1, a2, a3)" by (cases acct)
  have "ao_ops out = (?cap @ dops) @ op_put Meta (flat_key Meta b key []) v # puts MetaSeg skvs"
    using assms(2) pre a c(1) d(1) p(1) pk unfolding head_def by (auto simp: apply_complete_def store_get_def acct)
  moreover have "oh_content head = Slices ss" "oh_size head = sz" by (simp_all add: head_def)
  ultimately show ?thesis using a c(2) d(2) pk p(2-4) unfolding append_assoc by blast
qed

lemma apply_complete_refs:
  assumes "serde_ok j" "segs_owned b st" "uploads_wf j st" "session_alone b key u st" "delq_fresh sq st"
    and "distinct (map pr_part_no ps)" "size (store_refs j st) < 2 ^ 31"
    and "apply_complete j h st b key u ps sq ts = Ok out" "ao_response out = RNone"
  shows "store_refs j (store_apply (ao_ops out) st) = store_refs j st"
proof -
  let ?hk = "flat_key Meta b key []" and ?L = "\<lambda>n. n \<in> set (map pr_part_no ps)" and ?es = "scan_session st b key u"
  obtain sz ss kvs dops head packed segs v skvs where a: "assemble j st b key u ps 0 [] = Ok (Inr (sz, ss))"
    and o: "ao_ops out = (deletes MetaSeg (captured_segs st b key) @ puts Delq kvs) @ dops @ op_put Meta ?hk v # puts MetaSeg skvs"
    and b: "delq_batch j b key sq 0 (captured_refs j st b key) kvs"
    and d: "discards j b key sq ?L ?es (length kvs) dops"
    and hd: "oh_content head = Slices ss" "pack head = (packed, segs)"
    and w: "from_slice (sd_head j) v = Some packed" "map fst skvs = map (seg_key b key) [0..<length segs]"
      "map (\<lambda>(_, v). from_slice (sd_segment j) v) skvs = map Some segs"
    using apply_complete_ok [OF assms(1,8,9)] by blast
  let ?st1 = "store_apply (deletes MetaSeg (captured_segs st b key) @ puts Delq kvs) st"
  let ?st2 = "store_apply dops ?st1"
  have cap: "size (captured_refs j st b key) < 2 ^ 31" using size_mset_mono [OF captured_refs_le [of j st b key]] assms(7) by linarith
  have r1: "store_refs j ?st1 = store_refs j st + held j st Meta ?hk"
    using capture_effect [OF b] cap assms(5) by (simp add: delq_fresh_def)
  have held1: "held j ?st1 cf k = held j st cf k" if "cf \<noteq> MetaSeg" "cf \<noteq> Delq" for cf k
    unfolding held_def kv_at_def using that by (subst capture_lookup(1)) simp_all
  have up1: "fmlookup (?st1 Upload) k = fmlookup (st Upload) k" for k by (rule capture_lookup(1)) simp_all
  have dq1: "fmlookup (?st1 Delq) (delq_key b key sq i) = None" if "length kvs \<le> i" "i < 2 ^ 32" for i
  proof -
    have keys: "map fst kvs = map (\<lambda>i. delq_key b key sq (0 + i)) [0..<length kvs]" using b by (simp add: delq_batch_def)
    have "delq_key b key sq i \<notin> set (map fst kvs)" unfolding keys using that by (auto simp: delq_key_inject)
    then have "map_of (rev kvs) (delq_key b key sq i) = None" by (simp add: map_of_eq_None_iff)
    then show ?thesis using assms(5) by (simp add: lookup_puts lookup_deletes delq_fresh_def)
  qed
  have mss: "mset ss = (\<Sum>p \<leftarrow> ps. held j st Upload (upload_key b key u (pr_part_no p)))"
    "\<forall>p \<in> set ps. fmlookup (st Upload) (upload_key b key u (pr_part_no p)) \<noteq> None"
    using assemble_ok [OF a] by auto
  note f = scan_session_facts [where st = st and b = b and key = key and u = u]
  have "length kvs \<le> size (captured_refs j st b key)" using b by (simp add: delq_batch_def)
  then have sz: "length kvs + (\<Sum>(_, v) \<leftarrow> ?es. size (refs_of j Upload v)) < 2 ^ 32"
    using cap f(3) [where j = j] assms(7) power_Suc [of "2 :: nat" 31] by simp
  have "store_refs j ?st2 + (\<Sum>(k, v) \<leftarrow> ?es. if captures ?L k then {#} else refs_of j Upload v) = store_refs j ?st1"
    using d f(1,2) sz dq1 up1 unfolding discards_def by simp
  then have r2: "store_refs j ?st2 + mset ss = store_refs j ?st1"
    using listed_refs [OF assms(3,4,6) mss(2)] mss(1) by simp
  have other: "?st2 c = ?st1 c" if "c \<noteq> Upload" "c \<noteq> Delq" for c using d that unfolding discards_def by blast
  have "held j ?st2 Meta ?hk = held j st Meta ?hk" using held1 [of Meta ?hk] other [of Meta] by (simp add: held_def)
  moreover have "fmlookup (?st2 MetaSeg) (seg_key b key n) = None" for n
  proof -
    have m: "?st2 MetaSeg = ?st1 MetaSeg" by (rule other) simp_all
    show ?thesis unfolding m using captured_segs_gone [OF assms(2)] by (simp only: capture_lookup(2))
  qed
  moreover have "length (into_slices (oh_content head)) < 2 ^ 32"
  proof -
    have "mset ss \<subseteq># store_refs j ?st1" using r2 by (metis mset_subset_eq_add_right)
    then have "length ss \<le> size (store_refs j ?st1)" by (metis size_mset size_mset_mono)
    moreover have "size (store_refs j ?st1) \<le> size (store_refs j st) + size (store_refs j st)"
      using r1 size_mset_mono [OF held_le [of j st Meta ?hk]] by simp
    ultimately show ?thesis using assms(7) hd(1) by (simp add: into_slices_def)
  qed
  ultimately have "store_refs j (store_apply (op_put Meta ?hk v # puts MetaSeg skvs) ?st2) + held j st Meta ?hk = store_refs j ?st2 + mset ss"
    using put_packed_effect [OF hd(2) _ w, of ?st2] hd(1) by (simp add: into_slices_def)
  moreover have "store_apply (ao_ops out) st = store_apply (op_put Meta ?hk v # puts MetaSeg skvs) ?st2"
    unfolding o store_apply_append ..
  ultimately show ?thesis using r1 r2 by (simp add: ac_simps)
qed

section \<open>What every operation keeps\<close>

definition flat_wf :: "serde \<Rightarrow> store \<Rightarrow> bool" where
  "flat_wf j st \<longleftrightarrow> (\<forall>b. segs_owned b st) \<and> uploads_wf j st"

text \<open>The queue gains only entries of the current event.\<close>

definition delq_grows :: "u64 \<Rightarrow> store \<Rightarrow> store \<Rightarrow> bool" where
  "delq_grows sq st st' \<longleftrightarrow>
     (\<forall>k. fmlookup (st' Delq) k \<noteq> None \<longrightarrow> fmlookup (st Delq) k \<noteq> None \<or> (\<exists>b key i. k = delq_key b key sq i))"

lemma flat_key_eq: "flat_key cf b k s = flat_key cf b' k' s' \<longleftrightarrow> b = b' \<and> k @ s = k' @ s'"
  by (cases b; cases b') (auto simp: flat_key_def)

lemma seg_key_eq: "seg_key b k m = seg_key b' k' n \<Longrightarrow> b = b' \<and> k = k'"
  by (auto simp: seg_key_def flat_key_eq)

lemma puts_lookup_neq: "k \<notin> fst ` set kvs \<Longrightarrow> fmlookup (store_apply (puts cf kvs) st c) k = fmlookup (st c) k"
proof -
  assume "k \<notin> fst ` set kvs"
  then have "map_of (rev kvs) k = None" by (simp add: map_of_eq_None_iff)
  then show ?thesis by (simp add: lookup_puts)
qed

lemma delq_grows_puts:
  assumes "delq_batch j b key sq n refs kvs"
  shows "delq_grows sq st (store_apply (puts Delq kvs) st)"
  unfolding delq_grows_def
proof (intro allI impI)
  fix k assume k: "fmlookup (store_apply (puts Delq kvs) st Delq) k \<noteq> None"
  show "fmlookup (st Delq) k \<noteq> None \<or> (\<exists>b key i. k = delq_key b key sq i)"
    using k lookup_delq_batch_other [OF assms, of k st] by metis
qed

lemma delq_grows_trans: "delq_grows sq a b \<Longrightarrow> delq_grows sq b c \<Longrightarrow> delq_grows sq a c"
  unfolding delq_grows_def by blast

lemma delq_grows_same: "st' Delq = st Delq \<Longrightarrow> delq_grows sq st st'"
  by (simp add: delq_grows_def)

text \<open>Segments disappear, or appear for an object that has its head; heads appear, or disappear together with
  their segments.\<close>

lemma segs_owned_change:
  assumes "\<And>b. segs_owned b st"
    and "\<And>b k n. fmlookup (st' MetaSeg) (seg_key b k n) \<noteq> None \<Longrightarrow>
        fmlookup (st MetaSeg) (seg_key b k n) \<noteq> None \<or> fmlookup (st' Meta) (flat_key Meta b k []) \<noteq> None"
    and "\<And>b k n. fmlookup (st Meta) (flat_key Meta b k []) \<noteq> None \<Longrightarrow> fmlookup (st' Meta) (flat_key Meta b k []) = None \<Longrightarrow>
        fmlookup (st' MetaSeg) (seg_key b k n) = None"
  shows "segs_owned b st'"
  using assms unfolding segs_owned_def by metis

lemma head_and_segs_owned:
  assumes "\<And>b. segs_owned b st" "map fst skvs = map (seg_key b key) [0..<length segs]"
    and "st1 Meta = st Meta" "\<And>k. fmlookup (st1 MetaSeg) k \<noteq> None \<Longrightarrow> fmlookup (st MetaSeg) k \<noteq> None"
  shows "segs_owned b' (store_apply (op_put Meta (flat_key Meta b key []) v # puts MetaSeg skvs) st1)"
proof (rule segs_owned_change [OF assms(1)])
  let ?st' = "store_apply (op_put Meta (flat_key Meta b key []) v # puts MetaSeg skvs) st1"
  have meta: "fmlookup (?st' Meta) k = (if k = flat_key Meta b key [] then Some v else fmlookup (st Meta) k)" for k
    using assms(3) by (simp add: puts_other)
  fix b0 k n assume pres: "fmlookup (?st' MetaSeg) (seg_key b0 k n) \<noteq> None"
  have old: "seg_key b0 k n \<notin> fst ` set skvs \<Longrightarrow> fmlookup (?st' MetaSeg) (seg_key b0 k n) = fmlookup (st1 MetaSeg) (seg_key b0 k n)"
    by (simp add: puts_lookup_neq)
  have new: "seg_key b0 k n \<in> fst ` set skvs \<Longrightarrow> b0 = b \<and> k = key"
  proof -
    assume "seg_key b0 k n \<in> fst ` set skvs"
    then have "seg_key b0 k n \<in> set (map fst skvs)" by simp
    then show "b0 = b \<and> k = key" unfolding assms(2) using seg_key_eq by auto
  qed
  show "fmlookup (st MetaSeg) (seg_key b0 k n) \<noteq> None \<or> fmlookup (?st' Meta) (flat_key Meta b0 k []) \<noteq> None"
  proof (cases "seg_key b0 k n \<in> fst ` set skvs")
    case True
    then show ?thesis using new meta by simp
  next
    case False
    then have "fmlookup (st1 MetaSeg) (seg_key b0 k n) \<noteq> None" using pres old by simp
    then show ?thesis using assms(4) by blast
  qed
next
  let ?st' = "store_apply (op_put Meta (flat_key Meta b key []) v # puts MetaSeg skvs) st1"
  fix b0 k n assume "fmlookup (st Meta) (flat_key Meta b0 k []) \<noteq> None" "fmlookup (?st' Meta) (flat_key Meta b0 k []) = None"
  then show "fmlookup (?st' MetaSeg) (seg_key b0 k n) = None" using assms(3) by (simp add: puts_other split: if_splits)
qed

lemma uploads_wf_change:
  assumes "uploads_wf j st" "\<And>k v. fmlookup (st' Upload) k = Some v \<Longrightarrow> fmlookup (st Upload) k = Some v
      \<or> (\<exists>n. part_no_of k = Some n \<and> (n = 0 \<longrightarrow> refs_of j Upload v = {#}))"
  shows "uploads_wf j st'"
  using assms unfolding uploads_wf_def by blast

lemma apply_put_keeps:
  assumes "serde_ok j" "flat_wf j st" "apply_put j st b key head sq ts = Ok out"
  shows "flat_wf j (store_apply (ao_ops out) st) \<and> delq_grows sq st (store_apply (ao_ops out) st)"
proof -
  obtain packed segs where pk: "pack head = (packed, segs)" by (cases "pack head")
  obtain kvs v skvs where o: "ao_ops out = (deletes MetaSeg (captured_segs st b key) @ puts Delq kvs) @ op_put Meta (flat_key Meta b key []) v # puts MetaSeg skvs"
    "delq_batch j b key sq 0 (captured_refs j st b key) kvs" "map fst skvs = map (seg_key b key) [0..<length segs]"
    using apply_put_ok [OF assms(1) pk, of st b key sq ts] assms(3) by auto
  let ?st0 = "store_apply (deletes MetaSeg (captured_segs st b key)) st"
  let ?st1 = "store_apply (puts Delq kvs) ?st0"
  have meta: "?st1 Meta = st Meta" by (rule fmap_ext) (simp add: puts_other lookup_deletes)
  have seg: "fmlookup (?st1 MetaSeg) k \<noteq> None \<Longrightarrow> fmlookup (st MetaSeg) k \<noteq> None" for k
    by (simp add: puts_other lookup_deletes split: if_splits)
  have st': "store_apply (ao_ops out) st = store_apply (op_put Meta (flat_key Meta b key []) v # puts MetaSeg skvs) ?st1"
    by (simp only: o(1) store_apply_append)
  have "segs_owned b' (store_apply (ao_ops out) st)" for b'
    unfolding st'
  proof (rule head_and_segs_owned [where st = st and segs = segs])
    show "segs_owned c st" for c using assms(2) by (simp add: flat_wf_def)
  qed (rule o(3), rule meta, erule seg)
  moreover have "store_apply (ao_ops out) st Upload = st Upload"
    unfolding st' by (rule fmap_ext) (simp add: puts_other put_other lookup_deletes)
  moreover have "delq_grows sq st (store_apply (ao_ops out) st)"
  proof (rule delq_grows_trans)
    show "delq_grows sq st ?st0" by (rule delq_grows_same) (rule fmap_ext, simp add: lookup_deletes)
    show "delq_grows sq ?st0 (store_apply (ao_ops out) st)"
      using delq_grows_puts [OF o(2), of ?st0] by (simp add: delq_grows_def st' puts_other put_other)
  qed
  ultimately show ?thesis using assms(2) by (simp add: flat_wf_def uploads_wf_def)
qed

lemma apply_delete_keeps:
  assumes "serde_ok j" "flat_wf j st" "apply_delete j st b key sq ts = Ok out"
  shows "flat_wf j (store_apply (ao_ops out) st) \<and> delq_grows sq st (store_apply (ao_ops out) st)"
proof -
  obtain kvs where o: "ao_ops out = (deletes MetaSeg (captured_segs st b key) @ puts Delq kvs) @ [op_delete Meta (flat_key Meta b key [])]"
    "delq_batch j b key sq 0 (captured_refs j st b key) kvs"
    using apply_delete_ok [OF assms(1), of st b key sq ts] assms(3) by auto
  let ?st0 = "store_apply (deletes MetaSeg (captured_segs st b key)) st"
  let ?st' = "store_op_apply (op_delete Meta (flat_key Meta b key [])) (store_apply (puts Delq kvs) ?st0)"
  have st': "store_apply (ao_ops out) st = ?st'" by (simp add: o(1))
  have own: "segs_owned b st" for b using assms(2) by (simp add: flat_wf_def)
  have gone: "fmlookup (?st' MetaSeg) (seg_key b key n) = None" for n
    using captured_segs_gone [OF own] by (simp add: puts_other)
  have "segs_owned b' ?st'" for b'
  proof (rule segs_owned_change [OF own])
    show "fmlookup (st MetaSeg) (seg_key c k n) \<noteq> None \<or> fmlookup (?st' Meta) (flat_key Meta c k []) \<noteq> None"
      if "fmlookup (?st' MetaSeg) (seg_key c k n) \<noteq> None" for c k n
      using that by (simp add: puts_other lookup_deletes split: if_splits)
    show "fmlookup (?st' MetaSeg) (seg_key c k n) = None"
      if "fmlookup (st Meta) (flat_key Meta c k []) \<noteq> None" "fmlookup (?st' Meta) (flat_key Meta c k []) = None" for c k n
    proof -
      have "flat_key Meta c k [] = flat_key Meta b key []" using that by (auto simp: puts_other lookup_deletes split: if_splits)
      then have "c = b" "k = key" by (simp_all add: flat_key_eq)
      then show ?thesis using gone by simp
    qed
  qed
  moreover have "?st' Upload = st Upload" by (rule fmap_ext) (simp add: puts_other lookup_deletes)
  moreover have "delq_grows sq st ?st'"
  proof (rule delq_grows_trans)
    show "delq_grows sq st ?st0" by (rule delq_grows_same) (rule fmap_ext, simp add: lookup_deletes)
    show "delq_grows sq ?st0 ?st'" using delq_grows_puts [OF o(2), of ?st0] by (simp add: delq_grows_def)
  qed
  ultimately show ?thesis using assms(2) unfolding st' by (simp add: flat_wf_def uploads_wf_def)
qed

lemma upload_only_keeps:
  assumes "flat_wf j st" "st' Meta = st Meta" "st' MetaSeg = st MetaSeg" "uploads_wf j st'"
  shows "flat_wf j st'"
  using assms by (simp add: flat_wf_def segs_owned_def)

lemma apply_create_keeps:
  assumes "serde_ok j" "flat_wf j st" "apply_create j st b key u ts = Ok out"
  shows "flat_wf j (store_apply (ao_ops out) st) \<and> delq_grows sq st (store_apply (ao_ops out) st)
    \<and> store_refs j (store_apply (ao_ops out) st) = store_refs j st"
proof (cases "fmlookup (st Upload) (upload_key b key u 0)")
  case (Some s)
  then show ?thesis using assms(2,3) by (auto simp: apply_create_def store_get_def no_delta_def delq_grows_def)
next
  case None
  let ?s = "\<lparr>us_upload_id = u, us_init_ts = ts\<rparr>" and ?k = "upload_key b key u 0"
  obtain v where v: "to_vec (sd_session j) ?s = Some v"
    using assms(1) codec_okE [of "sd_session j" ?s] unfolding serde_ok_def by blast
  have "from_slice (sd_part j) v = None" using assms(1) v unfolding serde_ok_def by blast
  then have r: "refs_of j Upload v = {#}" by (simp add: refs_of_def extract_refs_def)
  have o: "ao_ops out = [op_put Upload ?k v]" using assms(3) None v by (auto simp: apply_create_def store_get_def encode_def no_delta_def)
  let ?st' = "store_op_apply (op_put Upload ?k v) st"
  have "uploads_wf j ?st'"
    by (rule uploads_wf_change [of j st]) (use assms(2) r in \<open>auto simp: flat_wf_def split: if_splits\<close>)
  then have "flat_wf j ?st'" by (rule upload_only_keeps [OF assms(2), rotated 2]) (simp_all add: put_other)
  moreover have "delq_grows sq st ?st'" by (rule delq_grows_same) (simp add: put_other)
  moreover have "store_refs j ?st' = store_refs j st"
    using store_refs_put [of j Upload ?k v st] None r by (simp add: held_def kv_at_def)
  ultimately show ?thesis by (simp add: o)
qed

lemma apply_put_part_keeps:
  assumes "serde_ok j" "flat_wf j st" "n \<noteq> 0" "apply_put_part j st b key u n part sq ts = Ok out"
  shows "flat_wf j (store_apply (ao_ops out) st) \<and> delq_grows sq st (store_apply (ao_ops out) st)"
proof (cases "fmlookup (st Upload) (upload_key b key u 0)")
  case None
  then show ?thesis using assms(2,4) by (auto simp: apply_put_part_def store_get_def no_delta_def delq_grows_def)
next
  case (Some s)
  let ?k = "upload_key b key u n"
  obtain kvs v where o: "ao_ops out = puts Delq kvs @ [op_put Upload ?k v]" "delq_batch j b key sq 0 (held j st Upload ?k) kvs"
    using apply_put_part_ok [OF assms(1), of st b key u n part sq ts] Some assms(4) by auto
  let ?st' = "store_op_apply (op_put Upload ?k v) (store_apply (puts Delq kvs) st)"
  have "uploads_wf j ?st'"
    by (rule uploads_wf_change [of j st]) (use assms(2,3) in \<open>auto simp: flat_wf_def puts_other split: if_splits\<close>)
  then have "flat_wf j ?st'" by (rule upload_only_keeps [OF assms(2), rotated 2]) (simp_all add: put_other puts_other)
  moreover have "delq_grows sq st ?st'" using delq_grows_puts [OF o(2), of st] by (simp add: delq_grows_def)
  ultimately show ?thesis by (simp add: o(1))
qed

lemma discards_keeps:
  assumes "discards j b key sq listed entries n ops"
  shows "store_apply ops st Meta = st Meta" "store_apply ops st MetaSeg = st MetaSeg"
    and "uploads_wf j st \<Longrightarrow> uploads_wf j (store_apply ops st)" and "delq_grows sq st (store_apply ops st)"
proof -
  show "store_apply ops st Meta = st Meta" "store_apply ops st MetaSeg = st MetaSeg"
    using assms unfolding discards_def by simp_all
  have up: "fmlookup (store_apply ops st Upload) k = (if k \<in> fst ` set entries then None else fmlookup (st Upload) k)" for k
    using assms unfolding discards_def by blast
  show "uploads_wf j st \<Longrightarrow> uploads_wf j (store_apply ops st)"
    by (rule uploads_wf_change [of j st]) (auto simp: up split: if_splits)
  have "(\<forall>i. k \<noteq> delq_key b key sq i) \<Longrightarrow> fmlookup (store_apply ops st Delq) k = fmlookup (st Delq) k" for k
    using assms unfolding discards_def by blast
  then show "delq_grows sq st (store_apply ops st)" unfolding delq_grows_def by metis
qed

lemma apply_abort_keeps:
  assumes "serde_ok j" "flat_wf j st" "apply_abort j st b key u sq ts = Ok out"
  shows "flat_wf j (store_apply (ao_ops out) st) \<and> delq_grows sq st (store_apply (ao_ops out) st)"
proof (cases "fmlookup (st Upload) (upload_key b key u 0)")
  case None
  then show ?thesis using assms(2,3) by (auto simp: apply_abort_def store_get_def no_delta_def delq_grows_def)
next
  case (Some s)
  let ?es = "scan_session st b key u"
  obtain m ops where d: "discard_session j b key sq ts (\<lambda>_. False) ?es 0 [] = Ok (m, ops)" "discards j b key sq (\<lambda>_. False) ?es 0 ops"
    using discard_session_ok [OF assms(1), of b key sq ts "\<lambda>_. False" ?es 0 "[]"] by auto
  have o: "ao_ops out = ops" using assms(3) d(1) Some by (auto simp: apply_abort_def store_get_def no_delta_def)
  have "uploads_wf j st" using assms(2) by (simp add: flat_wf_def)
  then show ?thesis unfolding o using discards_keeps [OF d(2)] upload_only_keeps [OF assms(2)] by blast
qed

lemma apply_complete_keeps:
  assumes "serde_ok j" "flat_wf j st" "apply_complete j h st b key u ps sq ts = Ok out" "ao_response out = RNone"
  shows "flat_wf j (store_apply (ao_ops out) st) \<and> delq_grows sq st (store_apply (ao_ops out) st)"
proof -
  obtain kvs dops segs v skvs where
    o: "ao_ops out = (deletes MetaSeg (captured_segs st b key) @ puts Delq kvs) @ dops @ op_put Meta (flat_key Meta b key []) v # puts MetaSeg skvs"
    and bt: "delq_batch j b key sq 0 (captured_refs j st b key) kvs"
    and d: "discards j b key sq (\<lambda>n. n \<in> set (map pr_part_no ps)) (scan_session st b key u) (length kvs) dops"
    and sk: "map fst skvs = map (seg_key b key) [0..<length (segs :: slice_segment list)]"
    using apply_complete_ok [OF assms(1,3,4)] by blast
  let ?st0 = "store_apply (deletes MetaSeg (captured_segs st b key)) st"
  let ?st1 = "store_apply (puts Delq kvs) ?st0"
  let ?st2 = "store_apply dops ?st1"
  note dk = discards_keeps [OF d, of ?st1]
  have meta: "?st2 Meta = st Meta" unfolding dk(1) by (rule fmap_ext) (simp add: puts_other lookup_deletes)
  have seg: "fmlookup (?st2 MetaSeg) k \<noteq> None \<Longrightarrow> fmlookup (st MetaSeg) k \<noteq> None" for k
    unfolding dk(2) by (simp add: puts_other lookup_deletes split: if_splits)
  have st': "store_apply (ao_ops out) st = store_apply (op_put Meta (flat_key Meta b key []) v # puts MetaSeg skvs) ?st2"
    by (simp only: o store_apply_append)
  have "segs_owned b' (store_apply (ao_ops out) st)" for b'
    unfolding st'
  proof (rule head_and_segs_owned [where st = st and segs = segs])
    show "segs_owned c st" for c using assms(2) by (simp add: flat_wf_def)
  qed (rule sk, rule meta, erule seg)
  moreover have "?st1 Upload = st Upload" by (rule fmap_ext) (simp add: puts_other lookup_deletes)
  then have "uploads_wf j ?st1" using assms(2) by (simp add: flat_wf_def uploads_wf_def)
  then have "uploads_wf j ?st2" by (rule dk(3))
  then have "uploads_wf j (store_apply (ao_ops out) st)" by (simp add: uploads_wf_def st' puts_other put_other)
  moreover have "delq_grows sq st (store_apply (ao_ops out) st)"
  proof (rule delq_grows_trans)
    show "delq_grows sq st ?st0" by (rule delq_grows_same) (rule fmap_ext, simp add: lookup_deletes)
    have "delq_grows sq ?st0 ?st2" using delq_grows_trans [OF delq_grows_puts [OF bt] dk(4)] .
    then show "delq_grows sq ?st0 (store_apply (ao_ops out) st)" by (simp add: delq_grows_def st' puts_other put_other)
  qed
  ultimately show ?thesis by (simp add: flat_wf_def)
qed

section \<open>One operation\<close>

fun flat_op_refs :: "flat_op \<Rightarrow> slice multiset" where
  "flat_op_refs (FPut _ _ head _) = mset (into_slices (oh_content head))"
| "flat_op_refs (FPutPart _ _ _ _ part _) = mset (pm_slices part)"
| "flat_op_refs _ = {#}"

text \<open>Parts are numbered from one; a completion lists each part once, and no other upload shares its prefix.\<close>

fun flat_op_ok :: "store \<Rightarrow> flat_op \<Rightarrow> bool" where
  "flat_op_ok st (FPutPart _ _ _ n _ _) \<longleftrightarrow> n \<noteq> 0"
| "flat_op_ok st (FCompleteMultipart b key u ps _) \<longleftrightarrow> distinct (map pr_part_no ps) \<and> session_alone b key u st"
| "flat_op_ok st _ \<longleftrightarrow> True"

lemma apply_complete_rejected:
  assumes "serde_ok j" "apply_complete j h st b key u ps sq ts = Ok out" "ao_response out \<noteq> RNone"
  shows "ao_ops out = []"
proof -
  have pre: "ao_ops out = []" if "fmlookup (st Upload) (upload_key b key u 0) = None \<or> ps = []"
    using assms(2) that by (auto simp: apply_complete_def store_get_def no_delta_def split: if_splits)
  show ?thesis
  proof (cases "fmlookup (st Upload) (upload_key b key u 0) = None \<or> ps = []")
    case False
    obtain r where r: "assemble j st b key u ps 0 [] = Ok r"
      using assms(2) False by (auto simp: apply_complete_def store_get_def result_simps)
    show ?thesis
    proof (cases r)
      case (Inl reason)
      then show ?thesis using assms(2) False r by (auto simp: apply_complete_def store_get_def no_delta_def)
    next
      case (Inr szss)
      obtain sz ss where s: "szss = (sz, ss)" by (cases szss)
      obtain acct kvs where c: "capture_old j st b key sq ts [] =
          Ok (\<lparr>co_account = acct, co_next_seg_no = of_nat (length kvs)\<rparr>, deletes MetaSeg (captured_segs st b key) @ puts Delq kvs)"
        using capture_old_ok [OF assms(1), of st b key sq ts "[]"] unfolding append_Nil by blast
      obtain a1 a2 a3 where acct: "acct = (a1, a2, a3)" by (cases acct)
      have "ao_response out = RNone"
        using assms(2) False unfolding apply_complete_def store_get_def
        by (auto simp: r Inr s c acct result_simps Let_def case_prod_unfold)
      then show ?thesis using assms(3) by simp
    qed
  qed (rule pre)
qed

lemma flat_step:
  assumes "serde_ok j" "flat_wf j st" "delq_fresh sq st" "flat_op_ok st op"
    and "size (store_refs j st) + size (flat_op_refs op) < 2 ^ 31" "flat_apply j h st op sq = Ok out"
  shows "store_refs j (store_apply (ao_ops out) st) = store_refs j st + (if ao_response out = RNone then flat_op_refs op else {#})"
    and "flat_wf j (store_apply (ao_ops out) st)" and "delq_grows sq st (store_apply (ao_ops out) st)"
proof -
  have own: "segs_owned b st" for b using assms(2) by (simp add: flat_wf_def)
  have up: "uploads_wf j st" using assms(2) by (simp add: flat_wf_def)
  have "store_refs j (store_apply (ao_ops out) st) = store_refs j st + (if ao_response out = RNone then flat_op_refs op else {#})
    \<and> flat_wf j (store_apply (ao_ops out) st) \<and> delq_grows sq st (store_apply (ao_ops out) st)"
  proof (cases op)
    case (FPut b key head ts)
    obtain packed segs where pk: "pack head = (packed, segs)" by (cases "pack head")
    have run: "apply_put j st b key head sq ts = Ok out" using assms(6) FPut by simp
    moreover have "ao_response out = RNone" using apply_put_ok [OF assms(1) pk, of st b key sq ts] run by auto
    moreover have "size (store_refs j st) + length (into_slices (oh_content head)) < 2 ^ 32" using assms(5) FPut by simp
    ultimately show ?thesis using apply_put_refs [OF assms(1) own assms(3)] apply_put_keeps [OF assms(1,2)] FPut by simp
  next
    case (FDelete b key ts)
    then have run: "apply_delete j st b key sq ts = Ok out" using assms(6) by simp
    then show ?thesis using apply_delete_refs [OF assms(1,3) _ run] apply_delete_keeps [OF assms(1,2) run] assms(5) FDelete by simp
  next
    case (FCreateMultipart b key u ts)
    then show ?thesis using apply_create_keeps [OF assms(1,2)] assms(6) by simp
  next
    case (FPutPart b key u n part ts)
    then have run: "apply_put_part j st b key u n part sq ts = Ok out" and n: "n \<noteq> 0" using assms(4,6) by simp_all
    then show ?thesis using apply_put_part_refs [OF assms(1,3) _ run] apply_put_part_keeps [OF assms(1,2) n run] assms(5) FPutPart by simp
  next
    case (FCompleteMultipart b key u ps ts)
    then have run: "apply_complete j h st b key u ps sq ts = Ok out" and c: "distinct (map pr_part_no ps)" "session_alone b key u st"
      using assms(4,6) by simp_all
    show ?thesis
    proof (cases "ao_response out = RNone")
      case True
      then show ?thesis using apply_complete_refs [OF assms(1) own up c(2) assms(3) c(1) _ run] apply_complete_keeps [OF assms(1,2) run]
          assms(5) FCompleteMultipart by simp
    next
      case False
      then show ?thesis using apply_complete_rejected [OF assms(1) run] assms(2) by (simp add: delq_grows_def)
    qed
  next
    case (FAbortMultipart b key u ts)
    then have run: "apply_abort j st b key u sq ts = Ok out" using assms(6) by simp
    then show ?thesis using apply_abort_refs [OF assms(1) up assms(3) _ run] apply_abort_keeps [OF assms(1,2) run] assms(5) FAbortMultipart by simp
  qed
  then show "store_refs j (store_apply (ao_ops out) st) = store_refs j st + (if ao_response out = RNone then flat_op_refs op else {#})"
    "flat_wf j (store_apply (ao_ops out) st)" "delq_grows sq st (store_apply (ao_ops out) st)" by blast+
qed

end
