(* ===== verification/Meta_Partition.thy ===== *)
theory Meta_Partition
  imports Meta_Values
begin

text \<open>
  Partitions of the metadata key space (\<open>epoch-meta/src/partition/mod.rs\<close>): half-open intervals of
  (bucket, routing key) coordinates in one namespace, their split, the membership test of an encoded key,
  the byte ranges a snapshot exports, and the registry that routes a request to a local raft group.
\<close>

datatype namespace = Flat | Hier

definition primary_cf :: "namespace \<Rightarrow> meta_cf" where
  "primary_cf ns = (case ns of Flat \<Rightarrow> Meta | Hier \<Rightarrow> Fs)"

type_synonym coord = "bucket_id \<times> bytes"

record partition_range =
  pr_ns :: namespace
  pr_start :: "coord option"
  pr_end :: "coord option"

definition range_full :: "namespace \<Rightarrow> partition_range" where
  "range_full ns = \<lparr>pr_ns = ns, pr_start = None, pr_end = None\<rparr>"

text \<open>The order of pairs of a bucket number and a byte string.\<close>

definition coord_less :: "coord \<Rightarrow> coord \<Rightarrow> bool" where
  "coord_less x y \<longleftrightarrow> bucket_get (fst x) < bucket_get (fst y) \<or> (bucket_get (fst x) = bucket_get (fst y) \<and> snd x < snd y)"

definition contains_coord :: "partition_range \<Rightarrow> bucket_id \<Rightarrow> bytes \<Rightarrow> bool" where
  "contains_coord r bucket routing =
     ((case pr_start r of None \<Rightarrow> True | Some s \<Rightarrow> \<not> coord_less (bucket, routing) s)
      \<and> (case pr_end r of None \<Rightarrow> True | Some e \<Rightarrow> coord_less (bucket, routing) e))"

definition range_split :: "partition_range \<Rightarrow> coord \<Rightarrow> (partition_range \<times> partition_range) option" where
  "range_split r at =
     (if \<not> contains_coord r (fst at) (snd at) then None
      else if (case pr_start r of Some s \<Rightarrow> s = at | None \<Rightarrow> False) then None
      else Some (\<lparr>pr_ns = pr_ns r, pr_start = pr_start r, pr_end = Some at\<rparr>,
                 \<lparr>pr_ns = pr_ns r, pr_start = Some at, pr_end = pr_end r\<rparr>))"

definition owns_shared_cf :: "partition_range \<Rightarrow> byte \<Rightarrow> bool" where
  "owns_shared_cf r tag =
     (let other_primary = (case pr_ns r of Flat \<Rightarrow> cf_tag Fs | Hier \<Rightarrow> cf_tag Meta)
      in tag \<in> set (map cf_tag ALL_CFS) \<and> tag \<noteq> other_primary)"

definition range_contains :: "partition_range \<Rightarrow> bytes \<Rightarrow> bool" where
  "range_contains r key =
     (case key of
        [] \<Rightarrow> False
      | tag # _ \<Rightarrow>
          if tag = cf_tag (primary_cf (pr_ns r)) \<or> owns_shared_cf r tag
          then (case routing_key key of None \<Rightarrow> False | Some (bucket, routing) \<Rightarrow> contains_coord r bucket routing)
          else False)"

definition cf_bound :: "meta_cf \<Rightarrow> coord \<Rightarrow> bytes" where
  "cf_bound cf c = cf_tag cf # to_be_bytes 8 (bucket_get (fst c)) @ snd c"

definition is_shared_cf :: "meta_cf \<Rightarrow> bool" where
  "is_shared_cf cf \<longleftrightarrow> cf \<noteq> Meta \<and> cf \<noteq> Fs"

definition ns_bit_bound :: "meta_cf \<Rightarrow> bytes" where
  "ns_bit_bound cf = cf_tag cf # to_be_bytes 8 HIER_BUCKET_BIT"

definition range_cfs :: "namespace \<Rightarrow> meta_cf list" where
  "range_cfs ns = (case ns of Flat \<Rightarrow> [Meta, MetaSeg, Upload, Delq, Ttl] | Hier \<Rightarrow> [Fs, MetaSeg, Upload, Delq, Ttl])"

definition cf_start :: "partition_range \<Rightarrow> meta_cf \<Rightarrow> bytes" where
  "cf_start r cf = (case pr_start r of None \<Rightarrow> [cf_tag cf] | Some s \<Rightarrow> cf_bound cf s)"

definition cf_stop :: "partition_range \<Rightarrow> meta_cf \<Rightarrow> bytes" where
  "cf_stop r cf =
     (case pr_end r of
        None \<Rightarrow> [cf_tag cf + 1]
      | Some e \<Rightarrow> if cf = Ttl then cf_tag cf # to_be_bytes 8 (bucket_get (fst e)) else cf_bound cf e)"

definition cf_range :: "partition_range \<Rightarrow> meta_cf \<Rightarrow> key_range" where
  "cf_range r cf =
     (let start = cf_start r cf; stop = cf_stop r cf; bit_bound = ns_bit_bound cf
      in \<lparr>kr_cf = cf,
          kr_start = (if is_shared_cf cf \<and> pr_ns r = Hier \<and> start < bit_bound then bit_bound else start),
          kr_end = (if is_shared_cf cf \<and> pr_ns r = Flat \<and> bit_bound < stop then bit_bound else stop)\<rparr>)"

definition key_ranges :: "partition_range \<Rightarrow> key_range list" where
  "key_ranges r = map (cf_range r) (range_cfs (pr_ns r))"

definition primary_scan_bounds :: "partition_range \<Rightarrow> meta_cf \<times> bytes \<times> bytes" where
  "primary_scan_bounds r =
     (let cf = primary_cf (pr_ns r)
      in (cf, (case pr_start r of None \<Rightarrow> [cf_tag cf] | Some s \<Rightarrow> cf_bound cf s),
              (case pr_end r of None \<Rightarrow> [cf_tag cf + 1] | Some e \<Rightarrow> cf_bound cf e)))"

section \<open>The registry\<close>

record partition_info =
  pi_range :: partition_range
  pi_peers :: "(u64 \<times> string) list"

type_synonym registry = "(u64, partition_info) kv"

definition registry_register :: "u64 \<Rightarrow> partition_info \<Rightarrow> registry \<Rightarrow> registry" where
  "registry_register g info reg = fmupd g info reg"

definition registry_route :: "registry \<Rightarrow> bucket_id \<Rightarrow> bytes \<Rightarrow> u64 option" where
  "registry_route reg bucket routing =
     map_option fst (find (\<lambda>(_, info). contains_coord (pi_range info) bucket routing) (kv_entries reg))"

definition registry_peer_addr :: "registry \<Rightarrow> u64 \<Rightarrow> u64 \<Rightarrow> string option" where
  "registry_peer_addr reg g node =
     (case fmlookup reg g of
        None \<Rightarrow> None
      | Some info \<Rightarrow> map_option snd (find (\<lambda>(peer, _). peer = node) (pi_peers info)))"

definition registry_info :: "registry \<Rightarrow> u64 \<Rightarrow> partition_info option" where
  "registry_info reg g = fmlookup reg g"

section \<open>Splits tile the key space\<close>

lemma coord_trichotomy: "coord_less x y \<or> x = y \<or> coord_less y x"
  by (cases "fst x"; cases "fst y") (auto simp: coord_less_def prod_eq_iff)

lemma coord_less_irrefl [simp]: "\<not> coord_less x x"
  by (simp add: coord_less_def)

lemma coord_less_trans: "coord_less x y \<Longrightarrow> coord_less y z \<Longrightarrow> coord_less x z"
  by (auto simp: coord_less_def)

lemma coord_not_less_trans: "\<not> coord_less x y \<Longrightarrow> \<not> coord_less y z \<Longrightarrow> \<not> coord_less x z"
  by (metis coord_less_trans coord_trichotomy)

text \<open>The two halves of a split: every coordinate of the interval is in exactly one of them.\<close>

lemma range_split_halves:
  assumes "range_split r at = Some (l, rt)"
  shows "contains_coord l b k \<longleftrightarrow> contains_coord r b k \<and> coord_less (b, k) at"
    and "contains_coord rt b k \<longleftrightarrow> contains_coord r b k \<and> \<not> coord_less (b, k) at"
    and "pr_ns l = pr_ns r" "pr_ns rt = pr_ns r"
proof -
  have at: "contains_coord r (fst at) (snd at)" and l: "l = \<lparr>pr_ns = pr_ns r, pr_start = pr_start r, pr_end = Some at\<rparr>"
    and rt: "rt = \<lparr>pr_ns = pr_ns r, pr_start = Some at, pr_end = pr_end r\<rparr>"
    using assms by (auto simp: range_split_def split: if_splits)
  show "pr_ns l = pr_ns r" "pr_ns rt = pr_ns r" by (simp_all add: l rt)
  show "contains_coord l b k \<longleftrightarrow> contains_coord r b k \<and> coord_less (b, k) at"
    using at coord_less_trans [of "(b, k)" at] by (auto simp: l contains_coord_def split: option.splits)
  show "contains_coord rt b k \<longleftrightarrow> contains_coord r b k \<and> \<not> coord_less (b, k) at"
    using at coord_not_less_trans [of "(b, k)" at] by (auto simp: rt contains_coord_def split: option.splits)
qed

text \<open>Partitions that come from the bootstrap partition by splits. A split replaces the range of the parent
  by the left half and registers the right half under a new group.\<close>

inductive registry_reach :: "namespace \<Rightarrow> registry \<Rightarrow> bool" where
  boot: "registry_reach ns (registry_register g \<lparr>pi_range = range_full ns, pi_peers = peers\<rparr> fmempty)"
| split: "registry_reach ns reg \<Longrightarrow> fmlookup reg g = Some info \<Longrightarrow> range_split (pi_range info) at = Some (l, rt) \<Longrightarrow>
     fmlookup reg child = None \<Longrightarrow>
     registry_reach ns (registry_register child \<lparr>pi_range = rt, pi_peers = peers\<rparr> (registry_register g (info\<lparr>pi_range := l\<rparr>) reg))"

definition hosts :: "registry \<Rightarrow> u64 \<Rightarrow> bucket_id \<Rightarrow> bytes \<Rightarrow> bool" where
  "hosts reg g b k \<longleftrightarrow> (case fmlookup reg g of Some info \<Rightarrow> contains_coord (pi_range info) b k | None \<Rightarrow> False)"

lemma registry_reach_tiles: "registry_reach ns reg \<Longrightarrow> \<exists>!g. hosts reg g b k"
proof (induction rule: registry_reach.induct)
  case (boot ns g peers)
  have "hosts (registry_register g \<lparr>pi_range = range_full ns, pi_peers = peers\<rparr> fmempty) x b k \<longleftrightarrow> x = g" for x
    by (auto simp: hosts_def registry_register_def contains_coord_def range_full_def)
  then show ?case by (intro ex1I [of _ g]) blast+
next
  case (split ns reg g info at l rt child peers)
  let ?reg = "registry_register child \<lparr>pi_range = rt, pi_peers = peers\<rparr> (registry_register g (info\<lparr>pi_range := l\<rparr>) reg)"
  have ne: "child \<noteq> g" using split.hyps(2,4) by auto
  have h: "hosts ?reg x b k \<longleftrightarrow>
      (if x = child then hosts reg g b k \<and> \<not> coord_less (b, k) at
       else if x = g then hosts reg g b k \<and> coord_less (b, k) at else hosts reg x b k)" for x
    using split.hyps(2) ne range_split_halves [OF split.hyps(3)]
    by (auto simp: hosts_def registry_register_def)
  obtain y where y: "hosts reg y b k" "\<And>z. hosts reg z b k \<Longrightarrow> z = y" using split.IH by blast
  have yc: "y \<noteq> child" using y(1) split.hyps(4) by (auto simp: hosts_def)
  have hz: "hosts reg z b k \<longleftrightarrow> z = y" for z using y by blast
  have u: "hosts ?reg x b k \<longleftrightarrow> x = (if y = g \<and> \<not> coord_less (b, k) at then child else y)" for x
    unfolding h hz using yc ne by auto
  show ?case by (rule ex1I) (simp_all only: u)
qed

lemma registry_route_hosts: "registry_route reg b k = Some g \<Longrightarrow> hosts reg g b k"
  unfolding registry_route_def hosts_def
  by (auto simp: find_Some_iff set_kv_entries [symmetric] in_set_conv_nth split: option.splits)
     (metis nth_mem option.discI set_kv_entries, metis nth_mem option.inject set_kv_entries)

lemma registry_route_None: "registry_route reg b k = None \<longleftrightarrow> (\<forall>g. \<not> hosts reg g b k)"
  unfolding registry_route_def hosts_def
  by (auto simp: find_None_iff set_kv_entries split: option.splits)



section \<open>Snapshot ranges\<close>

lemma be8_less: "to_be_bytes 8 (a :: u64) < to_be_bytes 8 b \<longleftrightarrow> a < b"
  using be_value_order [of "to_be_bytes 8 a" "to_be_bytes 8 b"] unat_from_be_bytes [of "to_be_bytes 8 a", where 'a = 64]
    unat_from_be_bytes [of "to_be_bytes 8 b", where 'a = 64]
  by (simp add: word_less_nat_alt)

lemma cf_bound_less: "cf_bound cf x < cf_bound cf y \<longleftrightarrow> coord_less x y"
  by (auto simp: cf_bound_def append_less_same_length be8_less coord_less_def)

lemma cf_bound_le: "cf_bound cf x \<le> cf_bound cf y \<longleftrightarrow> \<not> coord_less y x"
  using cf_bound_less [of cf y x] by (simp add: not_less [symmetric])

lemma cf_bound_tag: "cf \<noteq> Applied \<Longrightarrow> [cf_tag cf] \<le> cf_bound cf x \<and> cf_bound cf x < [cf_tag cf + 1]"
  by (cases cf) (auto simp: cf_bound_def cf_tag_def)

lemma ns_bit_bound_eq: "ns_bit_bound cf = cf_bound cf (BucketId HIER_BUCKET_BIT, [])"
  by (simp add: ns_bit_bound_def cf_bound_def)

lemma coord_less_bit: "coord_less (b, k) (BucketId n, []) \<longleftrightarrow> bucket_get b < n"
  by (simp add: coord_less_def)

lemma range_cfs_neq: "cf \<in> set (range_cfs ns) \<Longrightarrow> cf \<noteq> Applied"
  by (cases ns) (auto simp: range_cfs_def)

lemma routing_key_bound: "cf \<in> set (range_cfs ns) \<Longrightarrow> cf \<noteq> Ttl \<Longrightarrow> routing_key (cf_bound cf (b, k)) = Some (b, k)"
  by (cases ns; cases b) (auto simp: range_cfs_def routing_key_def cf_bound_def cf_tag_def Let_def)

lemma range_contains_bound:
  "cf \<in> set (range_cfs (pr_ns r)) \<Longrightarrow> cf \<noteq> Ttl \<Longrightarrow> range_contains r (cf_bound cf (b, k)) \<longleftrightarrow> contains_coord r b k"
  using routing_key_bound [of cf "pr_ns r" b k]
  by (cases "pr_ns r") (auto simp: range_contains_def range_cfs_def cf_bound_def owns_shared_cf_def ALL_CFS_def primary_cf_def cf_tag_def)

definition in_range :: "key_range \<Rightarrow> bytes \<Rightarrow> bool" where
  "in_range kr key \<longleftrightarrow> kr_start kr \<le> key \<and> key < kr_end kr"

lemma cf_range_exact:
  assumes "cf \<in> set (range_cfs (pr_ns r))" "cf \<noteq> Ttl"
  shows "in_range (cf_range r cf) (cf_bound cf (b, k)) \<longleftrightarrow>
    contains_coord r b k \<and> (is_shared_cf cf \<longrightarrow> (HIER_BUCKET_BIT \<le> bucket_get b \<longleftrightarrow> pr_ns r = Hier))"
proof -
  have tag: "[cf_tag cf] \<le> cf_bound cf (b, k)" "cf_bound cf (b, k) < [cf_tag cf + 1]"
    using cf_bound_tag [OF range_cfs_neq [OF assms(1)]] by auto
  let ?key = "cf_bound cf (b, k)" and ?bit = "cf_bound cf (BucketId HIER_BUCKET_BIT, [])"
  have st: "cf_start r cf \<le> ?key \<longleftrightarrow> (case pr_start r of None \<Rightarrow> True | Some s \<Rightarrow> \<not> coord_less (b, k) s)"
    using tag by (cases "pr_start r") (simp_all add: cf_start_def cf_bound_le)
  have en: "?key < cf_stop r cf \<longleftrightarrow> (case pr_end r of None \<Rightarrow> True | Some e \<Rightarrow> coord_less (b, k) e)"
    using tag assms(2) by (cases "pr_end r") (simp_all add: cf_stop_def cf_bound_less)
  have bit: "?bit \<le> ?key \<longleftrightarrow> HIER_BUCKET_BIT \<le> bucket_get b" "?key < ?bit \<longleftrightarrow> \<not> HIER_BUCKET_BIT \<le> bucket_get b"
    by (simp_all add: cf_bound_le cf_bound_less coord_less_bit not_less not_le)
  have c: "contains_coord r b k \<longleftrightarrow> cf_start r cf \<le> ?key \<and> ?key < cf_stop r cf"
    unfolding st en contains_coord_def ..
  show ?thesis
  proof (cases "pr_ns r")
    case Flat
    then have "in_range (cf_range r cf) ?key \<longleftrightarrow> cf_start r cf \<le> ?key \<and> ?key < cf_stop r cf \<and> (is_shared_cf cf \<longrightarrow> ?key < ?bit)"
      by (auto simp: in_range_def cf_range_def Let_def ns_bit_bound_eq)
    then show ?thesis unfolding c bit using Flat by auto
  next
    case Hier
    then have "in_range (cf_range r cf) ?key \<longleftrightarrow> cf_start r cf \<le> ?key \<and> ?key < cf_stop r cf \<and> (is_shared_cf cf \<longrightarrow> ?bit \<le> ?key)"
      by (auto simp: in_range_def cf_range_def Let_def ns_bit_bound_eq)
    then show ?thesis unfolding c bit using Hier by auto
  qed
qed

text \<open>A range that ends inside a bucket and one that starts there: in the expiry family the end bound is the bucket
  alone, so the entries of that bucket are exported by no range, and a range inside one bucket ends before it
  starts.\<close>

lemma ttl_bit_bound: "\<not> ns_bit_bound Ttl < cf_tag Ttl # to_be_bytes 8 (7 :: u64)"
  by (simp add: ns_bit_bound_def be8_less HIER_BUCKET_BIT_def push_bit_eq_mult word_less_nat_alt)

lemma ttl_range_reversed:
  "let kr = cf_range \<lparr>pr_ns = Flat, pr_start = Some (BucketId 7, [109]), pr_end = Some (BucketId 7, [112])\<rparr> Ttl
   in kr_end kr < kr_start kr"
proof -
  have "to_be_bytes 8 (7 :: u64) < to_be_bytes 8 (7 :: u64) @ [109]"
    using append_less_append_iff [of "to_be_bytes 8 (7 :: u64)" "[]" "[109]"] by simp
  then show ?thesis using ttl_bit_bound by (simp add: Let_def cf_range_def cf_start_def cf_stop_def is_shared_cf_def cf_bound_def)
qed

lemma ttl_entry_lost:
  "let r = \<lparr>pr_ns = Flat, pr_start = None, pr_end = Some (BucketId 7, [112])\<rparr>;
       key = cf_tag Ttl # to_be_bytes 8 (7 :: u64) @ suffix_expire_ts 1 @ [109]
   in range_contains r key \<and> \<not> in_range (cf_range r Ttl) key"
proof -
  have "\<not> to_be_bytes 8 (7 :: u64) @ x < to_be_bytes 8 (7 :: u64)" for x
    using append_less_append_iff [of "to_be_bytes 8 (7 :: u64)" x "[]"] by simp
  then have "\<not> in_range (cf_range \<lparr>pr_ns = Flat, pr_start = None, pr_end = Some (BucketId 7, [112])\<rparr> Ttl)
      (cf_tag Ttl # to_be_bytes 8 (7 :: u64) @ suffix_expire_ts 1 @ [109])"
    using ttl_bit_bound by (simp add: in_range_def cf_range_def cf_start_def cf_stop_def is_shared_cf_def)
  then show ?thesis
    by (simp add: Let_def range_contains_def routing_key_def contains_coord_def coord_less_def
        owns_shared_cf_def ALL_CFS_def primary_cf_def cf_tag_def suffix_expire_ts_def)
qed

text \<open>The bootstrap partition split at the least coordinate has an empty left half.\<close>

lemma split_empty_left:
  "\<exists>l rt. range_split (range_full Flat) (BucketId 0, []) = Some (l, rt) \<and> \<not> contains_coord l b k"
  by (simp add: range_split_def range_full_def contains_coord_def coord_less_def)

end
