(* ===== verification/Meta_Hier.thy ===== *)
theory Meta_Hier
  imports Meta_Flat Meta_Partition
begin

text \<open>
  The hierarchical namespace (\<open>epoch-meta/src/ns_hier/mod.rs\<close>): a directory is a sentinel record at the
  empty name of its own inode, and a child is a file record or a directory entry at (parent inode, name).
  Every handler reads the current store and returns one batch. Making and removing a directory are two
  steps each; the link in the parent and the sentinel are separate operations.
\<close>

definition SENTINEL_NAME :: bytes where "SENTINEL_NAME = []"

datatype hier_op =
    HWrite bucket_id u64 bytes u64 bytes content_head http_meta i64
  | HUnlink bucket_id u64 bytes i64
  | HMkdirSentinel bucket_id u64 bytes i64
  | HMkdirLink bucket_id u64 bytes u64 i64
  | HRmdirUnlink bucket_id u64 bytes i64
  | HRmdirSentinel bucket_id u64 i64
  | HRenameSameDir bucket_id u64 bytes bytes i64

section \<open>Reading and capturing\<close>

definition capture_old_file ::
    "serde \<Rightarrow> store \<Rightarrow> bucket_id \<Rightarrow> u64 \<Rightarrow> bytes \<Rightarrow> u64 \<Rightarrow> i64 \<Rightarrow> store_op list
       \<Rightarrow> (meta_store_error, (u64 \<times> u64 \<times> u64) \<times> store_op list) result" where
  "capture_old_file j st bucket parent_ino name sq ts ops =
     (case store_get st Fs (hier_key Fs bucket parent_ino name []) of
        None \<Rightarrow> Ok ((0, 0, 0), ops)
      | Some old \<Rightarrow>
          let account = (case decode (sd_fs j) old of
                           Ok (File f) \<Rightarrow> let (ib, ic) = inline_account (fr_content f) in (ib, ic, fr_size f)
                         | _ \<Rightarrow> (0, 0, 0));
              seg_prefix = hier_key MetaSeg bucket parent_ino name [];
              segs = scan_pages st MetaSeg seg_prefix (scan_end MetaSeg seg_prefix) 1024;
              captured = extract_refs j Fs old @ concat (map (\<lambda>(_, val). extract_refs j MetaSeg val) segs)
          in and_then (enqueue_delete_slices j 0 captured ts (\<lambda>seg_no. hier_key Delq bucket parent_ino name (suffix_delq_seq sq seg_no))
                         (ops @ map (\<lambda>(k, _). op_delete MetaSeg k) segs))
               (\<lambda>(_, ops'). Ok (account, ops')))"

definition fs_read_record :: "serde \<Rightarrow> store \<Rightarrow> bucket_id \<Rightarrow> u64 \<Rightarrow> bytes \<Rightarrow> (meta_store_error, fs_record option) result" where
  "fs_read_record j st bucket parent_ino name =
     (case store_get st Fs (hier_key Fs bucket parent_ino name []) of
        None \<Rightarrow> Ok None
      | Some bs \<Rightarrow> and_then (decode (sd_fs j) bs) (\<lambda>r. Ok (Some r)))"

definition pack_file :: "file_record \<Rightarrow> file_record \<times> slice_segment list" where
  "pack_file f =
     (case fr_content f of
        Inline _ \<Rightarrow> (f\<lparr>fr_seg_count := 0\<rparr>, [])
      | Slices ss \<Rightarrow>
          let (embedded, segments) = split_slices ss
          in (f\<lparr>fr_content := Slices embedded, fr_seg_count := of_nat (length segments)\<rparr>, segments))"

record ino_allocator =
  ia_tag :: u32
  ia_next :: u64

definition mint :: "ino_allocator \<Rightarrow> (meta_store_error, u64 \<times> ino_allocator) result" where
  "mint a = and_then (ok_or ValueCodec (compose_ino (ia_tag a) (ia_next a))) (\<lambda>ino. Ok (ino, a\<lparr>ia_next := ia_next a + 1\<rparr>))"

definition rejected :: "string \<Rightarrow> apply_outcome" where
  "rejected reason = no_delta [] (Rejected reason)"

definition bump_sentinel_child_delta ::
    "serde \<Rightarrow> store \<Rightarrow> bucket_id \<Rightarrow> u64 \<Rightarrow> i64 \<Rightarrow> i64 \<Rightarrow> store_op list \<Rightarrow> (meta_store_error, store_op list) result" where
  "bump_sentinel_child_delta j st bucket parent_ino delta ts ops =
     (let key = hier_key Fs bucket parent_ino SENTINEL_NAME [] in
      case store_get st Fs key of
        None \<Rightarrow> Ok ops
      | Some bs \<Rightarrow>
          and_then (decode (sd_fs j) bs) (\<lambda>r.
            case r of
              Sentinel s \<Rightarrow>
                let s' = s\<lparr>dr_mtime := ts,
                           dr_entry_count := (case dr_entry_count s of
                                                Exact count \<Rightarrow> Exact (saturating_add_signed count delta)
                                              | Unknown \<Rightarrow> Unknown)\<rparr>
                in and_then (encode (sd_fs j) (Sentinel s')) (\<lambda>val. Ok (ops @ [op_put Fs key val]))
            | _ \<Rightarrow> Ok ops))"

definition delete_segments :: "store \<Rightarrow> bucket_id \<Rightarrow> u64 \<Rightarrow> bytes \<Rightarrow> store_op list \<Rightarrow> store_op list" where
  "delete_segments st bucket parent_ino name ops =
     (let seg_prefix = hier_key MetaSeg bucket parent_ino name []
      in ops @ map (\<lambda>(k, _). op_delete MetaSeg k) (scan_pages st MetaSeg seg_prefix (scan_end MetaSeg seg_prefix) 1024))"

definition directory_has_children :: "store \<Rightarrow> bucket_id \<Rightarrow> u64 \<Rightarrow> bool" where
  "directory_has_children st bucket dir_ino =
     (let range_start = cf_tag Fs # to_be_bytes 8 (bucket_get bucket) @ to_be_bytes 8 dir_ino
      in 1 < length (store_scan st Fs range_start (scan_end Fs range_start) 2))"

section \<open>The handlers\<close>

text \<open>The record of a packed file and its segments.\<close>

definition put_file ::
    "serde \<Rightarrow> bucket_id \<Rightarrow> u64 \<Rightarrow> bytes \<Rightarrow> file_record \<Rightarrow> slice_segment list \<Rightarrow> store_op list \<Rightarrow> (meta_store_error, store_op list) result" where
  "put_file j bucket parent_ino name packed segments ops =
     and_then (encode (sd_fs j) (File packed)) (\<lambda>val.
       put_segments j (\<lambda>seg_no. hier_key MetaSeg bucket parent_ino name (suffix_seg_no seg_no)) 0 segments
         (ops @ [op_put Fs (hier_key Fs bucket parent_ino name []) val]))"

text \<open>The inode of a written file: the one it has, or a new one.\<close>

definition resolve_ino :: "fs_record option \<Rightarrow> ino_allocator \<Rightarrow> (meta_store_error, ((u64 \<times> bool) \<times> ino_allocator) option) result" where
  "resolve_ino r ino =
     (case r of
        Some (File existing) \<Rightarrow> Ok (Some ((fr_ino existing, False), ino))
      | Some _ \<Rightarrow> Ok None
      | None \<Rightarrow> and_then (mint ino) (\<lambda>(i, ino'). Ok (Some ((i, True), ino'))))"

definition apply_write ::
    "serde \<Rightarrow> store \<Rightarrow> bucket_id \<Rightarrow> u64 \<Rightarrow> bytes \<Rightarrow> u64 \<Rightarrow> bytes \<Rightarrow> content_head \<Rightarrow> http_meta \<Rightarrow> i64 \<Rightarrow> u64 \<Rightarrow> ino_allocator
       \<Rightarrow> (meta_store_error, apply_outcome \<times> ino_allocator) result" where
  "apply_write j st bucket parent_ino name sz etag content http ts sq ino =
     (if name = [] then Ok (rejected ''empty file name'', ino)
      else
        and_then (fs_read_record j st bucket parent_ino name) (\<lambda>r.
        and_then (resolve_ino r ino) (\<lambda>res.
          case res of
            None \<Rightarrow> Ok (rejected ''name is a directory'', ino)
          | Some ((file_ino, is_create), ino') \<Rightarrow>
              and_then (capture_old_file j st bucket parent_ino name sq ts []) (\<lambda>((old_inline, old_count, old_total), ops).
              let (packed, segments) = pack_file \<lparr>fr_ino = file_ino, fr_size = sz, fr_etag = etag, fr_mtime = ts,
                                                  fr_content = content, fr_seg_count = 0, fr_http = http\<rparr>
              in and_then (put_file j bucket parent_ino name packed segments ops) (\<lambda>ops'.
                 and_then (bump_sentinel_child_delta j st bucket parent_ino (if is_create then 1 else 0) ts ops') (\<lambda>ops''.
                 let (new_inline, new_count) = inline_account (fr_content packed)
                 in Ok (\<lparr>ao_ops = ops'', ao_response = RNone,
                         ao_delta = \<lparr>gd_inline_bytes = new_inline - old_inline, gd_inline_count = new_count - old_count,
                                     gd_total_bytes = sz - old_total\<rparr>\<rparr>, ino')))))))"

definition apply_unlink ::
    "serde \<Rightarrow> store \<Rightarrow> bucket_id \<Rightarrow> u64 \<Rightarrow> bytes \<Rightarrow> u64 \<Rightarrow> i64 \<Rightarrow> (meta_store_error, apply_outcome) result" where
  "apply_unlink j st bucket parent_ino name sq ts =
     and_then (fs_read_record j st bucket parent_ino name) (\<lambda>r.
       case r of
         None \<Rightarrow> Ok (no_delta [] RNone)
       | Some (File _) \<Rightarrow>
           and_then (capture_old_file j st bucket parent_ino name sq ts []) (\<lambda>((old_inline, old_count, old_total), ops).
           and_then (bump_sentinel_child_delta j st bucket parent_ino (- 1) ts
                       (ops @ [op_delete Fs (hier_key Fs bucket parent_ino name [])])) (\<lambda>ops'.
             Ok \<lparr>ao_ops = ops', ao_response = RNone,
                 ao_delta = \<lparr>gd_inline_bytes = - old_inline, gd_inline_count = - old_count, gd_total_bytes = - old_total\<rparr>\<rparr>))
       | Some _ \<Rightarrow> Ok (rejected ''name is a directory''))"

definition apply_mkdir_sentinel ::
    "serde \<Rightarrow> store \<Rightarrow> bucket_id \<Rightarrow> u64 \<Rightarrow> bytes \<Rightarrow> i64 \<Rightarrow> ino_allocator
       \<Rightarrow> (meta_store_error, apply_outcome \<times> ino_allocator) result" where
  "apply_mkdir_sentinel j st bucket parent_ino name ts ino =
     and_then (mint ino) (\<lambda>(child_ino, ino').
       let key = hier_key Fs bucket child_ino SENTINEL_NAME [] in
       and_then
         (if store_get st Fs key \<noteq> None then Ok []
          else and_then (encode (sd_fs j) (Sentinel \<lparr>dr_ino = child_ino, dr_mtime = ts, dr_entry_count = Exact 0,
                           dr_parent_link = Some (parent_ino, name), dr_created_ts = ts\<rparr>)) (\<lambda>val. Ok [op_put Fs key val]))
         (\<lambda>ops. Ok (no_delta ops (MintedIno child_ino), ino')))"

definition apply_mkdir_link ::
    "serde \<Rightarrow> store \<Rightarrow> bucket_id \<Rightarrow> u64 \<Rightarrow> bytes \<Rightarrow> u64 \<Rightarrow> i64 \<Rightarrow> (meta_store_error, apply_outcome) result" where
  "apply_mkdir_link j st bucket parent_ino name child_ino ts =
     (if name = [] then Ok (rejected ''empty directory name'')
      else
        and_then (fs_read_record j st bucket parent_ino name) (\<lambda>r.
          case r of
            Some (Dir existing) \<Rightarrow>
              if de_ino existing = child_ino then Ok (no_delta [] RNone)
              else Ok (rejected ''name already links another directory'')
          | Some (File _) \<Rightarrow> Ok (rejected ''name is a file'')
          | _ \<Rightarrow>
              and_then (encode (sd_fs j) (Dir \<lparr>de_ino = child_ino\<rparr>)) (\<lambda>val.
              and_then (bump_sentinel_child_delta j st bucket parent_ino 1 ts
                          [op_put Fs (hier_key Fs bucket parent_ino name []) val]) (\<lambda>ops.
                Ok (no_delta ops RNone)))))"

definition apply_rmdir_unlink ::
    "serde \<Rightarrow> store \<Rightarrow> bucket_id \<Rightarrow> u64 \<Rightarrow> bytes \<Rightarrow> i64 \<Rightarrow> (meta_store_error, apply_outcome) result" where
  "apply_rmdir_unlink j st bucket parent_ino name ts =
     and_then (fs_read_record j st bucket parent_ino name) (\<lambda>r.
       case r of
         Some (Dir _) \<Rightarrow>
           and_then (bump_sentinel_child_delta j st bucket parent_ino (- 1) ts
                       [op_delete Fs (hier_key Fs bucket parent_ino name [])]) (\<lambda>ops.
             Ok (no_delta ops RNone))
       | Some (File _) \<Rightarrow> Ok (rejected ''name is a file'')
       | _ \<Rightarrow> Ok (no_delta [] RNone))"

definition apply_rmdir_sentinel :: "store \<Rightarrow> bucket_id \<Rightarrow> u64 \<Rightarrow> i64 \<Rightarrow> (meta_store_error, apply_outcome) result" where
  "apply_rmdir_sentinel st bucket dir_ino ts =
     (let sentinel_key = hier_key Fs bucket dir_ino SENTINEL_NAME [] in
      if store_get st Fs sentinel_key = None then Ok (no_delta [] RNone)
      else if directory_has_children st bucket dir_ino then Ok (rejected ''directory not empty'')
      else Ok (no_delta [op_delete Fs sentinel_key] RNone))"

definition apply_rename_same_dir ::
    "serde \<Rightarrow> store \<Rightarrow> bucket_id \<Rightarrow> u64 \<Rightarrow> bytes \<Rightarrow> bytes \<Rightarrow> u64 \<Rightarrow> i64 \<Rightarrow> (meta_store_error, apply_outcome) result" where
  "apply_rename_same_dir j st bucket parent_ino src dst sq ts =
     (if src = dst then Ok (no_delta [] RNone)
      else
        and_then (fs_read_record j st bucket parent_ino src) (\<lambda>s.
          case s of
            None \<Rightarrow> Ok (rejected ''source not found'')
          | Some (File source) \<Rightarrow>
              and_then (fs_read_record j st bucket parent_ino dst) (\<lambda>d.
                case d of
                  Some (Dir _) \<Rightarrow> Ok (rejected ''destination is a directory'')
                | Some (Sentinel _) \<Rightarrow> Ok (rejected ''destination is a directory'')
                | _ \<Rightarrow>
                    and_then (capture_old_file j st bucket parent_ino dst sq ts []) (\<lambda>((dest_inline, dest_count, dest_total), ops).
                    let (moved, segments) = pack_file (source\<lparr>fr_mtime := ts\<rparr>) in
                    and_then (put_file j bucket parent_ino dst moved segments ops) (\<lambda>ops'.
                    let ops'' = delete_segments st bucket parent_ino src (ops' @ [op_delete Fs (hier_key Fs bucket parent_ino src [])])
                    in and_then (bump_sentinel_child_delta j st bucket parent_ino (if d = None then 0 else - 1) ts ops'') (\<lambda>ops3.
                       Ok \<lparr>ao_ops = ops3, ao_response = RNone,
                           ao_delta = \<lparr>gd_inline_bytes = - dest_inline, gd_inline_count = - dest_count,
                                       gd_total_bytes = - dest_total\<rparr>\<rparr>))))
          | Some _ \<Rightarrow> Ok (rejected ''source is a directory (v1 renames files only)'')))"

text \<open>Handlers without an allocator leave it as it is.\<close>

definition keep_ino :: "ino_allocator \<Rightarrow> (meta_store_error, apply_outcome) result \<Rightarrow> (meta_store_error, apply_outcome \<times> ino_allocator) result" where
  "keep_ino ino r = and_then r (\<lambda>out. Ok (out, ino))"

fun hier_apply :: "serde \<Rightarrow> store \<Rightarrow> hier_op \<Rightarrow> u64 \<Rightarrow> ino_allocator \<Rightarrow> (meta_store_error, apply_outcome \<times> ino_allocator) result" where
  "hier_apply j st (HWrite bucket parent_ino name sz etag content http ts) sq ino =
     apply_write j st bucket parent_ino name sz etag content http ts sq ino"
| "hier_apply j st (HUnlink bucket parent_ino name ts) sq ino = keep_ino ino (apply_unlink j st bucket parent_ino name sq ts)"
| "hier_apply j st (HMkdirSentinel bucket parent_ino name ts) sq ino = apply_mkdir_sentinel j st bucket parent_ino name ts ino"
| "hier_apply j st (HMkdirLink bucket parent_ino name child_ino ts) sq ino =
     keep_ino ino (apply_mkdir_link j st bucket parent_ino name child_ino ts)"
| "hier_apply j st (HRmdirUnlink bucket parent_ino name ts) sq ino = keep_ino ino (apply_rmdir_unlink j st bucket parent_ino name ts)"
| "hier_apply j st (HRmdirSentinel bucket dir_ino ts) sq ino = keep_ino ino (apply_rmdir_sentinel st bucket dir_ino ts)"
| "hier_apply j st (HRenameSameDir bucket parent_ino src dst ts) sq ino =
     keep_ino ino (apply_rename_same_dir j st bucket parent_ino src dst sq ts)"

section \<open>Readers\<close>

function readdir_loop ::
    "serde \<Rightarrow> store \<Rightarrow> bytes \<Rightarrow> bytes \<Rightarrow> nat \<Rightarrow> (meta_store_error, (bytes \<times> fs_record) list) result" where
  "readdir_loop j st start stop remaining =
     (if remaining = 0 then Ok []
      else
        let page = store_scan st Fs start stop remaining in
        if page = [] then Ok []
        else
          and_then (collect_results (map (\<lambda>(k, val). and_then (decode (sd_fs j) val) (\<lambda>r. Ok (drop 17 k, r))) page)) (\<lambda>out.
          and_then (readdir_loop j st (fst (last page) @ [0]) stop (remaining - length page)) (\<lambda>rest. Ok (out @ rest))))"
  by pat_completeness auto
termination
  by (relation "measure (\<lambda>(_, _, _, _, remaining). remaining)") auto

declare readdir_loop.simps [simp del]

definition readdir ::
    "serde \<Rightarrow> store \<Rightarrow> bucket_id \<Rightarrow> u64 \<Rightarrow> bytes option \<Rightarrow> nat \<Rightarrow> (meta_store_error, (bytes \<times> fs_record) list) result" where
  "readdir j st bucket dir_ino start_after limit =
     (let start = hier_key Fs bucket dir_ino (case start_after of Some name \<Rightarrow> name | None \<Rightarrow> SENTINEL_NAME) [] @ [0];
          stop = scan_end Fs (hier_key Fs bucket dir_ino SENTINEL_NAME [])
      in readdir_loop j st start stop limit)"

definition fs_lookup :: "serde \<Rightarrow> store \<Rightarrow> bucket_id \<Rightarrow> u64 \<Rightarrow> bytes \<Rightarrow> (meta_store_error, fs_record option) result" where
  "fs_lookup j st bucket parent_ino name = fs_read_record j st bucket parent_ino name"

definition sentinel_is_orphan :: "serde \<Rightarrow> store \<Rightarrow> bucket_id \<Rightarrow> dir_record \<Rightarrow> (meta_store_error, bool) result" where
  "sentinel_is_orphan j st bucket s =
     (case dr_parent_link s of
        None \<Rightarrow> Ok False
      | Some (parent_ino, name) \<Rightarrow>
          and_then (fs_read_record j st bucket parent_ino name) (\<lambda>r.
            case r of Some (Dir entry) \<Rightarrow> Ok (de_ino entry \<noteq> dr_ino s) | _ \<Rightarrow> Ok True))"

datatype meta_error = StoreErr meta_store_error | RocksErr | RaftErr string | GroupExists u64 | UnknownGroup u64

text \<open>The sentinels that the sweep of a partition leader proposes to remove: aged, not linked, without children.\<close>

definition orphan_check :: "serde \<Rightarrow> store \<Rightarrow> i64 \<Rightarrow> bytes \<times> bytes \<Rightarrow> (meta_error, (bucket_id \<times> u64) option) result" where
  "orphan_check j st expire_before kv =
     (case kv of (k, val) \<Rightarrow>
        if length k \<noteq> 17 then Ok None
        else
          and_then (map_err StoreErr (decode (sd_fs j) val)) (\<lambda>r.
            case r of
              Sentinel s \<Rightarrow>
                if sint expire_before < sint (dr_created_ts s) then Ok None
                else
                  and_then (ok_or (RaftErr ''malformed sentinel key'') (routing_key k)) (\<lambda>(bucket, _).
                  and_then (map_err StoreErr (sentinel_is_orphan j st bucket s)) (\<lambda>orphan.
                    Ok (if orphan \<and> \<not> directory_has_children st bucket (dr_ino s) then Some (bucket, dr_ino s) else None)))
            | _ \<Rightarrow> Ok None))"

definition orphan_sentinels ::
    "serde \<Rightarrow> store \<Rightarrow> partition_range \<Rightarrow> i64 \<Rightarrow> (meta_error, (bucket_id \<times> u64) list) result" where
  "orphan_sentinels j st rng expire_before =
     (case find (\<lambda>r. kr_cf r = Fs) (key_ranges rng) of
        None \<Rightarrow> Ok []
      | Some bounds \<Rightarrow>
          and_then (collect_results (map (orphan_check j st expire_before) (scan_pages st Fs (kr_start bounds) (kr_end bounds) 1024)))
            (\<lambda>xs. Ok (map the (filter (\<lambda>x. x \<noteq> None) xs))))"

end
