(* ===== verification/Meta_Sample.thy ===== *)
theory Meta_Sample
  imports Meta_Values "HOL-Library.Char_ord"
begin

text \<open>
  A concrete codec for every stored type, built from prefix-free byte encodings of words, options, lists, pairs and
  maps. It satisfies what is relied on of the JSON library, and lets the statements about the metadata store be
  applied to concrete states.
\<close>

section \<open>Combinators\<close>

record 'a pickle =
  pk :: "'a \<Rightarrow> bytes"
  unpk :: "bytes \<Rightarrow> ('a \<times> bytes) option"

definition pickle_ok :: "'a pickle \<Rightarrow> bool" where
  "pickle_ok p \<longleftrightarrow> (\<forall>x r. unpk p (pk p x @ r) = Some (x, r))"

named_theorems pickles \<open>sample codecs that decode what they encode\<close>

definition p_word :: "nat \<Rightarrow> ('a::len) word pickle" where
  "p_word n = \<lparr>pk = to_be_bytes n, unpk = (\<lambda>bs. if length bs < n then None else Some (from_be_bytes (take n bs), drop n bs))\<rparr>"

lemma p_word_ok: "LENGTH('a::len) \<le> 8 * n \<Longrightarrow> pickle_ok (p_word n :: 'a word pickle)"
  by (simp add: pickle_ok_def p_word_def from_to_be_bytes)

definition p_map :: "('a \<Rightarrow> 'b) \<Rightarrow> ('b \<Rightarrow> 'a) \<Rightarrow> 'b pickle \<Rightarrow> 'a pickle" where
  "p_map f g p = \<lparr>pk = pk p \<circ> f, unpk = map_option (map_prod g id) \<circ> unpk p\<rparr>"

lemma p_map_ok: "pickle_ok p \<Longrightarrow> (\<And>x. g (f x) = x) \<Longrightarrow> pickle_ok (p_map f g p)"
  by (simp add: pickle_ok_def p_map_def)

definition p_pair :: "'a pickle \<Rightarrow> 'b pickle \<Rightarrow> ('a \<times> 'b) pickle" where
  "p_pair p q = \<lparr>pk = (\<lambda>(x, y). pk p x @ pk q y),
     unpk = (\<lambda>bs. case unpk p bs of None \<Rightarrow> None | Some (x, r) \<Rightarrow> map_option (map_prod (Pair x) id) (unpk q r))\<rparr>"

lemma p_pair_ok [pickles]: "pickle_ok p \<Longrightarrow> pickle_ok q \<Longrightarrow> pickle_ok (p_pair p q)"
  by (simp add: pickle_ok_def p_pair_def)

definition p_sum :: "'a pickle \<Rightarrow> 'b pickle \<Rightarrow> ('a + 'b) pickle" where
  "p_sum p q = \<lparr>pk = (\<lambda>s. case s of Inl x \<Rightarrow> 0 # pk p x | Inr y \<Rightarrow> 1 # pk q y),
     unpk = (\<lambda>bs. case bs of
               [] \<Rightarrow> None
             | t # r \<Rightarrow> if t = 0 then map_option (map_prod Inl id) (unpk p r) else map_option (map_prod Inr id) (unpk q r))\<rparr>"

lemma p_sum_ok [pickles]: "pickle_ok p \<Longrightarrow> pickle_ok q \<Longrightarrow> pickle_ok (p_sum p q)"
  by (auto simp: pickle_ok_def p_sum_def split: sum.split)

definition p_unit :: "unit pickle" where
  "p_unit = \<lparr>pk = (\<lambda>_. []), unpk = (\<lambda>bs. Some ((), bs))\<rparr>"

lemma p_unit_ok [pickles]: "pickle_ok p_unit"
  by (simp add: pickle_ok_def p_unit_def)

definition p_option :: "'a pickle \<Rightarrow> 'a option pickle" where
  "p_option p = p_map (case_option (Inl ()) Inr) (case_sum (\<lambda>_. None) Some) (p_sum p_unit p)"

lemma p_option_ok [pickles]: "pickle_ok p \<Longrightarrow> pickle_ok (p_option p)"
  unfolding p_option_def by (rule p_map_ok) (auto intro: pickles split: option.split)

text \<open>Lists with a mark before every element; the length of the input bounds the recursion.\<close>

fun pk_list :: "'a pickle \<Rightarrow> 'a list \<Rightarrow> bytes" where
  "pk_list p [] = [0]"
| "pk_list p (x # xs) = 1 # pk p x @ pk_list p xs"

fun unpk_list :: "'a pickle \<Rightarrow> nat \<Rightarrow> bytes \<Rightarrow> ('a list \<times> bytes) option" where
  "unpk_list p (Suc fuel) (t # r) =
     (if t = 0 then Some ([], r)
      else (case unpk p r of None \<Rightarrow> None | Some (x, r') \<Rightarrow> map_option (map_prod (Cons x) id) (unpk_list p fuel r')))"
| "unpk_list p _ _ = None"

definition p_list :: "'a pickle \<Rightarrow> 'a list pickle" where
  "p_list p = \<lparr>pk = pk_list p, unpk = (\<lambda>bs. unpk_list p (length bs) bs)\<rparr>"

lemma p_list_ok [pickles]:
  assumes "pickle_ok p"
  shows "pickle_ok (p_list p)"
proof -
  have "length xs < fuel \<Longrightarrow> unpk_list p fuel (pk_list p xs @ r) = Some (xs, r)" for xs fuel r
  proof (induction xs arbitrary: fuel)
    case Nil
    then show ?case by (cases fuel) auto
  next
    case (Cons x xs)
    then show ?case using assms by (cases fuel) (auto simp: pickle_ok_def)
  qed
  moreover have "length xs < length (pk_list p xs)" for xs by (induction xs) auto
  then have "length xs < length (pk_list p xs @ r)" for xs r by (simp add: less_le_trans trans_less_add1)
  ultimately show ?thesis by (simp add: pickle_ok_def p_list_def del: length_append)
qed

definition p_char :: "char pickle" where
  "p_char = p_map (\<lambda>c. word_of_nat (of_char c) :: byte) (\<lambda>w. char_of (unat w)) (p_word 1)"

lemma p_char_ok [pickles]: "pickle_ok p_char"
proof -
  have "char_of (unat (word_of_nat (of_char c) :: byte)) = c" for c
    using nat_of_char_less_256 [of c] by (simp add: unsigned_of_nat take_bit_nat_eq_self)
  then show ?thesis unfolding p_char_def by (intro p_map_ok p_word_ok) simp_all
qed

definition p_kv :: "('k::linorder) pickle \<Rightarrow> 'v pickle \<Rightarrow> ('k, 'v) kv pickle" where
  "p_kv p q = p_map kv_entries fmap_of_list (p_list (p_pair p q))"

lemma fmap_of_entries: "fmap_of_list (kv_entries m) = m"
  by (rule fmap_ext) (metis distinct_kv_entries fmlookup_of_list map_of_eq_Some_iff not_None_eq set_kv_entries)

lemma p_kv_ok [pickles]: "pickle_ok p \<Longrightarrow> pickle_ok q \<Longrightarrow> pickle_ok (p_kv p q)"
  unfolding p_kv_def by (rule p_map_ok) (auto intro: pickles simp: fmap_of_entries)

lemma p_words_ok [pickles]:
  "pickle_ok (p_word 1 :: byte pickle)" "pickle_ok (p_word 4 :: u32 pickle)" "pickle_ok (p_word 8 :: u64 pickle)"
  "pickle_ok (p_word 16 :: u128 pickle)"
  by (rule p_word_ok; simp)+

section \<open>The stored types\<close>

definition p_slice :: "slice pickle" where
  "p_slice = p_map (\<lambda>s. (chunk_get (sl_chunk_id s), map blob_as_u64 (sl_blob_ids s), sl_blob_size s))
     (\<lambda>(c, bs, n). \<lparr>sl_chunk_id = ChunkId c, sl_blob_ids = map BlobId bs, sl_blob_size = n\<rparr>)
     (p_pair (p_word 4) (p_pair (p_list (p_word 8)) (p_word 4)))"

definition p_http :: "http_meta pickle" where
  "p_http = p_map (\<lambda>h. (hm_content_type h, hm_content_encoding h, hm_cache_control h, hm_user h))
     (\<lambda>(a, b, c, u). \<lparr>hm_content_type = a, hm_content_encoding = b, hm_cache_control = c, hm_user = u\<rparr>)
     (let s = p_option (p_list p_char) in p_pair s (p_pair s (p_pair s (p_kv (p_list p_char) (p_list p_char)))))"

definition p_content :: "content_head pickle" where
  "p_content = p_map (\<lambda>c. case c of Inline b \<Rightarrow> Inl b | Slices ss \<Rightarrow> Inr ss) (case_sum Inline Slices)
     (p_sum (p_list (p_word 1)) (p_list p_slice))"

definition p_head :: "object_head pickle" where
  "p_head = p_map (\<lambda>h. (oh_size h, oh_etag h, oh_mtime h, oh_content h, oh_seg_count h, oh_http h))
     (\<lambda>(a, b, c, d, e, f). \<lparr>oh_size = a, oh_etag = b, oh_mtime = c, oh_storage = Standard, oh_content = d, oh_seg_count = e, oh_http = f\<rparr>)
     (p_pair (p_word 8) (p_pair (p_list (p_word 1)) (p_pair (p_word 8) (p_pair p_content (p_pair (p_word 4) p_http)))))"

definition p_segment :: "slice_segment pickle" where
  "p_segment = p_map sg_slices (\<lambda>ss. \<lparr>sg_slices = ss\<rparr>) (p_list p_slice)"

definition p_session :: "upload_session pickle" where
  "p_session = p_map (\<lambda>s. (us_upload_id s, us_init_ts s)) (\<lambda>(u, t). \<lparr>us_upload_id = u, us_init_ts = t\<rparr>) (p_pair (p_word 16) (p_word 8))"

definition p_part :: "part_meta pickle" where
  "p_part = p_map (\<lambda>p. (pm_size p, pm_etag p, pm_slices p)) (\<lambda>(a, b, c). \<lparr>pm_size = a, pm_etag = b, pm_slices = c\<rparr>)
     (p_pair (p_word 8) (p_pair (p_list (p_word 1)) (p_list p_slice)))"

definition p_pending :: "pending_delete pickle" where
  "p_pending = p_map (\<lambda>p. (pd_slices p, pd_enqueue_ts p)) (\<lambda>(a, b). \<lparr>pd_slices = a, pd_enqueue_ts = b\<rparr>)
     (p_pair (p_list p_slice) (p_word 8))"

definition p_file :: "file_record pickle" where
  "p_file = p_map (\<lambda>f. (fr_ino f, fr_size f, fr_etag f, fr_mtime f, fr_content f, fr_seg_count f, fr_http f))
     (\<lambda>(i, a, b, c, d, e, f). \<lparr>fr_ino = i, fr_size = a, fr_etag = b, fr_mtime = c, fr_content = d, fr_seg_count = e, fr_http = f\<rparr>)
     (p_pair (p_word 8) (p_pair (p_word 8) (p_pair (p_list (p_word 1)) (p_pair (p_word 8) (p_pair p_content (p_pair (p_word 4) p_http))))))"

definition p_count :: "dir_count pickle" where
  "p_count = p_map (\<lambda>c. case c of Exact n \<Rightarrow> Some n | Unknown \<Rightarrow> None) (case_option Unknown Exact) (p_option (p_word 8))"

definition p_dir :: "dir_record pickle" where
  "p_dir = p_map (\<lambda>d. (dr_ino d, dr_mtime d, dr_entry_count d, dr_parent_link d, dr_created_ts d))
     (\<lambda>(a, b, c, d, e). \<lparr>dr_ino = a, dr_mtime = b, dr_entry_count = c, dr_parent_link = d, dr_created_ts = e\<rparr>)
     (p_pair (p_word 8) (p_pair (p_word 8) (p_pair p_count (p_pair (p_option (p_pair (p_word 8) (p_list (p_word 1)))) (p_word 8)))))"

definition p_fs :: "fs_record pickle" where
  "p_fs = p_map (\<lambda>r. case r of File f \<Rightarrow> Inl f | Dir d \<Rightarrow> Inr (Inl (de_ino d)) | Sentinel s \<Rightarrow> Inr (Inr s))
     (case_sum File (case_sum (\<lambda>i. Dir \<lparr>de_ino = i\<rparr>) Sentinel)) (p_sum p_file (p_sum (p_word 8) p_dir))"

lemma storage_class_Standard: "(Standard :: storage_class) = x"
  by (cases x) simp

lemma p_slice_ok [pickles]: "pickle_ok p_slice"
  unfolding p_slice_def by (intro p_map_ok pickles) (simp add: comp_def)

lemma p_http_ok [pickles]: "pickle_ok p_http"
  unfolding p_http_def Let_def by (intro p_map_ok pickles) simp

lemma p_content_ok [pickles]: "pickle_ok p_content"
  unfolding p_content_def by (intro p_map_ok pickles) (simp split: content_head.split)

lemma p_head_ok [pickles]: "pickle_ok p_head"
  unfolding p_head_def by (intro p_map_ok pickles) (simp add: storage_class_Standard)

lemma p_segment_ok [pickles]: "pickle_ok p_segment"
  unfolding p_segment_def by (intro p_map_ok pickles) simp

lemma p_session_ok [pickles]: "pickle_ok p_session"
  unfolding p_session_def by (intro p_map_ok pickles) simp

lemma p_part_ok [pickles]: "pickle_ok p_part"
  unfolding p_part_def by (intro p_map_ok pickles) simp

lemma p_pending_ok [pickles]: "pickle_ok p_pending"
  unfolding p_pending_def by (intro p_map_ok pickles) simp

lemma p_file_ok [pickles]: "pickle_ok p_file"
  unfolding p_file_def by (intro p_map_ok pickles) simp

lemma p_count_ok [pickles]: "pickle_ok p_count"
  unfolding p_count_def by (intro p_map_ok pickles) (simp split: dir_count.split)

lemma p_dir_ok [pickles]: "pickle_ok p_dir"
  unfolding p_dir_def by (intro p_map_ok pickles) simp

lemma p_fs_ok [pickles]: "pickle_ok p_fs"
  unfolding p_fs_def by (intro p_map_ok pickles) (simp split: fs_record.split)

section \<open>The codec\<close>

definition tagged :: "byte \<Rightarrow> 'a pickle \<Rightarrow> 'a codec" where
  "tagged tag p = \<lparr>to_vec = (\<lambda>x. Some (tag # pk p x)),
     from_slice = (\<lambda>bs. case bs of
        [] \<Rightarrow> None
      | t # r \<Rightarrow> if t \<noteq> tag then None else (case unpk p r of Some (x, []) \<Rightarrow> Some x | _ \<Rightarrow> None))\<rparr>"

definition sample_serde :: serde where
  "sample_serde = \<lparr>sd_head = tagged 1 p_head, sd_segment = tagged 2 p_segment, sd_session = tagged 3 p_session,
     sd_part = tagged 4 p_part, sd_pending = tagged 5 p_pending, sd_fs = tagged 6 p_fs\<rparr>"

lemma tagged_ok: "pickle_ok p \<Longrightarrow> codec_ok (tagged tag p)"
proof -
  assume "pickle_ok p"
  then have "unpk p (pk p x @ []) = Some (x, [])" for x unfolding pickle_ok_def by blast
  then show ?thesis by (simp add: codec_ok_def tagged_def)
qed

lemma sample_serde_ok: "serde_ok sample_serde"
  unfolding serde_ok_def sample_serde_def
  by (simp add: tagged_ok pickles) (simp add: tagged_def)

end
