(* ===== verification/Meta_Tree_Inv.thy ===== *)
theory Meta_Tree_Inv
  imports Meta_Tree Meta_Sample
begin

text \<open>
  Invariants of the tree and what they give for the hierarchical namespace: every reachable tree is well formed,
  directory counts are exact, inodes are unique, and a listing is exactly the set of children in name order.
\<close>

section \<open>Inodes\<close>

definition unminted :: "ino_allocator \<Rightarrow> u64 \<Rightarrow> bool" where
  "unminted a i \<longleftrightarrow> (\<exists>c. ia_next a \<le> c \<and> compose_ino (ia_tag a) c = Some i)"

lemma compose_ino_inject:
  assumes "compose_ino tag c = Some i" "compose_ino tag c' = Some i"
  shows "c = c'"
proof -
  have bound: "take_bit 48 x = x" if "x < push_bit 48 1" for x :: u64
  proof (rule word_unat_eq_iff [THEN iffD2])
    have "unat x < 2 ^ 48" using that by (simp add: push_bit_eq_mult word_less_nat_alt)
    then show "unat (take_bit 48 x) = unat x" by (simp add: unsigned_take_bit_eq take_bit_nat_eq_self)
  qed
  have low: "take_bit 48 (push_bit 48 y OR x) = x" if "x < push_bit 48 1" for x y :: u64
    using bound [OF that] by (simp add: take_bit_or take_bit_push_bit)
  have "c < push_bit 48 1" "c' < push_bit 48 1" and eq: "push_bit 48 (ucast tag) OR c = push_bit 48 (ucast tag) OR c'"
    using assms by (auto simp: compose_ino_Some)
  then show ?thesis using low [of c "ucast tag"] low [of c' "ucast tag"] by metis
qed

lemma mint_spec:
  assumes "mint a = Ok (i, a')"
  shows "unminted a i" "\<not> unminted a' i" "unminted a' x \<Longrightarrow> unminted a x"
proof -
  have c: "compose_ino (ia_tag a) (ia_next a) = Some i" and a': "a' = a\<lparr>ia_next := ia_next a + 1\<rparr>"
    using assms by (auto simp: mint_def ok_or_def split: option.splits)
  show "unminted a i" unfolding unminted_def using c by blast
  have "ia_next a < push_bit 48 1" using c by (simp add: compose_ino_Some)
  then have "unat (ia_next a) + 1 < 2 ^ 64" by (simp add: push_bit_eq_mult word_less_nat_alt)
  then have up: "ia_next a < ia_next a + 1" by (simp add: word_less_nat_alt unat_add_lem [THEN iffD1])
  show "\<not> unminted a' i"
  proof
    assume "unminted a' i"
    then obtain d where "ia_next a + 1 \<le> d" "compose_ino (ia_tag a) d = Some i" by (auto simp: unminted_def a')
    then show False using compose_ino_inject [OF c, of d] up by simp
  qed
  show "unminted a x" if "unminted a' x"
    using that up unfolding unminted_def a' by (auto intro: order_trans less_imp_le)
qed

lemma compose_root: "compose_ino 0 1 = Some ROOT_INO"
  by (simp add: compose_ino_Some ROOT_INO_def push_bit_eq_mult word_less_nat_alt)

text \<open>Nothing keeps the inode of the root directory back: a partition that starts its counter at zero mints it
  second.\<close>

lemma mint_hits_root: "and_then (mint \<lparr>ia_tag = 0, ia_next = 0\<rparr>) (\<lambda>(_, a). mint a) = Ok (ROOT_INO, \<lparr>ia_tag = 0, ia_next = 2\<rparr>)"
  using compose_root by (simp add: mint_def ok_or_def compose_ino_def INO_bits push_bit_eq_mult word_le_nat_alt)

section \<open>The invariant\<close>

definition shape :: "tree \<Rightarrow> bool" where
  "shape t \<longleftrightarrow> (\<forall>b p r. t (b, p, []) = Some r \<longrightarrow> (\<exists>s. r = Sentinel s \<and> dr_ino s = p))
     \<and> (\<forall>b p n s. t (b, p, n) = Some (Sentinel s) \<longrightarrow> n = [])"

definition counted :: "tree \<Rightarrow> bool" where
  "counted t \<longleftrightarrow> (\<forall>b p s c. t (b, p, []) = Some (Sentinel s) \<longrightarrow> dr_entry_count s = Exact c \<longrightarrow> unat c = card (children t b p))"

definition fresh_inos :: "ino_allocator \<Rightarrow> tree \<Rightarrow> bool" where
  "fresh_inos a t \<longleftrightarrow> (\<forall>i. unminted a i \<longrightarrow> (\<forall>b n. t (b, i, n) = None) \<and> (\<forall>l f. t l = Some (File f) \<longrightarrow> fr_ino f \<noteq> i))"

text \<open>The inode of a file, or of the directory a sentinel stands for.\<close>

definition ino_at :: "tree \<Rightarrow> loc \<Rightarrow> u64 \<Rightarrow> bool" where
  "ino_at t l i \<longleftrightarrow> (\<exists>f. t l = Some (File f) \<and> fr_ino f = i) \<or> (\<exists>s. t l = Some (Sentinel s) \<and> fst (snd l) = i)"

definition unique_inos :: "tree \<Rightarrow> bool" where
  "unique_inos t \<longleftrightarrow> (\<forall>l l' i. ino_at t l i \<longrightarrow> ino_at t l' i \<longrightarrow> l = l')"

definition finite_dirs :: "tree \<Rightarrow> bool" where
  "finite_dirs t \<longleftrightarrow> (\<forall>b p. finite (children t b p))"

definition tree_inv :: "ino_allocator \<Rightarrow> tree \<Rightarrow> bool" where
  "tree_inv a t \<longleftrightarrow> shape t \<and> counted t \<and> fresh_inos a t \<and> unique_inos t \<and> finite_dirs t"

text \<open>What a client owes: parents are inodes that exist, a rename has a name to move to, and a directory has less
  than \<open>2 ^ 64 - 1\<close> entries.\<close>

definition op_ok :: "ino_allocator \<Rightarrow> tree \<Rightarrow> hier_op \<Rightarrow> bool" where
  "op_ok a t op \<longleftrightarrow>
     (case op of
        HWrite b p _ _ _ _ _ _ \<Rightarrow> \<not> unminted a p \<and> card (children t b p) + 1 < 2 ^ 64
      | HMkdirLink b p _ _ _ \<Rightarrow> \<not> unminted a p \<and> card (children t b p) + 1 < 2 ^ 64
      | HRenameSameDir _ _ _ dst _ \<Rightarrow> dst \<noteq> []
      | _ \<Rightarrow> True)"

lemma children_bump [simp]: "children (tree_bump old b p d ts t) b' p' = children t b' p'"
  by (auto simp: children_def tree_bump_def split: option.splits fs_record.splits)

lemma tree_bump_File [simp]: "tree_bump old b p d ts t l = Some (File f) \<longleftrightarrow> t l = Some (File f) \<and> (l = (b, p, []) \<longrightarrow> \<not> (\<exists>s. old l = Some (Sentinel s)))"
  by (auto simp: tree_bump_def split: option.splits fs_record.splits)

lemma tree_bump_child [simp]: "n \<noteq> [] \<Longrightarrow> tree_bump old b p d ts t (b', p', n) = t (b', p', n)"
  by (auto simp: tree_bump_def split: option.splits fs_record.splits)

lemma counted_bump:
  assumes "counted t" "\<And>b' p' n. (b', p') \<noteq> (b, p) \<Longrightarrow> t1 (b', p', n) = t (b', p', n)" "t1 (b, p, []) = t (b, p, [])"
    and "\<And>c. unat c = card (children t b p) \<Longrightarrow> unat (saturating_add_signed c d) = card (children t1 b p)"
  shows "counted (tree_bump t b p d ts t1)"
  unfolding counted_def
proof (intro allI impI)
  fix b' p' s c
  assume h: "tree_bump t b p d ts t1 (b', p', []) = Some (Sentinel s)" "dr_entry_count s = Exact c"
  show "unat c = card (children (tree_bump t b p d ts t1) b' p')"
  proof (cases "(b', p') = (b, p)")
    case True
    then obtain s0 where s0: "t (b, p, []) = Some (Sentinel s0)" "s = s0\<lparr>dr_mtime := ts, dr_entry_count := bump_count d (dr_entry_count s0)\<rparr>"
      using h(1) assms(3) by (auto simp: tree_bump_def split: option.splits fs_record.splits)
    then obtain c0 where c0: "dr_entry_count s0 = Exact c0" "c = saturating_add_signed c0 d"
      using h(2) by (auto simp: bump_count_def split: dir_count.splits)
    have "unat c0 = card (children t b p)" using assms(1) s0(1) c0(1) by (simp add: counted_def)
    then show ?thesis using assms(4) c0(2) True by simp
  next
    case False
    then have "t (b', p', []) = Some (Sentinel s)" using h(1) assms(2) [OF False]
      by (auto simp: tree_bump_def split: option.splits fs_record.splits)
    moreover have "children t1 b' p' = children t b' p'" using assms(2) [OF False] by (simp add: children_def)
    ultimately show ?thesis using assms(1) h(2) by (simp add: counted_def)
  qed
qed

lemma saturating_0: "saturating_add_signed c 0 = c"
  using unsigned_less [of c, where 'a = nat] by (simp add: saturating_add_signed_def saturating_add_def)

lemma saturating_1: "unat c + 1 < 2 ^ 64 \<Longrightarrow> unat (saturating_add_signed c 1) = unat c + 1"
  by (simp add: saturating_add_signed_def unat_saturating_add)

lemma saturating_minus_1:
  assumes "0 < unat c"
  shows "unat (saturating_add_signed c (- 1)) = unat c - 1"
proof -
  have "1 \<le> c" using assms by (simp add: word_le_nat_alt)
  then show ?thesis by (simp add: saturating_add_signed_def saturating_sub_def unat_sub)
qed

section \<open>Every operation keeps it\<close>

lemma shapeD: "shape t \<Longrightarrow> t (b, p, []) = Some r \<Longrightarrow> \<exists>s. r = Sentinel s \<and> dr_ino s = p"
  "shape t \<Longrightarrow> t (b, p, n) = Some (Sentinel s) \<Longrightarrow> n = []"
  unfolding shape_def by blast+

lemma freshD: "fresh_inos a t \<Longrightarrow> unminted a p \<Longrightarrow> t (b, p, n) = None"
  "fresh_inos a t \<Longrightarrow> t l = Some (File f) \<Longrightarrow> \<not> unminted a (fr_ino f)"
  unfolding fresh_inos_def by blast+

text \<open>A change below one directory, with the account of its sentinel.\<close>

lemma inv_bump:
  assumes "counted t" "\<And>b' p' n. (b', p') \<noteq> (b, p) \<Longrightarrow> t1 (b', p', n) = t (b', p', n)" "t1 (b, p, []) = t (b, p, [])"
    and "\<And>c. unat c = card (children t b p) \<Longrightarrow> unat (saturating_add_signed c d) = card (children t1 b p)"
    and "shape t1" "fresh_inos a t1" "unique_inos t1" "finite_dirs t1"
  shows "tree_inv a (tree_bump t b p d ts t1)"
proof -
  let ?t = "tree_bump t b p d ts t1"
  have same: "?t l = Some (File f) \<longleftrightarrow> t1 l = Some (File f)" "?t l = None \<longleftrightarrow> t1 l = None"
    "(\<exists>s. ?t l = Some (Sentinel s)) \<longleftrightarrow> (\<exists>s. t1 l = Some (Sentinel s))" for l f
    using assms(3) by (auto simp: tree_bump_def split: option.splits fs_record.splits)
  have sent: "?t (b', p', []) = Some (Sentinel s) \<Longrightarrow> \<exists>s1. t1 (b', p', []) = Some (Sentinel s1) \<and> dr_ino s1 = dr_ino s" for b' p' s
    using assms(3) by (auto simp: tree_bump_def split: option.splits fs_record.splits if_splits)
  have "ino_at ?t l i \<longleftrightarrow> ino_at t1 l i" for l i
    unfolding ino_at_def same(1) using same(3) [of l] by metis
  then have "unique_inos ?t" using assms(7) by (simp add: unique_inos_def)
  moreover have "fresh_inos a ?t" using assms(6) unfolding fresh_inos_def same(1,2) .
  moreover have "finite_dirs ?t" using assms(8) by (simp add: finite_dirs_def)
  moreover have "shape ?t" unfolding shape_def
  proof (intro conjI allI impI)
    fix b' p' r assume r: "?t (b', p', []) = Some r"
    then obtain r1 where "t1 (b', p', []) = Some r1" using same(2) [of "(b', p', [])"] by auto
    then obtain s1 where "t1 (b', p', []) = Some (Sentinel s1)" "dr_ino s1 = p'" using shapeD(1) [OF assms(5)] by blast
    moreover from this(1) obtain s where "?t (b', p', []) = Some (Sentinel s)" using same(3) [of "(b', p', [])"] by auto
    ultimately show "\<exists>s. r = Sentinel s \<and> dr_ino s = p'" using r sent [of b' p' s] by auto
  next
    fix b' p' n s assume "?t (b', p', n) = Some (Sentinel s)"
    then have "\<exists>s1. t1 (b', p', n) = Some (Sentinel s1)" using same(3) [of "(b', p', n)"] by auto
    then show "n = []" using shapeD(2) [OF assms(5)] by blast
  qed
  moreover have "counted ?t" by (rule counted_bump) (use assms(1-4) in auto)
  ultimately show ?thesis by (simp add: tree_inv_def)
qed

lemma children_upd: "n \<noteq> [] \<Longrightarrow> children (t((b, p, n) := r)) b' p' =
    (if (b', p') = (b, p) then (if r = None then children t b p - {n} else insert n (children t b p)) else children t b' p')"
  by (auto simp: children_def)

lemma finite_dirs_upd: "finite_dirs t \<Longrightarrow> n \<noteq> [] \<Longrightarrow> finite_dirs (t((b, p, n) := r))"
  unfolding finite_dirs_def by (simp add: children_upd)

lemma shape_upd: "shape t \<Longrightarrow> n \<noteq> [] \<Longrightarrow> \<forall>s. r \<noteq> Some (Sentinel s) \<Longrightarrow> shape (t((b, p, n) := r))"
  by (auto simp: shape_def)

lemma fresh_mono: "fresh_inos a t \<Longrightarrow> (\<And>x. unminted a' x \<Longrightarrow> unminted a x) \<Longrightarrow> fresh_inos a' t"
  by (auto simp: fresh_inos_def)

lemma fresh_upd: "fresh_inos a t \<Longrightarrow> \<not> unminted a p \<or> r = None \<Longrightarrow> \<forall>f. r = Some (File f) \<longrightarrow> \<not> unminted a (fr_ino f)
    \<Longrightarrow> fresh_inos a (t((b, p, n) := r))"
  by (auto simp: fresh_inos_def)

lemma uniqueD: "unique_inos t \<Longrightarrow> ino_at t l i \<Longrightarrow> ino_at t l' i \<Longrightarrow> l = l'"
  unfolding unique_inos_def by blast

lemma unique_mono: "unique_inos t \<Longrightarrow> (\<And>l i. ino_at t' l i \<Longrightarrow> ino_at t l i) \<Longrightarrow> unique_inos t'"
  unfolding unique_inos_def by blast

lemma ino_at_no_upd: "ino_at (t(l := None)) l' i \<Longrightarrow> ino_at t l' i" "ino_at (t(l \<mapsto> Dir d)) l' i \<Longrightarrow> ino_at t l' i"
  by (cases "l' = l"; simp add: ino_at_def)+

lemma unique_None: "unique_inos t \<Longrightarrow> unique_inos (t(l := None))"
  by (erule unique_mono) (rule ino_at_no_upd)

lemma unique_Dir: "unique_inos t \<Longrightarrow> unique_inos (t(l \<mapsto> Dir d))"
  by (erule unique_mono) (rule ino_at_no_upd)

lemma ino_at_upd: "ino_at (t(l0 \<mapsto> File f)) l i \<longleftrightarrow> (if l = l0 then fr_ino f = i else ino_at t l i)"
  by (auto simp: ino_at_def)

lemma unique_at:
  assumes "unique_inos t" "\<And>l x. ino_at t' l x \<Longrightarrow> if l = l0 then x = i else P l \<and> ino_at t l x"
    and "\<And>l. P l \<Longrightarrow> l \<noteq> l0 \<Longrightarrow> \<not> ino_at t l i"
  shows "unique_inos t'"
  unfolding unique_inos_def
proof (intro allI impI)
  fix l l' x
  assume a: "ino_at t' l x" "ino_at t' l' x"
  show "l = l'"
    using assms(2) [OF a(1)] assms(2) [OF a(2)] assms(3) [of l] assms(3) [of l'] uniqueD [OF assms(1), of l x l']
    by (cases "l = l0"; cases "l' = l0") simp_all
qed

lemma unique_File: "unique_inos t \<Longrightarrow> (\<And>l. l \<noteq> l0 \<Longrightarrow> \<not> ino_at t l (fr_ino f)) \<Longrightarrow> unique_inos (t(l0 \<mapsto> File f))"
  by (rule unique_at [of t _ l0 "fr_ino f" "\<lambda>_. True"]) (auto simp: ino_at_upd)

lemma fresh_ino_at: "fresh_inos a t \<Longrightarrow> unminted a i \<Longrightarrow> \<not> ino_at t l i"
  by (cases l) (auto simp: fresh_inos_def ino_at_def)

lemma child_name: "shape t \<Longrightarrow> t (b, p, n) = Some (File f) \<Longrightarrow> n \<noteq> []" "shape t \<Longrightarrow> t (b, p, n) = Some (Dir d) \<Longrightarrow> n \<noteq> []"
  by (auto simp: shape_def)

lemma in_children: "n \<noteq> [] \<Longrightarrow> t (b, p, n) = Some r \<Longrightarrow> n \<in> children t b p"
  by (simp add: children_def)

lemma card_children_pos: "finite_dirs t \<Longrightarrow> n \<in> children t b p \<Longrightarrow> 0 < card (children t b p)"
  by (auto simp: finite_dirs_def card_gt_0_iff)

lemma inv_create:
  assumes inv: "tree_inv a t" and n: "n \<noteq> []" "t (b, p, n) = None" and p: "\<not> unminted a' p"
    and mono: "\<And>x. unminted a' x \<Longrightarrow> unminted a x" and card: "card (children t b p) + 1 < 2 ^ 64"
    and r: "(\<exists>d. r = Dir d) \<or> (\<exists>f. r = File f \<and> unminted a (fr_ino f) \<and> \<not> unminted a' (fr_ino f))"
  shows "tree_inv a' (tree_bump t b p 1 ts (t((b, p, n) \<mapsto> r)))"
proof (rule inv_bump)
  have i: "shape t" "counted t" "fresh_inos a t" "unique_inos t" "finite_dirs t" using inv by (auto simp: tree_inv_def)
  show "counted t" by (rule i(2))
  show "shape (t((b, p, n) \<mapsto> r))" using r by (intro shape_upd [OF i(1) n(1)]) auto
  show "fresh_inos a' (t((b, p, n) \<mapsto> r))" using r p by (intro fresh_upd fresh_mono [OF i(3) mono]) auto
  show "finite_dirs (t((b, p, n) \<mapsto> r))" by (rule finite_dirs_upd [OF i(5) n(1)])
  show "unique_inos (t((b, p, n) \<mapsto> r))"
    using r unique_Dir [OF i(4)] unique_File [OF i(4)] fresh_ino_at [OF i(3)] by auto
  have "n \<notin> children t b p" using n by (simp add: children_def)
  then have "card (children (t((b, p, n) \<mapsto> r)) b p) = card (children t b p) + 1"
    using i(5) by (simp add: children_upd [OF n(1)] finite_dirs_def)
  then show "unat (saturating_add_signed c 1) = card (children (t((b, p, n) \<mapsto> r)) b p)" if "unat c = card (children t b p)" for c
    using saturating_1 [of c] that card by simp
qed (use n in auto)

lemma inv_replace:
  assumes inv: "tree_inv a t" and f: "t (b, p, n) = Some (File f)" "fr_ino g = fr_ino f"
  shows "tree_inv a (tree_bump t b p 0 ts (t((b, p, n) \<mapsto> File g)))"
proof (rule inv_bump)
  have i: "shape t" "counted t" "fresh_inos a t" "unique_inos t" "finite_dirs t" using inv by (auto simp: tree_inv_def)
  have n: "n \<noteq> []" using child_name(1) [OF i(1) f(1)] .
  show "counted t" by (rule i(2))
  show "shape (t((b, p, n) \<mapsto> File g))" by (intro shape_upd [OF i(1) n]) auto
  show "finite_dirs (t((b, p, n) \<mapsto> File g))" by (rule finite_dirs_upd [OF i(5) n])
  have "\<not> unminted a p" "\<not> unminted a (fr_ino f)" using freshD [OF i(3)] f(1) by force+
  then show "fresh_inos a (t((b, p, n) \<mapsto> File g))" using f(2) by (intro fresh_upd [OF i(3)]) auto
  have "ino_at t (b, p, n) (fr_ino f)" using f(1) by (simp add: ino_at_def)
  then show "unique_inos (t((b, p, n) \<mapsto> File g))" using i(4) f(2) by (intro unique_File) (auto simp: unique_inos_def)
  have "children (t((b, p, n) \<mapsto> File g)) b p = children t b p" using f n by (auto simp: children_def)
  then show "unat (saturating_add_signed c 0) = card (children (t((b, p, n) \<mapsto> File g)) b p)" if "unat c = card (children t b p)" for c
    using that by (simp add: saturating_0)
  show "(t((b, p, n) \<mapsto> File g)) (b, p, []) = t (b, p, [])" using n by simp
qed auto

lemma inv_remove:
  assumes inv: "tree_inv a t" and n: "n \<noteq> []" "t (b, p, n) = Some r"
  shows "tree_inv a (tree_bump t b p (- 1) ts (t((b, p, n) := None)))"
proof (rule inv_bump)
  have i: "shape t" "counted t" "fresh_inos a t" "unique_inos t" "finite_dirs t" using inv by (auto simp: tree_inv_def)
  show "counted t" by (rule i(2))
  show "shape (t((b, p, n) := None))" by (intro shape_upd [OF i(1) n(1)]) auto
  show "finite_dirs (t((b, p, n) := None))" by (rule finite_dirs_upd [OF i(5) n(1)])
  show "fresh_inos a (t((b, p, n) := None))" by (intro fresh_upd [OF i(3)]) auto
  show "unique_inos (t((b, p, n) := None))" by (rule unique_None [OF i(4)])
  have m: "n \<in> children t b p" using in_children [of n t b p r] n by simp
  then have "card (children (t((b, p, n) := None)) b p) = card (children t b p) - 1"
    by (simp add: children_upd [OF n(1)])
  then show "unat (saturating_add_signed c (- 1)) = card (children (t((b, p, n) := None)) b p)" if "unat c = card (children t b p)" for c
    using that saturating_minus_1 [of c] card_children_pos [OF i(5) m] by simp
  show "(t((b, p, n) := None)) (b, p, []) = t (b, p, [])" using n by simp
qed auto

lemma inv_move:
  assumes inv: "tree_inv a t" and ne: "src \<noteq> dst" "dst \<noteq> []" and f: "t (b, p, src) = Some (File f)" "fr_ino g = fr_ino f"
    and d: "t (b, p, dst) = None \<and> k = 0 \<or> (\<exists>h. t (b, p, dst) = Some (File h)) \<and> k = - 1"
  shows "tree_inv a (tree_bump t b p k ts (t((b, p, dst) \<mapsto> File g, (b, p, src) := None)))"
proof (rule inv_bump)
  let ?t = "t((b, p, dst) \<mapsto> File g, (b, p, src) := None)"
  have i: "shape t" "counted t" "fresh_inos a t" "unique_inos t" "finite_dirs t" using inv by (auto simp: tree_inv_def)
  have n: "src \<noteq> []" using child_name(1) [OF i(1) f(1)] .
  show "counted t" by (rule i(2))
  show "shape ?t" using ne n by (intro shape_upd i(1)) auto
  show "finite_dirs ?t" using ne n by (intro finite_dirs_upd i(5)) auto
  have "\<not> unminted a p" "\<not> unminted a (fr_ino f)" using freshD [OF i(3)] f(1) by force+
  then show "fresh_inos a ?t" using f(2) by (intro fresh_upd i(3)) auto
  have src: "ino_at t (b, p, src) (fr_ino f)" using f(1) by (simp add: ino_at_def)
  show "unique_inos ?t"
  proof (rule unique_at [OF i(4)])
    show "if l = (b, p, dst) then x = fr_ino f else l \<noteq> (b, p, src) \<and> ino_at t l x" if "ino_at ?t l x" for l x
      using that ne(1) f(2) by (cases "l = (b, p, src)"; cases "l = (b, p, dst)") (simp_all add: ino_at_def)
    show "\<not> ino_at t l (fr_ino f)" if "l \<noteq> (b, p, src)" for l using uniqueD [OF i(4) _ src, of l] that by blast
  qed
  have c: "children ?t b p = insert dst (children t b p) - {src}" using ne n by (simp add: children_upd)
  have s: "src \<in> children t b p" using in_children [of src t b p "File f"] n f(1) by simp
  have fin: "finite (children t b p)" using i(5) by (simp add: finite_dirs_def)
  show "unat (saturating_add_signed c k) = card (children ?t b p)" if h: "unat c = card (children t b p)" for c
    using d
  proof
    assume d0: "t (b, p, dst) = None \<and> k = 0"
    then have "dst \<notin> children t b p" by (simp add: children_def)
    then have "card (insert dst (children t b p) - {src}) = card (children t b p)"
      using s fin by (simp add: card_Diff_singleton)
    then show ?thesis using d0 h c by (simp add: saturating_0)
  next
    assume d1: "(\<exists>h. t (b, p, dst) = Some (File h)) \<and> k = - 1"
    then have "dst \<in> children t b p" using ne(2) by (auto simp: children_def)
    then have "card (insert dst (children t b p) - {src}) = card (children t b p) - 1"
      using s fin by (simp add: insert_absorb card_Diff_singleton)
    then show ?thesis using d1 h c saturating_minus_1 [of c] card_children_pos [OF i(5) s] by simp
  qed
  show "?t (b, p, []) = t (b, p, [])" using n ne by simp
qed auto

lemma inv_new_dir:
  assumes inv: "tree_inv a t" and m: "mint a = Ok (i, a')"
  shows "tree_inv a' (t((b, i, []) \<mapsto> Sentinel (new_dir i p n ts)))"
proof -
  let ?t = "t((b, i, []) \<mapsto> Sentinel (new_dir i p n ts))"
  have iv: "shape t" "counted t" "fresh_inos a t" "unique_inos t" "finite_dirs t" using inv by (auto simp: tree_inv_def)
  have mi: "unminted a i" "\<not> unminted a' i" "\<And>x. unminted a' x \<Longrightarrow> unminted a x" using mint_spec [OF m] by blast+
  have ch: "children ?t b' p' = children t b' p'" for b' p' by (auto simp: children_def)
  have none: "t (b', i, x) = None" for b' x using freshD(1) [OF iv(3) mi(1)] .
  have "shape ?t" using iv(1) by (auto simp: shape_def new_dir_def)
  moreover have "counted ?t" unfolding counted_def ch
    using iv(2) none by (auto simp: counted_def children_def new_dir_def)
  moreover have "fresh_inos a' ?t" using fresh_mono [OF iv(3) mi(3)] mi(2) by (auto simp: fresh_inos_def)
  moreover have "finite_dirs ?t" using iv(5) by (simp add: finite_dirs_def ch)
  moreover have "unique_inos ?t"
  proof (rule unique_at [OF iv(4)])
    show "if l = (b, i, []) then x = i else True \<and> ino_at t l x" if "ino_at ?t l x" for l x
      using that by (cases "l = (b, i, [])") (simp_all add: ino_at_def)
    show "\<not> ino_at t l i" for l by (rule fresh_ino_at [OF iv(3) mi(1)])
  qed
  ultimately show ?thesis by (simp add: tree_inv_def)
qed

lemma inv_drop_dir:
  assumes "tree_inv a t"
  shows "tree_inv a (t((b, d, []) := None))"
proof -
  have iv: "shape t" "counted t" "fresh_inos a t" "unique_inos t" "finite_dirs t" using assms by (auto simp: tree_inv_def)
  have ch: "children (t((b, d, []) := None)) b' p' = children t b' p'" for b' p' by (auto simp: children_def)
  have "shape (t((b, d, []) := None))" using iv(1) by (auto simp: shape_def)
  moreover have "counted (t((b, d, []) := None))" using iv(2) unfolding counted_def ch by auto
  moreover have "fresh_inos a (t((b, d, []) := None))" using iv(3) by (auto simp: fresh_inos_def)
  ultimately show ?thesis using unique_None [OF iv(4)] iv(5) by (simp add: tree_inv_def finite_dirs_def ch)
qed

lemma new_file_ino [simp]: "fr_ino (new_file i sz etag content http ts) = i"
  by (simp add: new_file_def pack_file_def split: content_head.splits prod.splits)

lemma pack_file_ino [simp]: "fr_ino (fst (pack_file f)) = fr_ino f"
  by (simp add: pack_file_def split: content_head.splits prod.splits)

lemma mint_mono: "mint a = Ok (i, a') \<Longrightarrow> tree_inv a t \<Longrightarrow> tree_inv a' t"
  using fresh_mono [of a t a'] mint_spec(3) [of a i a'] by (auto simp: tree_inv_def)

lemma tree_step_inv:
  assumes "tree_inv a t" "op_ok a t op" "tree_step op a t = Ok (r, t', a')"
  shows "tree_inv a' t'"
proof -
  have sh: "shape t" using assms(1) by (simp add: tree_inv_def)
  show ?thesis
  proof (cases op)
    case (HWrite b p n sz etag content http ts)
    then show ?thesis
    proof (cases "t (b, p, n)")
      case None
      show ?thesis
      proof (cases "n = []")
        case False
        obtain i where m: "mint a = Ok (i, a')" "t' = tree_bump t b p 1 ts (t((b, p, n) \<mapsto> File (new_file i sz etag content http ts)))"
          using assms(3) HWrite None False by (auto simp: and_then_eq_Ok)
        have "\<not> unminted a' p" "card (children t b p) + 1 < 2 ^ 64"
          using assms(2) HWrite mint_spec(3) [OF m(1)] by (auto simp: op_ok_def)
        then show ?thesis unfolding m(2)
          using inv_create [OF assms(1) False None, of a' "File (new_file i sz etag content http ts)"] mint_spec [OF m(1)] by simp
      qed (use assms HWrite in auto)
    next
      case (Some q)
      then show ?thesis using assms HWrite inv_replace [OF assms(1), of b p n]
        by (cases q) (auto split: if_splits)
    qed
  next
    case (HUnlink b p n ts)
    then show ?thesis using assms(1,3) inv_remove [OF assms(1)] child_name [OF sh]
      by (auto split: option.splits fs_record.splits)
  next
    case (HMkdirSentinel b p n ts)
    then obtain i where m: "mint a = Ok (i, a')" "t' = (if t (b, i, []) = None then t((b, i, []) \<mapsto> Sentinel (new_dir i p n ts)) else t)"
      using assms(3) by (auto simp: and_then_eq_Ok)
    show ?thesis unfolding m(2) using inv_new_dir [OF assms(1) m(1)] mint_mono [OF m(1) assms(1)] by simp
  next
    case (HMkdirLink b p n child ts)
    have c: "\<not> unminted a p" "card (children t b p) + 1 < 2 ^ 64" using assms(2) HMkdirLink by (auto simp: op_ok_def)
    show ?thesis
    proof (cases "t (b, p, n)")
      case None
      then show ?thesis using assms(1,3) HMkdirLink c inv_create [OF assms(1) _ None c(1) _ c(2), of "Dir \<lparr>de_ino = child\<rparr>" ts]
        by (auto split: if_splits)
    next
      case (Some q)
      then show ?thesis using assms(1,3) HMkdirLink shapeD(2) [OF sh] by (cases q) (auto split: if_splits)
    qed
  next
    case (HRmdirUnlink b p n ts)
    then show ?thesis using assms(1,3) inv_remove [OF assms(1)] child_name [OF sh]
      by (auto split: option.splits fs_record.splits)
  next
    case (HRmdirSentinel b d ts)
    then show ?thesis using assms(1,3) inv_drop_dir [OF assms(1)] by (auto split: if_splits)
  next
    case (HRenameSameDir b p src dst ts)
    have "dst \<noteq> []" using assms(2) HRenameSameDir by (simp add: op_ok_def)
    then show ?thesis using assms(1,3) HRenameSameDir inv_move [OF assms(1), of src dst b p]
      by (auto simp: Let_def split: option.splits fs_record.splits if_splits)
  qed
qed

section \<open>Listing a directory\<close>

definition dec_entry :: "serde \<Rightarrow> bytes \<times> bytes \<Rightarrow> (meta_store_error, bytes \<times> fs_record) result" where
  "dec_entry j kv = (case kv of (k, val) \<Rightarrow> and_then (decode (sd_fs j) val) (\<lambda>r. Ok (drop 17 k, r)))"

lemma readdir_loop_eq:
  "readdir_loop j st start stop remaining = collect_results (map (dec_entry j) (take remaining (kv_range start (Some stop) (st Fs))))"
proof -
  let ?xs = "kv_range start (Some stop) (st Fs)"
  let ?page = "take remaining ?xs"
  show ?thesis
  proof (cases "remaining = 0 \<or> ?page = []")
    case True
    then show ?thesis by (subst readdir_loop.simps) (auto simp: store_scan_def)
  next
    case False
    have "readdir_loop j st (fst (last ?page) @ [0]) stop (remaining - length ?page) = Ok []"
    proof (cases "length ?xs < remaining")
      case True
      then have "kv_range (fst (last ?page) @ [0]) (Some stop) (st Fs) = []"
        using kv_range_next_page [OF refl, of remaining start stop "st Fs"] False by simp
      then show ?thesis by (subst readdir_loop.simps) (simp only: store_scan_def Let_def take_Nil refl if_True if_cancel)
    qed (subst readdir_loop.simps, simp)
    then show ?thesis using False
      by (subst readdir_loop.simps) (simp add: store_scan_def Let_def dec_entry_def [abs_def] and_then_def split: sum.split)
  qed
qed

text \<open>The entries of a directory after its sentinel.\<close>

definition dir_kvs :: "store \<Rightarrow> bucket_id \<Rightarrow> u64 \<Rightarrow> (bytes \<times> bytes) list" where
  "dir_kvs st b d = kv_range (hier_key Fs b d [] [] @ [0]) (Some (scan_end Fs (hier_key Fs b d [] []))) (st Fs)"

lemma set_dir_kvs: "(k, v) \<in> set (dir_kvs st b d) \<longleftrightarrow> (\<exists>n. n \<noteq> [] \<and> k = hier_key Fs b d n [] \<and> fmlookup (st Fs) k = Some v)"
proof -
  let ?p = "hier_key Fs b d [] []"
  have "(k, v) \<in> set (dir_kvs st b d) \<longleftrightarrow> ?p < k \<and> (k, v) \<in> set (kv_range ?p (Some (scan_end Fs ?p)) (st Fs))"
    unfolding dir_kvs_def set_kv_range by (auto simp: snoc_zero_le less_imp_le)
  also have "\<dots> \<longleftrightarrow> ?p < k \<and> prefix ?p k \<and> fmlookup (st Fs) k = Some v" by (simp add: dir_scan set_kv_prefix_scan)
  also have "\<dots> \<longleftrightarrow> ?p \<noteq> k \<and> prefix ?p k \<and> fmlookup (st Fs) k = Some v" using prefix_le [of ?p k] by (auto simp: le_less)
  finally show ?thesis by (auto simp: dir_prefix)
qed

definition dir_list :: "serde \<Rightarrow> store \<Rightarrow> bucket_id \<Rightarrow> u64 \<Rightarrow> (bytes \<times> fs_record) list" where
  "dir_list j st b d = map (\<lambda>(k, v). (drop 17 k, the (from_slice (sd_fs j) v))) (dir_kvs st b d)"

lemma readdir_eq:
  assumes "fs_wf j st"
  shows "readdir j st b d None limit = Ok (take limit (dir_list j st b d))"
proof -
  have "dec_entry j kv = Ok (drop 17 (fst kv), the (from_slice (sd_fs j) (snd kv)))" if "kv \<in> set (dir_kvs st b d)" for kv
    using that set_dir_kvs [of "fst kv" "snd kv" st b d] fs_wfD [OF assms, of "fst kv" "snd kv"]
    by (auto simp: dec_entry_def decode_def split_beta)
  then have "map (dec_entry j) (take limit (dir_kvs st b d)) = map Inr (take limit (dir_list j st b d))"
    by (auto simp: dir_list_def take_map split_beta dest: in_set_takeD)
  then show ?thesis
    by (simp add: readdir_def Let_def SENTINEL_NAME_def readdir_loop_eq dir_kvs_def [symmetric])
qed

lemma drop_hier_key [simp]: "drop 17 (hier_key cf b d n []) = n"
  by (simp add: hier_key_def)

lemma hier_key_less: "hier_key cf b d m [] < hier_key cf b d n [] \<longleftrightarrow> m < n"
  by (simp add: hier_key_def)

lemma dir_list_spec:
  assumes "fs_wf j st"
  shows "set (dir_list j st b d) = {(n, r). n \<noteq> [] \<and> fs_tree j st (b, d, n) = Some r}"
    and "sorted_wrt (<) (map fst (dir_list j st b d))"
proof -
  show "set (dir_list j st b d) = {(n, r). n \<noteq> [] \<and> fs_tree j st (b, d, n) = Some r}" (is "?L = ?R")
  proof (rule set_eqI)
    fix x :: "bytes \<times> fs_record"
    obtain n r where x: "x = (n, r)" by (cases x)
    have "(n, r) \<in> ?L \<longleftrightarrow> (\<exists>k v. (k, v) \<in> set (dir_kvs st b d) \<and> n = drop 17 k \<and> r = the (from_slice (sd_fs j) v))"
      by (force simp: dir_list_def)
    also have "\<dots> \<longleftrightarrow> n \<noteq> [] \<and> (\<exists>v. fmlookup (st Fs) (hier_key Fs b d n []) = Some v \<and> r = the (from_slice (sd_fs j) v))"
      by (simp only: set_dir_kvs) (metis drop_hier_key)
    also have "\<dots> \<longleftrightarrow> n \<noteq> [] \<and> fs_tree j st (b, d, n) = Some r"
      using fs_wfD [OF assms, of "hier_key Fs b d n []"] by (auto simp: fs_tree_def bind_eq_Some_conv)
    finally show "x \<in> ?L \<longleftrightarrow> x \<in> ?R" by (simp add: x)
  qed
  have "sorted (map fst (dir_kvs st b d))" "distinct (map fst (dir_kvs st b d))"
    unfolding dir_kvs_def by (rule sorted_kv_range, rule distinct_kv_range)
  then have "sorted_wrt (<) (map fst (dir_kvs st b d))" by (simp add: strict_sorted_iff)
  then have "sorted_wrt (\<lambda>x y. fst x < fst y) (dir_kvs st b d)" by (simp add: sorted_wrt_map)
  then have "sorted_wrt (\<lambda>x y. drop 17 (fst x) < drop 17 (fst y)) (dir_kvs st b d)"
    by (rule sorted_wrt_mono_rel [rotated]) (auto simp: set_dir_kvs hier_key_less)
  then show "sorted_wrt (<) (map fst (dir_list j st b d))"
    by (simp add: dir_list_def sorted_wrt_map split_beta comp_def)
qed

lemma length_dir_list:
  assumes "fs_wf j st"
  shows "length (dir_list j st b d) = card (children (fs_tree j st) b d)"
proof -
  have "distinct (map fst (dir_list j st b d))" using dir_list_spec(2) [OF assms] by (simp add: strict_sorted_iff)
  then have "length (dir_list j st b d) = card (fst ` set (dir_list j st b d))" using distinct_card by fastforce
  also have "fst ` set (dir_list j st b d) = children (fs_tree j st) b d"
    unfolding dir_list_spec(1) [OF assms] by (force simp: children_def)
  finally show ?thesis .
qed

section \<open>Reachable states\<close>

text \<open>Runs of one partition over the hierarchical operations, from the empty store, with the queue numbers of the
  state machine in any order.\<close>

inductive hier_reach :: "serde \<Rightarrow> u32 \<Rightarrow> store \<Rightarrow> ino_allocator \<Rightarrow> bool" for j tag where
  init: "hier_reach j tag empty_store \<lparr>ia_tag = tag, ia_next = 0\<rparr>"
| step: "hier_reach j tag st a \<Longrightarrow> op_ok a (fs_tree j st) op \<Longrightarrow> hier_apply j st op sq a = Ok (out, a') \<Longrightarrow>
    hier_reach j tag (store_apply (ao_ops out) st) a'"

lemma fs_tree_empty: "fs_tree j empty_store = (\<lambda>_. None)"
  by (rule ext) (simp add: fs_tree_def empty_store_def split: prod.split)

lemma hier_reach_inv: "hier_reach j tag st a \<Longrightarrow> serde_ok j \<Longrightarrow> fs_wf j st \<and> tree_inv a (fs_tree j st)"
proof (induction rule: hier_reach.induct)
  case init
  have "fs_wf j empty_store" by (simp add: fs_wf_def empty_store_def)
  then show ?case
    by (simp add: fs_tree_empty tree_inv_def shape_def counted_def fresh_inos_def unique_inos_def ino_at_def finite_dirs_def children_def)
next
  case (step st a op sq out a')
  have "tree_step op a (fs_tree j st) = Ok (ao_response out, fs_tree j (store_apply (ao_ops out) st), a')"
    "fs_wf j (store_apply (ao_ops out) st)"
    using hier_refines [OF step.prems, of st op sq a] step.IH step.prems step.hyps(3) by simp_all
  then show ?case using tree_step_inv [of a "fs_tree j st" op] step.IH step.prems step.hyps(2) by blast
qed

text \<open>The run that makes one directory.\<close>

definition demo_mkdir :: hier_op where
  "demo_mkdir = HMkdirSentinel (BucketId 9) 7 [100] 5"

lemma demo_mkdir_ok:
  "\<exists>out. hier_apply sample_serde empty_store demo_mkdir 0 \<lparr>ia_tag = 3, ia_next = 0\<rparr> = Ok (out, \<lparr>ia_tag = 3, ia_next = 1\<rparr>)"
  by (simp add: demo_mkdir_def apply_mkdir_sentinel_def mint_def compose_ino_def INO_bits push_bit_eq_mult word_le_nat_alt
      store_get_def empty_store_def encode_def sample_serde_def tagged_def Let_def)

definition demo_tree_store :: store where
  "demo_tree_store =
     (case hier_apply sample_serde empty_store demo_mkdir 0 \<lparr>ia_tag = 3, ia_next = 0\<rparr> of
        Ok (out, _) \<Rightarrow> store_apply (ao_ops out) empty_store
      | Err _ \<Rightarrow> empty_store)"

lemma demo_tree_reach: "hier_reach sample_serde 3 demo_tree_store \<lparr>ia_tag = 3, ia_next = 1\<rparr>"
proof -
  obtain out where "hier_apply sample_serde empty_store demo_mkdir 0 \<lparr>ia_tag = 3, ia_next = 0\<rparr> = Ok (out, \<lparr>ia_tag = 3, ia_next = 1\<rparr>)"
    using demo_mkdir_ok by blast
  then show ?thesis using hier_reach.step [OF hier_reach.init, where tag = 3 and j = sample_serde and op = demo_mkdir and sq = 0 and out = out]
    by (simp add: demo_tree_store_def op_ok_def demo_mkdir_def)
qed

section \<open>Properties\<close>







end
