(* ===== verification/Meta_Machine.thy ===== *)
theory Meta_Machine
  imports Meta_Flat_Inv Meta_Tree_Inv
begin

text \<open>
  The raft state machine of a metadata partition (\<open>epoch-meta/src/raft/state_machine.rs\<close>): committed entries
  become batches of the shared store, the counters of the partition are saved in the batch that uses them, a split
  narrows the range, and snapshots export and replace the range of the partition.

  The raft library is a parameter: log ids, memberships and their stored forms are type variables, encoded by the
  codecs of a record. A call returns its result together with the store and the machine as it leaves them, also when
  it fails.
\<close>

record split_op =
  sp_child_group :: u64
  sp_at_bucket :: u64
  sp_at_routing_key :: bytes
  sp_child_peers :: "(u64 \<times> string) list"
  sp_bootstrap_node :: u64
  sp_child_ino_tag :: u32

datatype meta_entry =
    StoreOps "store_op list"
  | FlatEntry flat_op
  | HierEntry hier_op
  | SplitEntry split_op

record pending_split =
  ps_child_group :: u64
  ps_child_range :: partition_range
  ps_child_peers :: "(u64 \<times> string) list"
  ps_bootstrap_node :: u64

datatype 'm entry_payload = Blank | Normal meta_entry | Membership 'm

record ('l, 'm) raft_entry =
  re_log_id :: 'l
  re_payload :: "'m entry_payload"

record ('l, 'm) stored_membership =
  sm_log_id :: "'l option"
  sm_membership :: 'm

record ('l, 'm) meta_snapshot_data =
  sn_last_applied :: "'l option"
  sn_last_membership :: "('l, 'm) stored_membership"
  sn_delq_seq :: u64
  sn_ino_seq :: u64
  sn_inline_bytes :: u64
  sn_inline_count :: u64
  sn_total_bytes :: u64
  sn_entries :: "export_entry list"

record ('l, 'm) snapshot_meta =
  sx_last_log_id :: "'l option"
  sx_last_membership :: "('l, 'm) stored_membership"
  sx_snapshot_id :: string

record ('l, 'm) stored_snapshot =
  ss_meta :: "('l, 'm) snapshot_meta"
  ss_data :: bytes

record ('l, 'm) raft_serde =
  rd_log_id :: "'l codec"
  rd_membership :: "('l, 'm) stored_membership codec"
  rd_range :: "partition_range codec"
  rd_pending :: "pending_split codec"
  rd_data :: "('l, 'm) meta_snapshot_data codec"
  rd_stored :: "('l, 'm) stored_snapshot codec"
  rd_default :: "('l, 'm) stored_membership"
  rd_index :: "'l \<Rightarrow> u64"

definition raft_serde_ok :: "('l, 'm) raft_serde \<Rightarrow> bool" where
  "raft_serde_ok rs \<longleftrightarrow> codec_ok (rd_log_id rs) \<and> codec_ok (rd_membership rs) \<and> codec_ok (rd_range rs) \<and> codec_ok (rd_pending rs)
     \<and> codec_ok (rd_data rs) \<and> codec_ok (rd_stored rs)"

datatype sm_error = SmRead meta_store_error | SmWrite meta_store_error | SmCorrupt string

section \<open>Bookkeeping records\<close>

definition bookkeeping_key :: "u64 \<Rightarrow> byte \<Rightarrow> bytes" where
  "bookkeeping_key g sfx = to_be_bytes 8 g @ [sfx]"

definition APPLIED_SUFFIX :: byte where "APPLIED_SUFFIX = 0x61"
definition MEMBERSHIP_SUFFIX :: byte where "MEMBERSHIP_SUFFIX = 0x6D"
definition SNAPSHOT_SUFFIX :: byte where "SNAPSHOT_SUFFIX = 0x73"
definition DELQ_SEQ_SUFFIX :: byte where "DELQ_SEQ_SUFFIX = 0x64"
definition GUARD_SUFFIX :: byte where "GUARD_SUFFIX = 0x69"
definition INO_SEQ_SUFFIX :: byte where "INO_SEQ_SUFFIX = 0x6E"
definition RANGE_SUFFIX :: byte where "RANGE_SUFFIX = 0x72"
definition PENDING_SPLIT_SUFFIX :: byte where "PENDING_SPLIT_SUFFIX = 0x70"
definition INO_TAG_SUFFIX :: byte where "INO_TAG_SUFFIX = 0x74"

definition applied_key :: "u64 \<Rightarrow> bytes" where "applied_key g = bookkeeping_key g APPLIED_SUFFIX"
definition membership_key :: "u64 \<Rightarrow> bytes" where "membership_key g = bookkeeping_key g MEMBERSHIP_SUFFIX"
definition snapshot_key :: "u64 \<Rightarrow> bytes" where "snapshot_key g = bookkeeping_key g SNAPSHOT_SUFFIX"
definition delq_seq_key :: "u64 \<Rightarrow> bytes" where "delq_seq_key g = bookkeeping_key g DELQ_SEQ_SUFFIX"
definition guard_key :: "u64 \<Rightarrow> bytes" where "guard_key g = bookkeeping_key g GUARD_SUFFIX"
definition ino_seq_key :: "u64 \<Rightarrow> bytes" where "ino_seq_key g = bookkeeping_key g INO_SEQ_SUFFIX"
definition range_key :: "u64 \<Rightarrow> bytes" where "range_key g = bookkeeping_key g RANGE_SUFFIX"
definition pending_split_key :: "u64 \<Rightarrow> bytes" where "pending_split_key g = bookkeeping_key g PENDING_SPLIT_SUFFIX"
definition ino_tag_key :: "u64 \<Rightarrow> bytes" where "ino_tag_key g = bookkeeping_key g INO_TAG_SUFFIX"

definition count_delq_entries :: "store \<Rightarrow> partition_range \<Rightarrow> u64" where
  "count_delq_entries st rng =
     sum_list (map (\<lambda>kr. of_nat (length (scan_pages st Delq (kr_start kr) (kr_end kr) 4096)))
       (filter (\<lambda>r. kr_cf r = Delq) (key_ranges rng)))"

definition delq_delta :: "store_op list \<Rightarrow> i64" where
  "delq_delta ops = sum_list (map (\<lambda>op. if so_value op \<noteq> None then 1 else - 1) (filter (\<lambda>op. so_cf op = Delq) ops))"

definition read_pending_split :: "('l, 'm) raft_serde \<Rightarrow> store \<Rightarrow> u64 \<Rightarrow> (meta_store_error, pending_split option) result" where
  "read_pending_split rs st g =
     (case store_get st Applied (pending_split_key g) of
        Some bs \<Rightarrow> and_then (decode (rd_pending rs) bs) (\<lambda>p. Ok (Some p))
      | None \<Rightarrow> Ok None)"

definition clear_pending_split :: "store \<Rightarrow> u64 \<Rightarrow> store" where
  "clear_pending_split st g = store_apply [op_delete Applied (pending_split_key g)] st"

definition encode_guard_record :: "u64 \<Rightarrow> u64 \<Rightarrow> u64 \<Rightarrow> bytes" where
  "encode_guard_record inl cnt tot = to_be_bytes 8 inl @ to_be_bytes 8 cnt @ to_be_bytes 8 tot"

definition decode_guard_record :: "bytes option \<Rightarrow> u64 \<times> u64 \<times> u64" where
  "decode_guard_record b =
     (case b of
        None \<Rightarrow> (0, 0, 0)
      | Some bs \<Rightarrow>
          if length bs \<noteq> 24 then (0, 0, 0)
          else (from_be_bytes (take 8 bs), from_be_bytes (take 8 (drop 8 bs)), from_be_bytes (drop 16 bs)))"

definition read_bookkeeping :: "'a codec \<Rightarrow> store \<Rightarrow> bytes \<Rightarrow> (sm_error, 'a option) result" where
  "read_bookkeeping c st key =
     (case store_get st Applied key of
        Some bs \<Rightarrow> and_then (map_err SmRead (decode c bs)) (\<lambda>x. Ok (Some x))
      | None \<Rightarrow> Ok None)"

text \<open>A counter record: absent, or of another length than the counter, it counts as zero.\<close>

definition read_counter :: "nat \<Rightarrow> store \<Rightarrow> bytes \<Rightarrow> ('a::len) word" where
  "read_counter n st key =
     (case store_get st Applied key of Some bs \<Rightarrow> if length bs = n then from_be_bytes bs else 0 | None \<Rightarrow> 0)"

section \<open>The machine\<close>

record machine =
  mm_group :: u64
  mm_range :: partition_range
  mm_guard :: partition_guard
  mm_delq_next :: u64
  mm_ino_next :: u64
  mm_ino_tag :: u32

definition machine_new ::
    "('l, 'm) raft_serde \<Rightarrow> store \<Rightarrow> u64 \<Rightarrow> partition_range \<Rightarrow> partition_guard \<Rightarrow> (meta_store_error, machine) result" where
  "machine_new rs st g rng guard =
     (let delq_next = read_counter 8 st (delq_seq_key g);
          (inl, cnt, tot) = decode_guard_record (store_get st Applied (guard_key g));
          guard' = guard_load inl cnt tot guard;
          ino_next = read_counter 8 st (ino_seq_key g)
      in and_then (case store_get st Applied (range_key g) of Some bs \<Rightarrow> decode (rd_range rs) bs | None \<Rightarrow> Ok rng) (\<lambda>rng'.
         let ino_tag = read_counter 4 st (ino_tag_key g)
         in Ok \<lparr>mm_group = g, mm_range = rng', mm_guard = load_delq_depth (count_delq_entries st rng') guard',
                mm_delq_next = delq_next, mm_ino_next = ino_next, mm_ino_tag = ino_tag\<rparr>))"

definition split_ops :: "('l, 'm) raft_serde \<Rightarrow> split_op \<Rightarrow> machine \<Rightarrow> (sm_error, store_op list) result \<times> machine" where
  "split_ops rs op m =
     (let at = (BucketId (sp_at_bucket op), sp_at_routing_key op) in
      case range_split (mm_range m) at of
        None \<Rightarrow> (Ok [], m)
      | Some (left, right) \<Rightarrow>
          let m' = m\<lparr>mm_range := left\<rparr>;
              pending = \<lparr>ps_child_group = sp_child_group op, ps_child_range = right, ps_child_peers = sp_child_peers op,
                         ps_bootstrap_node = sp_bootstrap_node op\<rparr>
          in (and_then (map_err SmWrite (encode (rd_range rs) left)) (\<lambda>left_bytes.
              and_then (map_err SmWrite (encode (rd_pending rs) pending)) (\<lambda>pending_bytes.
                Ok [op_put Applied (range_key (mm_group m)) left_bytes,
                    op_put Applied (pending_split_key (mm_group m)) pending_bytes,
                    op_put Applied (delq_seq_key (sp_child_group op)) (to_be_bytes 8 (0 :: u64)),
                    op_put Applied (ino_seq_key (sp_child_group op)) (to_be_bytes 8 (0 :: u64)),
                    op_put Applied (ino_tag_key (sp_child_group op)) (to_be_bytes 4 (sp_child_ino_tag op))])), m'))"

definition write_applied :: "('l, 'm) raft_serde \<Rightarrow> machine \<Rightarrow> store_op list \<Rightarrow> 'l \<Rightarrow> (sm_error, store_op list) result" where
  "write_applied rs m ops log_id =
     and_then (map_err SmWrite (encode (rd_log_id rs) log_id)) (\<lambda>bs. Ok (ops @ [op_put Applied (applied_key (mm_group m)) bs]))"

definition flat_entry_ops ::
    "serde \<Rightarrow> (bytes \<Rightarrow> bytes) \<Rightarrow> store \<Rightarrow> flat_op \<Rightarrow> machine \<Rightarrow> (sm_error, store_op list \<times> meta_response) result \<times> machine" where
  "flat_entry_ops j blake3 st op m =
     (let sq = mm_delq_next m;
          m1 = m\<lparr>mm_delq_next := sq + 1\<rparr>
      in case flat_apply j blake3 st op sq of
           Err e \<Rightarrow> (Err (SmWrite e), m1)
         | Ok outcome \<Rightarrow>
             let ops = ao_ops outcome @ [op_put Applied (delq_seq_key (mm_group m1)) (to_be_bytes 8 (mm_delq_next m1))];
                 ((inl, cnt, tot), guard) = guard_account (ao_delta outcome) (mm_guard m1)
             in (Ok (ops @ [op_put Applied (guard_key (mm_group m1)) (encode_guard_record inl cnt tot)], ao_response outcome),
                 m1\<lparr>mm_guard := guard\<rparr>))"

definition hier_entry_ops ::
    "serde \<Rightarrow> store \<Rightarrow> hier_op \<Rightarrow> machine \<Rightarrow> (sm_error, store_op list \<times> meta_response) result \<times> machine" where
  "hier_entry_ops j st op m =
     (let sq = mm_delq_next m;
          m1 = m\<lparr>mm_delq_next := sq + 1\<rparr>
      in case hier_apply j st op sq \<lparr>ia_tag = mm_ino_tag m1, ia_next = mm_ino_next m1\<rparr> of
           Err e \<Rightarrow> (Err (SmWrite e), m1)
         | Ok (outcome, allocator) \<Rightarrow>
             let m2 = m1\<lparr>mm_ino_next := ia_next allocator\<rparr>;
                 ops = ao_ops outcome @ [op_put Applied (delq_seq_key (mm_group m2)) (to_be_bytes 8 (mm_delq_next m2)),
                                         op_put Applied (ino_seq_key (mm_group m2)) (to_be_bytes 8 (mm_ino_next m2))];
                 ((inl, cnt, tot), guard) = guard_account (ao_delta outcome) (mm_guard m2)
             in (Ok (ops @ [op_put Applied (guard_key (mm_group m2)) (encode_guard_record inl cnt tot)], ao_response outcome),
                 m2\<lparr>mm_guard := guard\<rparr>))"

definition entry_ops ::
    "serde \<Rightarrow> ('l, 'm) raft_serde \<Rightarrow> (bytes \<Rightarrow> bytes) \<Rightarrow> store \<Rightarrow> ('l, 'm) raft_entry \<Rightarrow> machine
       \<Rightarrow> (sm_error, store_op list \<times> meta_response) result \<times> machine" where
  "entry_ops j rs blake3 st e m =
     (case re_payload e of
        Blank \<Rightarrow> (Ok ([], RNone), m)
      | Normal (StoreOps batch) \<Rightarrow> (Ok (batch, RNone), m)
      | Normal (FlatEntry op) \<Rightarrow> flat_entry_ops j blake3 st op m
      | Normal (HierEntry op) \<Rightarrow> hier_entry_ops j st op m
      | Normal (SplitEntry op) \<Rightarrow> (let (r, m') = split_ops rs op m in (and_then r (\<lambda>ops. Ok (ops, RNone)), m'))
      | Membership mem \<Rightarrow>
          (and_then (map_err SmWrite (encode (rd_membership rs) \<lparr>sm_log_id = Some (re_log_id e), sm_membership = mem\<rparr>)) (\<lambda>bs.
             Ok ([op_put Applied (membership_key (mm_group m)) bs], RNone)), m))"

definition applied_state :: "('l, 'm) raft_serde \<Rightarrow> store \<Rightarrow> machine \<Rightarrow> (sm_error, 'l option \<times> ('l, 'm) stored_membership) result" where
  "applied_state rs st m =
     and_then (read_bookkeeping (rd_log_id rs) st (applied_key (mm_group m))) (\<lambda>applied.
     and_then (read_bookkeeping (rd_membership rs) st (membership_key (mm_group m))) (\<lambda>membership.
       Ok (applied, case membership of Some x \<Rightarrow> x | None \<Rightarrow> rd_default rs)))"

definition is_split :: "('l, 'm) raft_entry \<Rightarrow> bool" where
  "is_split e = (case re_payload e of Normal (SplitEntry _) \<Rightarrow> True | _ \<Rightarrow> False)"

text \<open>One entry is one batch. The record of the applied position rides in the batch of the last one.\<close>

definition apply_entry ::
    "serde \<Rightarrow> ('l, 'm) raft_serde \<Rightarrow> (bytes \<Rightarrow> bytes) \<Rightarrow> 'l option \<Rightarrow> ('l, 'm) raft_entry \<Rightarrow> store \<Rightarrow> machine
       \<Rightarrow> (sm_error, meta_response) result \<times> store \<times> machine" where
  "apply_entry j rs blake3 last_log_id e st m =
     (case entry_ops j rs blake3 st e m of
        (Err err, m1) \<Rightarrow> (Err err, st, m1)
      | (Ok (ops, response), m1) \<Rightarrow>
          (case (case last_log_id of Some l \<Rightarrow> write_applied rs m1 ops l | None \<Rightarrow> Ok ops) of
             Err err \<Rightarrow> (Err err, st, m1)
           | Ok ops' \<Rightarrow>
               let st' = store_apply ops' st;
                   guard = (if is_split e then load_delq_depth (count_delq_entries st' (mm_range m1)) (mm_guard m1)
                            else snd (account_delq (delq_delta ops') (mm_guard m1)))
               in (Ok response, st', m1\<lparr>mm_guard := guard\<rparr>)))"

fun apply_entries ::
    "serde \<Rightarrow> ('l, 'm) raft_serde \<Rightarrow> (bytes \<Rightarrow> bytes) \<Rightarrow> ('l, 'm) raft_entry list \<Rightarrow> store \<Rightarrow> machine
       \<Rightarrow> (sm_error, meta_response list) result \<times> store \<times> machine" where
  "apply_entries j rs blake3 [] st m = (Ok [], st, m)"
| "apply_entries j rs blake3 (e # es) st m =
     (case apply_entry j rs blake3 (if es = [] then Some (re_log_id e) else None) e st m of
        (Err err, st1, m1) \<Rightarrow> (Err err, st1, m1)
      | (Ok r, st1, m1) \<Rightarrow>
          (case apply_entries j rs blake3 es st1 m1 of
             (Err err, st2, m2) \<Rightarrow> (Err err, st2, m2)
           | (Ok rest, st2, m2) \<Rightarrow> (Ok (r # rest), st2, m2)))"

section \<open>Snapshots\<close>

definition clear_ops :: "store \<Rightarrow> partition_range \<Rightarrow> store_op list" where
  "clear_ops st rng =
     concat (map (\<lambda>r. map (\<lambda>(k, _). op_delete (kr_cf r) k) (scan_pages st (kr_cf r) (kr_start r) (kr_end r) 4096)) (key_ranges rng))"

definition install_snapshot ::
    "('l, 'm) raft_serde \<Rightarrow> ('l, 'm) snapshot_meta \<Rightarrow> bytes \<Rightarrow> store \<Rightarrow> machine \<Rightarrow> (sm_error, unit) result \<times> store \<times> machine" where
  "install_snapshot rs meta snapshot st m =
     (let g = mm_group m;
          batch =
            and_then (map_err SmRead (decode (rd_data rs) snapshot)) (\<lambda>data.
            and_then (map_err SmWrite (encode (rd_data rs) data)) (\<lambda>data_bytes.
            and_then (case sn_last_applied data of
                        Some log_id \<Rightarrow> and_then (map_err SmWrite (encode (rd_log_id rs) log_id)) (\<lambda>bs. Ok (op_put Applied (applied_key g) bs))
                      | None \<Rightarrow> Ok (op_delete Applied (applied_key g))) (\<lambda>applied_op.
            and_then (map_err SmWrite (encode (rd_membership rs) (sn_last_membership data))) (\<lambda>membership_bytes.
            and_then (map_err SmWrite (encode (rd_stored rs) \<lparr>ss_meta = meta, ss_data = data_bytes\<rparr>)) (\<lambda>stored_bytes.
              Ok (data,
                  clear_ops st (mm_range m)
                  @ map (\<lambda>(cf, key, val). op_put cf key val) (sn_entries data)
                  @ [applied_op,
                     op_put Applied (membership_key g) membership_bytes,
                     op_put Applied (snapshot_key g) stored_bytes,
                     op_put Applied (delq_seq_key g) (to_be_bytes 8 (sn_delq_seq data)),
                     op_put Applied (ino_seq_key g) (to_be_bytes 8 (sn_ino_seq data)),
                     op_put Applied (guard_key g) (encode_guard_record (sn_inline_bytes data) (sn_inline_count data) (sn_total_bytes data))]))))))
      in case batch of
           Err e \<Rightarrow> (Err e, st, m)
         | Ok (data, ops) \<Rightarrow>
             let st' = store_apply ops st;
                 guard = guard_load (sn_inline_bytes data) (sn_inline_count data) (sn_total_bytes data) (mm_guard m)
             in (Ok (), st', m\<lparr>mm_delq_next := sn_delq_seq data, mm_ino_next := sn_ino_seq data,
                               mm_guard := load_delq_depth (count_delq_entries st' (mm_range m)) guard\<rparr>))"

definition get_current_snapshot :: "('l, 'm) raft_serde \<Rightarrow> store \<Rightarrow> machine \<Rightarrow> (sm_error, ('l, 'm) stored_snapshot option) result" where
  "get_current_snapshot rs st m = read_bookkeeping (rd_stored rs) st (snapshot_key (mm_group m))"

text \<open>The decimal digits of a number, as \<open>format!\<close> prints it.\<close>

fun dec_string :: "nat \<Rightarrow> string" where
  "dec_string n = (if n < 10 then [char_of (48 + n)] else dec_string (n div 10) @ [char_of (48 + n mod 10)])"

declare dec_string.simps [simp del]

definition build_snapshot ::
    "('l, 'm) raft_serde \<Rightarrow> u64 \<Rightarrow> partition_range \<Rightarrow> u64 \<Rightarrow> store
       \<Rightarrow> (sm_error, ('l, 'm) snapshot_meta \<times> bytes \<times> store) result" where
  "build_snapshot rs g rng snapshot_counter st =
     and_then (read_bookkeeping (rd_log_id rs) st (applied_key g)) (\<lambda>last_applied.
     and_then (read_bookkeeping (rd_membership rs) st (membership_key g)) (\<lambda>membership.
     let last_membership = (case membership of Some x \<Rightarrow> x | None \<Rightarrow> rd_default rs);
         exported = filter (\<lambda>(_, key, _). range_contains rng key) (store_snapshot st (key_ranges rng));
         (inl, cnt, tot) = decode_guard_record (store_get st Applied (guard_key g));
         data = \<lparr>sn_last_applied = last_applied, sn_last_membership = last_membership,
                 sn_delq_seq = read_counter 8 st (delq_seq_key g), sn_ino_seq = read_counter 8 st (ino_seq_key g),
                 sn_inline_bytes = inl, sn_inline_count = cnt, sn_total_bytes = tot, sn_entries = exported\<rparr>
     in and_then (map_err SmWrite (encode (rd_data rs) data)) (\<lambda>bs.
        let snapshot_id = ''meta-snapshot-g'' @ dec_string (unat g) @ ''-i''
              @ dec_string (case last_applied of Some l \<Rightarrow> unat (rd_index rs l) | None \<Rightarrow> 0) @ ''-n'' @ dec_string (unat snapshot_counter);
            meta = \<lparr>sx_last_log_id = last_applied, sx_last_membership = last_membership, sx_snapshot_id = snapshot_id\<rparr>
        in and_then (map_err SmWrite (encode (rd_stored rs) \<lparr>ss_meta = meta, ss_data = bs\<rparr>)) (\<lambda>stored_bytes.
             Ok (meta, bs, store_apply [op_put Applied (snapshot_key g) stored_bytes] st)))))"

end
