(* ===== verification/Meta_Machine_Inv.thy ===== *)
theory Meta_Machine_Inv
  imports Meta_Machine
begin

text \<open>
  What the state machine of a partition keeps: its counters, its range and its guard can be rebuilt from its own
  records after any run, a snapshot carries a partition to another replica exactly, and no slice reference is lost or
  duplicated by a run of flat operations.
\<close>

section \<open>Which column families a handler touches\<close>

text \<open>The handlers of the namespaces leave the bookkeeping family to the machine.\<close>

definition no_applied :: "store_op list \<Rightarrow> bool" where
  "no_applied ops \<longleftrightarrow> (\<forall>op \<in> set ops. so_cf op \<noteq> Applied)"

lemma no_applied_simps [simp]:
  "no_applied []" "no_applied (ops @ ops') \<longleftrightarrow> no_applied ops \<and> no_applied ops'"
  "no_applied (op # ops) \<longleftrightarrow> so_cf op \<noteq> Applied \<and> no_applied ops"
  "cf \<noteq> Applied \<Longrightarrow> no_applied (map (\<lambda>(k, v). op_delete cf k) kvs)"
  "so_cf (op_put cf k v) = cf" "so_cf (op_delete cf k) = cf"
  by (auto simp: no_applied_def op_delete_def op_put_def)

lemma enqueue_chunks_local:
  "enqueue_chunks j n cs ts key ops = Ok (m, ops') \<Longrightarrow> no_applied ops \<Longrightarrow> no_applied ops'"
  by (induction cs arbitrary: n ops) (auto simp: result_simps)

lemma capture_old_local: "capture_old j st b key sq ts ops = Ok (out, ops') \<Longrightarrow> no_applied ops \<Longrightarrow> no_applied ops'"
  unfolding capture_old_def flat_enqueue_def enqueue_delete_slices_def Let_def
  by (auto simp: result_simps split: option.splits dest!: enqueue_chunks_local)

lemma put_segments_local: "put_segments j sk n segs ops = Ok ops' \<Longrightarrow> no_applied ops \<Longrightarrow> no_applied ops'"
  by (induction segs arbitrary: n ops) (auto simp: result_simps)

lemma put_packed_local: "put_packed j b key packed segs ops = Ok ops' \<Longrightarrow> no_applied ops \<Longrightarrow> no_applied ops'"
  unfolding put_packed_def by (auto simp: result_simps dest!: put_segments_local)

lemma discard_session_local: "discard_session j b key sq ts listed es n ops = Ok (m, ops') \<Longrightarrow> no_applied ops \<Longrightarrow> no_applied ops'"
proof (induction es arbitrary: n ops)
  case (Cons e es)
  obtain k v where e: "e = (k, v)" by (cases e)
  obtain n1 ops1 where "no_applied ops1" "discard_session j b key sq ts listed es n1 (ops1 @ [op_delete Upload k]) = Ok (m, ops')"
    using Cons.prems unfolding e
    by (auto simp: result_simps flat_enqueue_def enqueue_delete_slices_def split: option.splits if_splits dest: enqueue_chunks_local)
  then show ?case using Cons.IH by simp
qed simp

lemma flat_apply_local:
  assumes "flat_apply j h st op sq = Ok out"
  shows "no_applied (ao_ops out)"
proof (cases op)
  case (FPut b key head ts)
  then show ?thesis using assms
    by (auto simp: apply_put_def result_simps Let_def case_prod_unfold dest!: capture_old_local put_packed_local)
next
  case (FDelete b key ts)
  then show ?thesis using assms
    by (auto simp: apply_delete_def result_simps Let_def case_prod_unfold dest!: capture_old_local)
next
  case (FCreateMultipart b key u ts)
  then show ?thesis using assms by (auto simp: apply_create_def result_simps Let_def no_delta_def split: if_splits)
next
  case (FPutPart b key u n part ts)
  then show ?thesis using assms
    by (auto simp: apply_put_part_def result_simps Let_def no_delta_def flat_enqueue_def enqueue_delete_slices_def
        split: if_splits option.splits dest!: enqueue_chunks_local)
next
  case (FCompleteMultipart b key u ps ts)
  then show ?thesis using assms
    by (clarsimp simp: apply_complete_def result_simps Let_def no_delta_def case_prod_unfold split: if_splits)
       (auto simp: result_simps Let_def case_prod_unfold split: sum.splits dest!: capture_old_local discard_session_local put_packed_local)
next
  case (FAbortMultipart b key u ts)
  then show ?thesis using assms
    by (auto simp: apply_abort_def result_simps no_delta_def split: if_splits dest!: discard_session_local)
qed

lemma capture_old_file_local: "capture_old_file j st b p n sq ts ops = Ok (x, ops') \<Longrightarrow> no_applied ops \<Longrightarrow> no_applied ops'"
  unfolding capture_old_file_def enqueue_delete_slices_def Let_def
  by (auto simp: result_simps split: option.splits dest!: enqueue_chunks_local)

lemma put_file_local: "put_file j b p n packed segs ops = Ok ops' \<Longrightarrow> no_applied ops \<Longrightarrow> no_applied ops'"
  unfolding put_file_def by (auto simp: result_simps dest!: put_segments_local)

lemma bump_local: "bump_sentinel_child_delta j st b p d ts ops = Ok ops' \<Longrightarrow> no_applied ops \<Longrightarrow> no_applied ops'"
  unfolding bump_sentinel_child_delta_def Let_def by (cases "store_get st Fs (hier_key Fs b p SENTINEL_NAME [])")
     (clarsimp simp: result_simps, clarsimp simp: result_simps, auto simp: result_simps split: fs_record.splits)

lemma delete_segments_local: "no_applied ops \<Longrightarrow> no_applied (delete_segments st b p n ops)"
  by (simp add: delete_segments_def Let_def)

lemma hier_apply_local:
  assumes "hier_apply j st op sq a = Ok (out, a')"
  shows "no_applied (ao_ops out)"
proof (cases op)
  case (HWrite b p n sz etag content http ts)
  then show ?thesis using assms
    by (clarsimp simp: apply_write_def result_simps Let_def case_prod_unfold split: if_splits)
       (auto simp: result_simps split: option.splits dest!: capture_old_file_local put_file_local bump_local)
next
  case (HUnlink b p n ts)
  then show ?thesis using assms
    by (clarsimp simp: keep_ino_def apply_unlink_def result_simps case_prod_unfold)
       (auto simp: result_simps split: option.splits fs_record.splits dest!: capture_old_file_local bump_local)
next
  case (HMkdirSentinel b p n ts)
  then show ?thesis using assms
    by (auto simp: apply_mkdir_sentinel_def result_simps Let_def split: if_splits)
next
  case (HMkdirLink b p n c ts)
  then show ?thesis using assms
    by (clarsimp simp: keep_ino_def apply_mkdir_link_def result_simps split: if_splits)
       (auto simp: result_simps split: if_splits option.splits fs_record.splits dest!: bump_local)
next
  case (HRmdirUnlink b p n ts)
  then show ?thesis using assms
    by (clarsimp simp: keep_ino_def apply_rmdir_unlink_def result_simps)
       (auto simp: result_simps split: option.splits fs_record.splits dest!: bump_local)
next
  case (HRmdirSentinel b d ts)
  then show ?thesis using assms
    by (auto simp: keep_ino_def apply_rmdir_sentinel_def result_simps Let_def split: if_splits)
next
  case (HRenameSameDir b p s d ts)
  then show ?thesis using assms
    by (cases "fs_read_record j st b p s"; cases "fs_read_record j st b p d")
       (auto simp: keep_ino_def apply_rename_same_dir_def result_simps Let_def case_prod_unfold delete_segments_local
          split: if_splits option.splits fs_record.splits dest!: capture_old_file_local put_file_local bump_local)
qed

section \<open>The records of a machine\<close>

lemma bookkeeping_key_eq [simp]: "bookkeeping_key g s = bookkeeping_key g' s' \<longleftrightarrow> g = g' \<and> s = s'"
  by (simp add: bookkeeping_key_def)

lemmas key_defs = applied_key_def membership_key_def snapshot_key_def delq_seq_key_def guard_key_def ino_seq_key_def range_key_def
  pending_split_key_def ino_tag_key_def
lemmas suffix_byte_defs = APPLIED_SUFFIX_def MEMBERSHIP_SUFFIX_def SNAPSHOT_SUFFIX_def DELQ_SEQ_SUFFIX_def GUARD_SUFFIX_def
  INO_SEQ_SUFFIX_def RANGE_SUFFIX_def PENDING_SPLIT_SUFFIX_def INO_TAG_SUFFIX_def

lemma guard_record_roundtrip [simp]: "decode_guard_record (Some (encode_guard_record a b c)) = (a, b, c)"
  by (simp add: decode_guard_record_def encode_guard_record_def)

text \<open>The fields of a machine that its records give back.\<close>

definition range_record :: "('l, 'm) raft_serde \<Rightarrow> partition_range \<Rightarrow> store \<Rightarrow> u64 \<Rightarrow> (meta_store_error, partition_range) result" where
  "range_record rs boot st g = (case store_get st Applied (range_key g) of Some bs \<Rightarrow> decode (rd_range rs) bs | None \<Rightarrow> Ok boot)"

definition persisted :: "('l, 'm) raft_serde \<Rightarrow> partition_range \<Rightarrow> store \<Rightarrow> machine \<Rightarrow> bool" where
  "persisted rs boot st m \<longleftrightarrow>
     read_counter 8 st (delq_seq_key (mm_group m)) = mm_delq_next m
     \<and> read_counter 8 st (ino_seq_key (mm_group m)) = mm_ino_next m
     \<and> read_counter 4 st (ino_tag_key (mm_group m)) = mm_ino_tag m
     \<and> decode_guard_record (store_get st Applied (guard_key (mm_group m))) = guard_counters (mm_guard m)
     \<and> range_record rs boot st (mm_group m) = Ok (mm_range m)"

lemma persisted_cong: "st Applied = st' Applied \<Longrightarrow> persisted rs boot st m = persisted rs boot st' m"
  by (simp add: persisted_def read_counter_def store_get_def range_record_def)

lemma persisted_depth [simp]: "persisted rs boot st (m\<lparr>mm_guard := load_delq_depth d g\<rparr>) = persisted rs boot st (m\<lparr>mm_guard := g\<rparr>)"
  "persisted rs boot st (m\<lparr>mm_guard := snd (account_delq x g)\<rparr>) = persisted rs boot st (m\<lparr>mm_guard := g\<rparr>)"
  by (simp_all add: persisted_def load_delq_depth_def account_delq_def guard_counters_def Let_def)

lemma no_applied_apply: "no_applied ops \<Longrightarrow> store_apply ops st Applied = st Applied"
  by (induction ops arbitrary: st) (auto simp: store_op_apply_def split: option.splits)

lemma persisted_local: "no_applied ops \<Longrightarrow> persisted rs boot (store_apply ops st) m = persisted rs boot st m"
  by (intro persisted_cong no_applied_apply)

text \<open>Records of the group that the machine does not read back at a restart.\<close>

lemma persisted_other_key:
  assumes "s \<notin> {DELQ_SEQ_SUFFIX, INO_SEQ_SUFFIX, INO_TAG_SUFFIX, GUARD_SUFFIX, RANGE_SUFFIX} \<or> g \<noteq> mm_group m"
  shows "persisted rs boot (store_op_apply (op_put Applied (bookkeeping_key g s) v) st) m = persisted rs boot st m"
proof -
  let ?k = "bookkeeping_key g s"
  have "?k \<noteq> delq_seq_key (mm_group m)" "?k \<noteq> ino_seq_key (mm_group m)" "?k \<noteq> ino_tag_key (mm_group m)" "?k \<noteq> guard_key (mm_group m)"
    "?k \<noteq> range_key (mm_group m)" using assms unfolding key_defs bookkeeping_key_eq by blast+
  then show ?thesis by (simp add: persisted_def read_counter_def store_get_def range_record_def)
qed

lemma read_counter_put [simp]:
  "read_counter n (store_op_apply (op_put Applied k v) st) k = (if length v = n then from_be_bytes v else 0)"
  by (simp add: read_counter_def store_get_def)

lemma read_counter_put_other [simp]: "k \<noteq> k' \<Longrightarrow> read_counter n (store_op_apply (op_put Applied k v) st) k' = read_counter n st k'"
  by (simp add: read_counter_def store_get_def)

lemma keys_distinct [simp]:
  "delq_seq_key g \<noteq> guard_key g'" "delq_seq_key g \<noteq> ino_seq_key g'" "delq_seq_key g \<noteq> ino_tag_key g'" "delq_seq_key g \<noteq> range_key g'"
  "guard_key g \<noteq> delq_seq_key g'" "guard_key g \<noteq> ino_seq_key g'" "guard_key g \<noteq> ino_tag_key g'" "guard_key g \<noteq> range_key g'"
  "ino_seq_key g \<noteq> guard_key g'" "ino_seq_key g \<noteq> delq_seq_key g'" "ino_seq_key g \<noteq> ino_tag_key g'" "ino_seq_key g \<noteq> range_key g'"
  "range_key g \<noteq> guard_key g'" "range_key g \<noteq> delq_seq_key g'" "range_key g \<noteq> ino_tag_key g'" "range_key g \<noteq> ino_seq_key g'"
  by (simp_all add: key_defs suffix_byte_defs)

lemma guard_account_counters:
  "guard_account d g = ((ib, ic, tb), g') \<Longrightarrow> guard_counters g' = (ib, ic, tb)"
  by (auto simp: guard_account_def guard_load_def guard_counters_def Let_def)

lemma flat_entry_persisted:
  assumes "persisted rs boot st m" "flat_entry_ops j h st op m = (Ok (ops, r), m')"
  shows "persisted rs boot (store_apply ops st) m'" "mm_group m' = mm_group m"
proof -
  obtain out ib ic tb g' where o: "flat_apply j h st op (mm_delq_next m) = Ok out"
    "guard_account (ao_delta out) (mm_guard m) = ((ib, ic, tb), g')"
    "ops = (ao_ops out @ [op_put Applied (delq_seq_key (mm_group m)) (to_be_bytes 8 (mm_delq_next m + 1))])
       @ [op_put Applied (guard_key (mm_group m)) (encode_guard_record ib ic tb)]"
    "m' = m\<lparr>mm_delq_next := mm_delq_next m + 1, mm_guard := g'\<rparr>"
    using assms(2) by (auto simp: flat_entry_ops_def Let_def split: sum.splits prod.splits)
  show "mm_group m' = mm_group m" by (simp add: o(4))
  have "persisted rs boot (store_apply (ao_ops out) st) m" using assms(1) persisted_local [OF flat_apply_local [OF o(1)], of rs boot st m] by simp
  then show "persisted rs boot (store_apply ops st) m'"
    using guard_account_counters [OF o(2)] by (simp add: persisted_def o(3,4) store_get_def range_record_def)
qed

lemma hier_entry_persisted:
  assumes "persisted rs boot st m" "hier_entry_ops j st op m = (Ok (ops, r), m')"
  shows "persisted rs boot (store_apply ops st) m'" "mm_group m' = mm_group m"
proof -
  obtain out a ib ic tb g' where o: "hier_apply j st op (mm_delq_next m) \<lparr>ia_tag = mm_ino_tag m, ia_next = mm_ino_next m\<rparr> = Ok (out, a)"
    "guard_account (ao_delta out) (mm_guard m) = ((ib, ic, tb), g')"
    "ops = (ao_ops out @ [op_put Applied (delq_seq_key (mm_group m)) (to_be_bytes 8 (mm_delq_next m + 1)),
        op_put Applied (ino_seq_key (mm_group m)) (to_be_bytes 8 (ia_next a))])
       @ [op_put Applied (guard_key (mm_group m)) (encode_guard_record ib ic tb)]"
    "m' = m\<lparr>mm_delq_next := mm_delq_next m + 1, mm_ino_next := ia_next a, mm_guard := g'\<rparr>"
    using assms(2) by (auto simp: hier_entry_ops_def Let_def split: sum.splits prod.splits)
  show "mm_group m' = mm_group m" by (simp add: o(4))
  have "persisted rs boot (store_apply (ao_ops out) st) m" using assms(1) persisted_local [OF hier_apply_local [OF o(1)], of rs boot st m] by simp
  then show "persisted rs boot (store_apply ops st) m'"
    using guard_account_counters [OF o(2)] by (simp add: persisted_def o(3,4) store_get_def range_record_def)
qed

lemma split_persisted:
  assumes "persisted rs boot st m" "raft_serde_ok rs" "split_ops rs op m = (Ok ops, m')" "sp_child_group op \<noteq> mm_group m"
  shows "persisted rs boot (store_apply ops st) m'" "mm_group m' = mm_group m"
proof -
  have "persisted rs boot (store_apply ops st) m' \<and> mm_group m' = mm_group m"
  proof (cases "range_split (mm_range m) (BucketId (sp_at_bucket op), sp_at_routing_key op)")
    case None
    then show ?thesis using assms by (simp add: split_ops_def)
  next
    case (Some lr)
    obtain l rt where lr: "lr = (l, rt)" by (cases lr)
    obtain lb where lb: "to_vec (rd_range rs) l = Some lb" "from_slice (rd_range rs) lb = Some l"
      using assms(2) codec_okE [of "rd_range rs" l] unfolding raft_serde_ok_def by blast
    obtain pb where ops: "ops = [op_put Applied (range_key (mm_group m)) lb, op_put Applied (pending_split_key (mm_group m)) pb,
          op_put Applied (delq_seq_key (sp_child_group op)) (to_be_bytes 8 (0 :: u64)),
          op_put Applied (ino_seq_key (sp_child_group op)) (to_be_bytes 8 (0 :: u64)),
          op_put Applied (ino_tag_key (sp_child_group op)) (to_be_bytes 4 (sp_child_ino_tag op))]"
      and m': "m' = m\<lparr>mm_range := l\<rparr>"
      using assms(3) Some lr lb by (auto simp: split_ops_def Let_def encode_def result_simps)
    have "persisted rs boot (store_op_apply (op_put Applied (range_key (mm_group m)) lb) st) m'"
      using assms(1) lb by (simp add: persisted_def m' store_get_def decode_def range_record_def)
    then have "persisted rs boot (store_apply ops st) m'"
      unfolding ops using assms(4)
      by (simp add: key_defs persisted_other_key m') (simp add: persisted_other_key suffix_byte_defs)
    then show ?thesis by (simp add: m')
  qed
  then show "persisted rs boot (store_apply ops st) m'" "mm_group m' = mm_group m" by blast+
qed

text \<open>An entry of the log: a raw batch is data only, and the child of a split is another group.\<close>

definition entry_local :: "u64 \<Rightarrow> ('l, 'm) raft_entry \<Rightarrow> bool" where
  "entry_local g e \<longleftrightarrow>
     (case re_payload e of
        Normal (StoreOps batch) \<Rightarrow> no_applied batch
      | Normal (SplitEntry op) \<Rightarrow> sp_child_group op \<noteq> g
      | _ \<Rightarrow> True)"

lemma entry_ops_persisted:
  assumes "persisted rs boot st m" "raft_serde_ok rs" "entry_local (mm_group m) e" "entry_ops j rs h st e m = (Ok (ops, r), m')"
  shows "persisted rs boot (store_apply ops st) m' \<and> mm_group m' = mm_group m"
proof (cases "re_payload e")
  case Blank
  then show ?thesis using assms by (simp add: entry_ops_def)
next
  case (Normal me)
  show ?thesis
  proof (cases me)
    case (StoreOps batch)
    then show ?thesis using assms Normal persisted_local [of batch rs boot st m] by (simp add: entry_ops_def entry_local_def)
  next
    case (FlatEntry op)
    then show ?thesis using assms Normal flat_entry_persisted [OF assms(1)] by (simp add: entry_ops_def)
  next
    case (HierEntry op)
    then show ?thesis using assms Normal hier_entry_persisted [OF assms(1)] by (simp add: entry_ops_def)
  next
    case (SplitEntry op)
    obtain x m1 where x: "split_ops rs op m = (x, m1)" by (cases "split_ops rs op m")
    have "x = Ok ops" "m1 = m'" using assms(4) Normal SplitEntry x by (auto simp: entry_ops_def result_simps)
    then show ?thesis using split_persisted [OF assms(1,2), of op ops m'] assms(3) Normal SplitEntry x by (simp add: entry_local_def)
  qed
next
  case (Membership mem)
  let ?x = "map_err SmWrite (encode (rd_membership rs) \<lparr>sm_log_id = Some (re_log_id e), sm_membership = mem\<rparr>)"
  have "and_then ?x (\<lambda>bs. Ok ([op_put Applied (membership_key (mm_group m)) bs], RNone)) = Ok (ops, r)" and m': "m' = m"
    using assms(4) Membership by (auto simp: entry_ops_def)
  then obtain bs where "ops = [op_put Applied (membership_key (mm_group m)) bs]" by (cases ?x) auto
  then show ?thesis using assms(1) by (simp add: m' membership_key_def persisted_other_key suffix_byte_defs)
qed

lemma apply_entry_persisted:
  assumes "persisted rs boot st m" "raft_serde_ok rs" "entry_local (mm_group m) e" "apply_entry j rs h l e st m = (Ok r, st', m')"
  shows "persisted rs boot st' m' \<and> mm_group m' = mm_group m"
proof -
  obtain ops m1 where e: "entry_ops j rs h st e m = (Ok (ops, r), m1)"
    using assms(4) by (auto simp: apply_entry_def Let_def split: prod.splits sum.splits)
  have p: "persisted rs boot (store_apply ops st) m1" "mm_group m1 = mm_group m" using entry_ops_persisted [OF assms(1-3) e] by blast+
  have st': "st' = store_apply ops st \<or> (\<exists>v. st' = store_op_apply (op_put Applied (applied_key (mm_group m1)) v) (store_apply ops st))"
    and m': "(\<exists>d. m' = m1\<lparr>mm_guard := load_delq_depth d (mm_guard m1)\<rparr>) \<or> (\<exists>x. m' = m1\<lparr>mm_guard := snd (account_delq x (mm_guard m1))\<rparr>)"
    using assms(4) e by (auto simp: apply_entry_def Let_def write_applied_def result_simps split: option.splits sum.splits if_splits)
  have "persisted rs boot st' m1" using st' p(1) by (auto simp: applied_key_def persisted_other_key suffix_byte_defs)
  then show ?thesis using m' p(2) by auto
qed

lemma machine_new_persisted:
  "machine_new rs st g boot guard = Ok m \<Longrightarrow> persisted rs boot st m \<and> mm_group m = g"
  by (auto simp: machine_new_def persisted_def range_record_def result_simps Let_def guard_counters_def guard_load_def load_delq_depth_def
      split: prod.splits)

lemma persisted_new:
  assumes "persisted rs boot st m"
  shows "machine_new rs st (mm_group m) boot guard =
    Ok (m\<lparr>mm_guard := load_delq_depth (count_delq_entries st (mm_range m)) (mm_guard m)\<rparr>)"
proof -
  obtain ib ic tb where g: "decode_guard_record (store_get st Applied (guard_key (mm_group m))) = (ib, ic, tb)"
    by (cases "decode_guard_record (store_get st Applied (guard_key (mm_group m)))")
  have "load_delq_depth d (guard_load ib ic tb guard) = load_delq_depth d (mm_guard m)" for d
    using assms g by (cases "mm_guard m"; cases guard) (auto simp: persisted_def load_delq_depth_def guard_load_def guard_counters_def)
  moreover have "guard_counters (mm_guard m) = (ib, ic, tb)" using assms g by (simp add: persisted_def)
  ultimately show ?thesis using assms
    by (cases m) (auto simp: machine_new_def range_record_def [symmetric] Let_def g persisted_def)
qed

lemma apply_entries_persisted:
  "persisted rs boot st m \<Longrightarrow> raft_serde_ok rs \<Longrightarrow> \<forall>e \<in> set es. entry_local (mm_group m) e \<Longrightarrow>
     apply_entries j rs h es st m = (Ok res, st', m') \<Longrightarrow> persisted rs boot st' m' \<and> mm_group m' = mm_group m"
proof (induction es arbitrary: st m res)
  case (Cons e es)
  obtain r st1 m1 rest where s: "apply_entry j rs h (if es = [] then Some (re_log_id e) else None) e st m = (Ok r, st1, m1)"
    "apply_entries j rs h es st1 m1 = (Ok rest, st', m')"
    using Cons.prems(4) by (auto split: prod.splits sum.splits)
  have "persisted rs boot st1 m1" "mm_group m1 = mm_group m"
    using apply_entry_persisted [OF Cons.prems(1,2) _ s(1)] Cons.prems(3) by auto
  then show ?case using Cons.IH [OF _ Cons.prems(2) _ s(2)] Cons.prems(3) by simp
qed simp

section \<open>Snapshots\<close>

lemma lookup_put_entries:
  "fmlookup (store_apply (map (\<lambda>(cf, k, v). op_put cf k v) es) st c) k =
     (case map_of (rev (map (\<lambda>(cf, k, v). ((cf, k), v)) es)) (c, k) of Some v \<Rightarrow> Some v | None \<Rightarrow> fmlookup (st c) k)"
proof (induction es arbitrary: st)
  case (Cons e es)
  obtain a x y where "e = (a, x, y)" by (cases e)
  then show ?case using Cons.IH by (auto simp: map_add_def split: option.splits)
qed simp

lemma lookup_del_entries:
  "fmlookup (store_apply (map (\<lambda>(cf, k). op_delete cf k) ps) st c) k = (if (c, k) \<in> set ps then None else fmlookup (st c) k)"
  by (induction ps arbitrary: st) (auto split: if_splits)

definition in_ranges :: "partition_range \<Rightarrow> meta_cf \<Rightarrow> bytes \<Rightarrow> bool" where
  "in_ranges rng cf k \<longleftrightarrow> (\<exists>r \<in> set (key_ranges rng). kr_cf r = cf \<and> in_range r k)"

lemma lookup_clear:
  "fmlookup (store_apply (clear_ops st rng) st c) k = (if in_ranges rng c k then None else fmlookup (st c) k)"
proof -
  let ?kvs = "\<lambda>r. scan_pages st (kr_cf r) (kr_start r) (kr_end r) 4096"
  let ?ps = "concat (map (\<lambda>r. map (\<lambda>(k, _). (kr_cf r, k)) (?kvs r)) (key_ranges rng))"
  have ops: "clear_ops st rng = map (\<lambda>(cf, k). op_delete cf k) ?ps"
    by (simp add: clear_ops_def map_concat comp_def case_prod_unfold)
  have "(c, k) \<in> set ?ps \<longleftrightarrow> in_ranges rng c k \<and> fmlookup (st c) k \<noteq> None"
    by (force simp: in_ranges_def in_range_def scan_pages_eq set_kv_range)
  then show ?thesis unfolding ops lookup_del_entries by auto
qed

definition exported :: "store \<Rightarrow> partition_range \<Rightarrow> export_entry list" where
  "exported st rng = filter (\<lambda>(_, key, _). range_contains rng key) (store_snapshot st (key_ranges rng))"

lemma set_exported: "(cf, k, v) \<in> set (exported st rng) \<longleftrightarrow> in_ranges rng cf k \<and> range_contains rng k \<and> fmlookup (st cf) k = Some v"
  by (force simp: exported_def store_snapshot_def range_entries_def in_ranges_def in_range_def set_kv_range)

lemma lookup_replace:
  "fmlookup (store_apply (clear_ops st2 rng @ map (\<lambda>(cf, k, v). op_put cf k v) (exported st rng)) st2 c) k =
     (if in_ranges rng c k then (if range_contains rng k then fmlookup (st c) k else None) else fmlookup (st2 c) k)"
proof -
  let ?l = "rev (map (\<lambda>(cf, k, v). ((cf, k), v)) (exported st rng))"
  have mem: "((c, k), v) \<in> set ?l \<longleftrightarrow> in_ranges rng c k \<and> range_contains rng k \<and> fmlookup (st c) k = Some v" for v
    using set_exported [of c k v st rng] by force
  have "map_of ?l (c, k) = (if in_ranges rng c k \<and> range_contains rng k then fmlookup (st c) k else None)"
  proof (cases "map_of ?l (c, k)")
    case None
    then have "((c, k), v) \<notin> set ?l" for v by (simp add: map_of_eq_None_iff) force
    then show ?thesis using None mem by (cases "fmlookup (st c) k") auto
  next
    case (Some v)
    then have "((c, k), v) \<in> set ?l" by (rule map_of_SomeD)
    then show ?thesis using Some mem by simp
  qed
  then show ?thesis by (simp add: lookup_put_entries lookup_clear split: option.split)
qed

lemma cf_range_in: "cf \<in> set (range_cfs (pr_ns rng)) \<Longrightarrow> in_ranges rng cf k \<longleftrightarrow> in_range (cf_range rng cf) k"
  by (auto simp: in_ranges_def key_ranges_def cf_range_def Let_def)

lemma applied_lookup_clear: "no_applied (clear_ops st rng @ map (\<lambda>(cf, k, v). op_put cf k v) (exported st' rng))"
proof -
  have "kr_cf r \<noteq> Applied" if "r \<in> set (key_ranges rng)" for r
    using that range_cfs_neq by (auto simp: key_ranges_def cf_range_def Let_def)
  then have "no_applied (clear_ops st rng)" by (fastforce simp: clear_ops_def no_applied_def)
  moreover have "cf \<noteq> Applied" if "(cf, k, v) \<in> set (exported st' rng)" for cf k v
    using that \<open>\<And>r. r \<in> set (key_ranges rng) \<Longrightarrow> kr_cf r \<noteq> Applied\<close> by (auto simp: set_exported in_ranges_def)
  then have "no_applied (map (\<lambda>(cf, k, v). op_put cf k v) (exported st' rng))" by (fastforce simp: no_applied_def)
  ultimately show ?thesis by simp
qed

text \<open>The batch of an installation: data first, then the six records of the group.\<close>

definition install_records :: "u64 \<Rightarrow> store_op \<Rightarrow> bytes \<Rightarrow> bytes \<Rightarrow> ('l, 'm) meta_snapshot_data \<Rightarrow> store_op list" where
  "install_records g applied_op mb sb data =
     [applied_op, op_put Applied (membership_key g) mb, op_put Applied (snapshot_key g) sb,
      op_put Applied (delq_seq_key g) (to_be_bytes 8 (sn_delq_seq data)), op_put Applied (ino_seq_key g) (to_be_bytes 8 (sn_ino_seq data)),
      op_put Applied (guard_key g) (encode_guard_record (sn_inline_bytes data) (sn_inline_count data) (sn_total_bytes data))]"

lemma install_ok:
  assumes "raft_serde_ok rs" "to_vec (rd_data rs) data = Some bs" "from_slice (rd_data rs) bs = Some data"
  shows "\<exists>applied_op mb sb. install_snapshot rs meta bs st m =
      (let st' = store_apply (clear_ops st (mm_range m) @ map (\<lambda>(cf, key, val). op_put cf key val) (sn_entries data)
                                @ install_records (mm_group m) applied_op mb sb data) st
       in (Ok (), st', m\<lparr>mm_delq_next := sn_delq_seq data, mm_ino_next := sn_ino_seq data,
            mm_guard := load_delq_depth (count_delq_entries st' (mm_range m))
              (guard_load (sn_inline_bytes data) (sn_inline_count data) (sn_total_bytes data) (mm_guard m))\<rparr>))
    \<and> from_slice (rd_membership rs) mb = Some (sn_last_membership data)
    \<and> (case sn_last_applied data of
         Some l \<Rightarrow> \<exists>lb. applied_op = op_put Applied (applied_key (mm_group m)) lb \<and> from_slice (rd_log_id rs) lb = Some l
       | None \<Rightarrow> applied_op = op_delete Applied (applied_key (mm_group m)))"
proof -
  have ok: "codec_ok (rd_log_id rs)" "codec_ok (rd_membership rs)" "codec_ok (rd_stored rs)" using assms(1) by (auto simp: raft_serde_ok_def)
  obtain mb where mb: "to_vec (rd_membership rs) (sn_last_membership data) = Some mb" "from_slice (rd_membership rs) mb = Some (sn_last_membership data)"
    using codec_okE [OF ok(2)] by blast
  obtain sb where sb: "to_vec (rd_stored rs) \<lparr>ss_meta = meta, ss_data = bs\<rparr> = Some sb" using codec_okE [OF ok(3)] by blast
  show ?thesis
  proof (cases "sn_last_applied data")
    case None
    then show ?thesis using mb sb assms(2,3)
      by (intro exI [of _ "op_delete Applied (applied_key (mm_group m))"] exI [of _ mb] exI [of _ sb])
         (simp add: install_snapshot_def install_records_def encode_def decode_def Let_def)
  next
    case (Some l)
    obtain lb where lb: "to_vec (rd_log_id rs) l = Some lb" "from_slice (rd_log_id rs) lb = Some l" using codec_okE [OF ok(1)] by blast
    then show ?thesis using Some mb sb assms(2,3)
      by - (rule exI [of _ "op_put Applied (applied_key (mm_group m)) lb"], rule exI [of _ mb], rule exI [of _ sb],
        auto simp: install_snapshot_def install_records_def encode_def decode_def Let_def)
  qed
qed

lemma build_ok:
  assumes "build_snapshot rs g rng n st = Ok (meta, bs, st1)" "raft_serde_ok rs"
  shows "\<exists>data. to_vec (rd_data rs) data = Some bs \<and> from_slice (rd_data rs) bs = Some data
     \<and> read_bookkeeping (rd_log_id rs) st (applied_key g) = Ok (sn_last_applied data)
     \<and> (\<exists>mem. read_bookkeeping (rd_membership rs) st (membership_key g) = Ok mem
          \<and> sn_last_membership data = (case mem of Some x \<Rightarrow> x | None \<Rightarrow> rd_default rs))
     \<and> sn_delq_seq data = read_counter 8 st (delq_seq_key g) \<and> sn_ino_seq data = read_counter 8 st (ino_seq_key g)
     \<and> (sn_inline_bytes data, sn_inline_count data, sn_total_bytes data) = decode_guard_record (store_get st Applied (guard_key g))
     \<and> sn_entries data = exported st rng"
proof -
  obtain ib ic tb where g: "decode_guard_record (store_get st Applied (guard_key g)) = (ib, ic, tb)"
    by (cases "decode_guard_record (store_get st Applied (guard_key g))")
  obtain la mem where r: "read_bookkeeping (rd_log_id rs) st (applied_key g) = Ok la"
    "read_bookkeeping (rd_membership rs) st (membership_key g) = Ok mem"
    using assms(1) by (auto simp: build_snapshot_def result_simps)
  define data where "data = \<lparr>sn_last_applied = la, sn_last_membership = (case mem of Some x \<Rightarrow> x | None \<Rightarrow> rd_default rs),
       sn_delq_seq = read_counter 8 st (delq_seq_key g), sn_ino_seq = read_counter 8 st (ino_seq_key g),
       sn_inline_bytes = ib, sn_inline_count = ic, sn_total_bytes = tb, sn_entries = exported st rng\<rparr>"
  have "encode (rd_data rs) data = Ok bs"
    using assms(1) r g by (auto simp: build_snapshot_def result_simps data_def exported_def Let_def)
  then have "to_vec (rd_data rs) data = Some bs" by (simp add: encode_def result_simps)
  moreover from this have "from_slice (rd_data rs) bs = Some data"
    using assms(2) codec_okE [of "rd_data rs" data] unfolding raft_serde_ok_def by (metis option.inject)
  ultimately show ?thesis using r g by (intro exI [of _ data]) (simp add: data_def)
qed

lemma install_records_lookup:
  assumes "applied_op = op_put Applied (applied_key g) lb \<or> applied_op = op_delete Applied (applied_key g)"
  shows "cf \<noteq> Applied \<Longrightarrow> fmlookup (store_apply (install_records g applied_op mb sb data) st cf) k = fmlookup (st cf) k"
    and "fmlookup (store_apply (install_records g applied_op mb sb data) st Applied) (membership_key g) = Some mb"
    and "fmlookup (store_apply (install_records g applied_op mb sb data) st Applied) (applied_key g) = so_value applied_op"
  using assms by (auto simp: install_records_def key_defs suffix_byte_defs) (simp_all add: op_put_def op_delete_def)

section \<open>Sample codecs\<close>

definition p_coord :: "coord pickle" where
  "p_coord = p_map (\<lambda>(b, k). (bucket_get b, k)) (\<lambda>(b, k). (BucketId b, k)) (p_pair (p_word 8) (p_list (p_word 1)))"

definition p_range :: "partition_range pickle" where
  "p_range = p_map (\<lambda>r. (if pr_ns r = Flat then None else Some (), pr_start r, pr_end r))
     (\<lambda>(n, s, e). \<lparr>pr_ns = (if n = None then Flat else Hier), pr_start = s, pr_end = e\<rparr>)
     (p_pair (p_option p_unit) (p_pair (p_option p_coord) (p_option p_coord)))"

definition p_peers :: "(u64 \<times> string) list pickle" where
  "p_peers = p_list (p_pair (p_word 8) (p_list p_char))"

definition p_pending_split :: "pending_split pickle" where
  "p_pending_split = p_map (\<lambda>p. (ps_child_group p, ps_child_range p, ps_child_peers p, ps_bootstrap_node p))
     (\<lambda>(a, b, c, d). \<lparr>ps_child_group = a, ps_child_range = b, ps_child_peers = c, ps_bootstrap_node = d\<rparr>)
     (p_pair (p_word 8) (p_pair p_range (p_pair p_peers (p_word 8))))"

definition p_membership :: "(u64, u64) stored_membership pickle" where
  "p_membership = p_map (\<lambda>s. (sm_log_id s, sm_membership s)) (\<lambda>(a, b). \<lparr>sm_log_id = a, sm_membership = b\<rparr>) (p_pair (p_option (p_word 8)) (p_word 8))"

definition p_cf :: "meta_cf pickle" where
  "p_cf = p_map cf_tag (\<lambda>t. hd (filter (\<lambda>c. cf_tag c = t) (ALL_CFS @ [Applied]))) (p_word 1)"

definition p_data :: "(u64, u64) meta_snapshot_data pickle" where
  "p_data = p_map
     (\<lambda>d. (sn_last_applied d, sn_last_membership d, sn_delq_seq d, sn_ino_seq d, sn_inline_bytes d, sn_inline_count d, sn_total_bytes d, sn_entries d))
     (\<lambda>(a, b, c, d, e, f, g, h). \<lparr>sn_last_applied = a, sn_last_membership = b, sn_delq_seq = c, sn_ino_seq = d, sn_inline_bytes = e,
        sn_inline_count = f, sn_total_bytes = g, sn_entries = h\<rparr>)
     (p_pair (p_option (p_word 8)) (p_pair p_membership (p_pair (p_word 8) (p_pair (p_word 8) (p_pair (p_word 8) (p_pair (p_word 8)
       (p_pair (p_word 8) (p_list (p_pair p_cf (p_pair (p_list (p_word 1)) (p_list (p_word 1)))))))))))) "

definition p_meta :: "(u64, u64) snapshot_meta pickle" where
  "p_meta = p_map (\<lambda>s. (sx_last_log_id s, sx_last_membership s, sx_snapshot_id s))
     (\<lambda>(a, b, c). \<lparr>sx_last_log_id = a, sx_last_membership = b, sx_snapshot_id = c\<rparr>)
     (p_pair (p_option (p_word 8)) (p_pair p_membership (p_list p_char)))"

definition p_stored :: "(u64, u64) stored_snapshot pickle" where
  "p_stored = p_map (\<lambda>s. (ss_meta s, ss_data s)) (\<lambda>(a, b). \<lparr>ss_meta = a, ss_data = b\<rparr>) (p_pair p_meta (p_list (p_word 1)))"

lemma p_coord_ok [pickles]: "pickle_ok p_coord"
  unfolding p_coord_def by (intro p_map_ok pickles) (simp add: case_prod_unfold)

lemma p_range_ok [pickles]: "pickle_ok p_range"
  unfolding p_range_def
proof (intro p_map_ok pickles)
  fix r :: partition_range
  show "(case (if pr_ns r = Flat then None else Some (), pr_start r, pr_end r) of
      (n, s, e) \<Rightarrow> \<lparr>pr_ns = (if n = None then Flat else Hier), pr_start = s, pr_end = e\<rparr>) = r"
    by (cases r; cases "pr_ns r") simp_all
qed

lemma p_peers_ok [pickles]: "pickle_ok p_peers"
  unfolding p_peers_def by (intro pickles)

lemma p_pending_split_ok [pickles]: "pickle_ok p_pending_split"
  unfolding p_pending_split_def by (intro p_map_ok pickles) simp

lemma p_membership_ok [pickles]: "pickle_ok p_membership"
  unfolding p_membership_def by (intro p_map_ok pickles) simp

lemma p_cf_ok [pickles]: "pickle_ok p_cf"
proof -
  have "hd (filter (\<lambda>c. cf_tag c = cf_tag x) (ALL_CFS @ [Applied])) = x" for x by (cases x) (simp_all add: ALL_CFS_def cf_tag_def)
  then show ?thesis unfolding p_cf_def by (intro p_map_ok pickles)
qed

lemma p_data_ok [pickles]: "pickle_ok p_data"
  unfolding p_data_def by (intro p_map_ok pickles) simp

lemma p_meta_ok [pickles]: "pickle_ok p_meta"
  unfolding p_meta_def by (intro p_map_ok pickles) simp

lemma p_stored_ok [pickles]: "pickle_ok p_stored"
  unfolding p_stored_def by (intro p_map_ok pickles) simp

definition sample_raft :: "(u64, u64) raft_serde" where
  "sample_raft = \<lparr>rd_log_id = tagged 7 (p_word 8), rd_membership = tagged 8 p_membership, rd_range = tagged 9 p_range,
     rd_pending = tagged 10 p_pending_split, rd_data = tagged 11 p_data, rd_stored = tagged 12 p_stored,
     rd_default = \<lparr>sm_log_id = None, sm_membership = 0\<rparr>, rd_index = id\<rparr>"

lemma sample_raft_ok: "raft_serde_ok sample_raft"
  unfolding raft_serde_ok_def sample_raft_def by (simp add: tagged_ok pickles)

section \<open>Properties\<close>

text \<open>C36: A machine is rebuilt from its records: after any run of committed entries, of whatever kind, opening the
  partition anew over the same store gives the same queue number, inode counter, inode tag, range and guard counters,
  with the queue depth counted afresh.\<close>

theorem machine_restart:
  assumes "raft_serde_ok rs" "machine_new rs st0 g boot guard0 = Ok m0" "\<forall>e \<in> set es. entry_local g e"
    and "apply_entries j rs h es st0 m0 = (Ok res, st, m)"
  shows "machine_new rs st g boot guard = Ok (m\<lparr>mm_guard := load_delq_depth (count_delq_entries st (mm_range m)) (mm_guard m)\<rparr>)"
proof -
  have "persisted rs boot st0 m0" "mm_group m0 = g" using machine_new_persisted [OF assms(2)] by blast+
  then have "persisted rs boot st m" "mm_group m = g" using apply_entries_persisted [OF _ assms(1) _ assms(4)] assms(3) by blast+
  then show ?thesis using persisted_new [of rs boot st m guard] by simp
qed

text \<open>The demonstration partition, empty, and an entry that puts one object into it.\<close>

definition demo_machine :: machine where
  "demo_machine = \<lparr>mm_group = 1, mm_range = range_full Flat, mm_guard = guard_new, mm_delq_next = 0, mm_ino_next = 0, mm_ino_tag = 0\<rparr>"

definition demo_head :: object_head where
  "demo_head = \<lparr>oh_size = 3, oh_etag = [], oh_mtime = 5, oh_storage = Standard,
     oh_content = Slices [\<lparr>sl_chunk_id = ChunkId 4, sl_blob_ids = [BlobId 9], sl_blob_size = 3\<rparr>], oh_seg_count = 0, oh_http = http_default\<rparr>"

definition demo_entry :: "(u64, u64) raft_entry" where
  "demo_entry = \<lparr>re_log_id = 1, re_payload = Normal (FlatEntry (FPut (BucketId 2) [97] demo_head 5))\<rparr>"

lemma count_delq_empty: "count_delq_entries empty_store rng = 0"
proof -
  have "kv_range a b (fmempty :: (bytes, bytes) kv) = []" for a b
    using set_kv_range [of _ _ a b "fmempty :: (bytes, bytes) kv"] by (cases "kv_range a b (fmempty :: (bytes, bytes) kv)") force+
  then have "scan_pages empty_store Delq a b 4096 = []" for a b by (simp add: scan_pages_eq empty_store_def)
  then show ?thesis by (simp add: count_delq_entries_def)
qed

lemma demo_machine_new: "machine_new sample_raft empty_store 1 (range_full Flat) guard_new = Ok demo_machine"
  by (simp add: machine_new_def Let_def read_counter_def store_get_def decode_guard_record_def guard_load_def load_delq_depth_def guard_new_def
      count_delq_empty demo_machine_def) (simp add: empty_store_def)

lemma put_entry_ok:
  assumes "serde_ok j" "raft_serde_ok rs" "re_payload e = Normal (FlatEntry (FPut b key head ts))"
  shows "\<exists>st' m'. apply_entry j rs h l e st m = (Ok RNone, st', m')"
proof -
  obtain packed segs where pk: "pack head = (packed, segs)" by (cases "pack head")
  obtain out where out: "apply_put j st b key head (mm_delq_next m) ts = Ok out" "ao_response out = RNone"
    using apply_put_ok [OF assms(1) pk, of st b key "mm_delq_next m" ts] by blast
  obtain bs where "\<And>x. l = Some x \<Longrightarrow> to_vec (rd_log_id rs) x = Some bs"
    using assms(2) codec_okE [of "rd_log_id rs" "the l"] unfolding raft_serde_ok_def by (metis option.sel)
  then show ?thesis using out assms(3)
    by (auto simp: apply_entry_def entry_ops_def flat_entry_ops_def write_applied_def encode_def Let_def split: option.splits prod.splits)
qed

theorem machine_restart_witness:
  "\<exists>st m. apply_entries sample_serde sample_raft id [demo_entry] empty_store demo_machine = (Ok [RNone], st, m)
     \<and> machine_new sample_raft st 1 (range_full Flat) guard_new
         = Ok (m\<lparr>mm_guard := load_delq_depth (count_delq_entries st (mm_range m)) (mm_guard m)\<rparr>)"
proof -
  obtain st m where "apply_entry sample_serde sample_raft id (Some (re_log_id demo_entry)) demo_entry empty_store demo_machine = (Ok RNone, st, m)"
    using put_entry_ok [OF sample_serde_ok sample_raft_ok, of demo_entry "BucketId 2" "[97]" demo_head 5 id "Some (re_log_id demo_entry)" empty_store demo_machine]
    by (auto simp: demo_entry_def)
  then have run: "apply_entries sample_serde sample_raft id [demo_entry] empty_store demo_machine = (Ok [RNone], st, m)" by simp
  have loc: "\<forall>e \<in> set [demo_entry]. entry_local 1 e" by (simp add: demo_entry_def entry_local_def)
  show ?thesis using machine_restart [OF sample_raft_ok demo_machine_new loc run] run by blast
qed


lemma build_total:
  assumes "raft_serde_ok rs" "read_bookkeeping (rd_log_id rs) st (applied_key g) = Ok la"
    and "read_bookkeeping (rd_membership rs) st (membership_key g) = Ok mem"
  shows "\<exists>meta bs st1. build_snapshot rs g rng n st = Ok (meta, bs, st1)"
proof -
  have "\<exists>bs. encode (rd_data rs) d = Ok bs" "\<exists>bs. encode (rd_stored rs) s = Ok bs" for d s
    using assms(1) by (auto simp: raft_serde_ok_def codec_ok_def encode_def) (metis ok_or_simps(2))+
  then have e: "encode (rd_data rs) d \<noteq> Err x" "encode (rd_stored rs) s \<noteq> Err x" for d s x by (metis sum.distinct(1))+
  show ?thesis
  proof (cases "build_snapshot rs g rng n st")
    case (Inl x)
    then show ?thesis using assms(2,3) e by (auto simp: build_snapshot_def result_simps Let_def case_prod_unfold)
  qed auto
qed


section \<open>Runs of flat operations\<close>

text \<open>A partition from its creation: flat operations in any order, each with the number the machine gives it, and the
  deleter taking entries out of the queue. The first argument is what the references of the store should be.\<close>

inductive flat_run ::
    "serde \<Rightarrow> ('l, 'm) raft_serde \<Rightarrow> (bytes \<Rightarrow> bytes) \<Rightarrow> slice multiset \<Rightarrow> store \<Rightarrow> machine \<Rightarrow> bool" for j rs h where
  init: "mm_delq_next m = 0 \<Longrightarrow> flat_run j rs h {#} empty_store m"
| flat: "flat_run j rs h refs st m \<Longrightarrow> re_payload e = Normal (FlatEntry op) \<Longrightarrow> flat_op_ok st op \<Longrightarrow>
    size refs + size (flat_op_refs op) < 2 ^ 31 \<Longrightarrow> mm_delq_next m < - 1 \<Longrightarrow>
    apply_entry j rs h l e st m = (Ok r, st', m') \<Longrightarrow>
    flat_run j rs h (refs + (if r = RNone then flat_op_refs op else {#})) st' m'"
| dequeue: "flat_run j rs h refs st m \<Longrightarrow> re_payload e = Normal (StoreOps (deletes Delq ks)) \<Longrightarrow> distinct ks \<Longrightarrow>
    apply_entry j rs h l e st m = (Ok r, st', m') \<Longrightarrow>
    flat_run j rs h (refs - (\<Sum>k \<leftarrow> ks. held j st Delq k)) st' m'"

text \<open>Batches of bookkeeping records.\<close>

definition only_applied :: "store_op list \<Rightarrow> bool" where
  "only_applied ops \<longleftrightarrow> (\<forall>op \<in> set ops. so_cf op = Applied)"

lemma only_applied_lookup: "only_applied ops \<Longrightarrow> c \<noteq> Applied \<Longrightarrow> store_apply ops st c = st c"
  by (induction ops arbitrary: st) (auto simp: only_applied_def store_op_apply_def split: option.splits)

lemma refs_of_Applied [simp]: "refs_of j Applied v = {#}"
  by (simp add: refs_of_def extract_refs_def)

lemma only_applied_refs: "only_applied ops \<Longrightarrow> store_refs j (store_apply ops st) = store_refs j st"
proof -
  assume o: "only_applied ops"
  have "kv_sum (refs_of j c) (store_apply ops st c) = kv_sum (refs_of j c) (st c)" for c
    using only_applied_lookup [OF o, of c] by (cases "c = Applied") (simp_all add: kv_sum_def)
  then show ?thesis by (simp add: store_refs_def)
qed

lemma only_applied_wf: "only_applied ops \<Longrightarrow> flat_wf j (store_apply ops st) = flat_wf j st"
  by (simp add: flat_wf_def segs_owned_def uploads_wf_def only_applied_lookup)

lemma delq_key_seq: "delq_key b key s n = delq_key b' key' s' n' \<Longrightarrow> s = s'"
  by (auto simp: delq_key_def flat_key_eq)

lemma delq_fresh_grows: "delq_fresh n st \<Longrightarrow> delq_grows s st st' \<Longrightarrow> n \<noteq> s \<Longrightarrow> delq_fresh n st'"
  unfolding delq_fresh_def delq_grows_def by (metis delq_key_seq)

definition delq_below :: "u64 \<Rightarrow> store \<Rightarrow> bool" where
  "delq_below n st \<longleftrightarrow> (\<forall>s. n \<le> s \<longrightarrow> delq_fresh s st)"

lemma word_less_Suc:
  assumes "(n :: u64) < - 1" "n + 1 \<le> s"
  shows "n < s"
proof -
  have "unat n < 2 ^ 64 - 1" using assms(1) by (simp add: word_less_nat_alt unsigned_minus_1_eq_mask mask_eq_exp_minus_1)
  then have "unat (n + 1) = unat n + 1" by (simp add: unat_add_lem [THEN iffD1])
  then show ?thesis using assms(2) by (simp add: word_le_nat_alt word_less_nat_alt)
qed

lemma apply_entry_shape:
  assumes "apply_entry j rs h l e st m = (Ok r, st', m')"
  shows "\<exists>ops m1 extra. entry_ops j rs h st e m = (Ok (ops, r), m1) \<and> only_applied extra \<and> st' = store_apply (ops @ extra) st
    \<and> mm_delq_next m' = mm_delq_next m1"
proof -
  obtain ops m1 where e: "entry_ops j rs h st e m = (Ok (ops, r), m1)"
    using assms by (auto simp: apply_entry_def Let_def split: prod.splits sum.splits)
  then obtain ops' where "(case l of Some x \<Rightarrow> write_applied rs m1 ops x | None \<Rightarrow> Ok ops) = Ok ops'"
    "st' = store_apply ops' st" "mm_delq_next m' = mm_delq_next m1"
    using assms by (auto simp: apply_entry_def Let_def split: sum.splits if_splits)
  moreover from this(1) obtain extra where "ops' = ops @ extra" "only_applied extra"
    by (cases l) (auto simp: write_applied_def result_simps only_applied_def)
  ultimately show ?thesis using e by blast
qed

lemma flat_entry_shape:
  assumes "apply_entry j rs h l e st m = (Ok r, st', m')" "re_payload e = Normal (FlatEntry op)"
  shows "\<exists>out ops. flat_apply j h st op (mm_delq_next m) = Ok out \<and> st' = store_apply (ao_ops out @ ops) st \<and> only_applied ops
    \<and> r = ao_response out \<and> mm_delq_next m' = mm_delq_next m + 1"
proof -
  obtain ops m1 extra where s: "entry_ops j rs h st e m = (Ok (ops, r), m1)" "only_applied extra" "st' = store_apply (ops @ extra) st"
    "mm_delq_next m' = mm_delq_next m1" using apply_entry_shape [OF assms(1)] by blast
  then have "flat_entry_ops j h st op m = (Ok (ops, r), m1)" using assms(2) by (simp add: entry_ops_def)
  then obtain out ops1 where "flat_apply j h st op (mm_delq_next m) = Ok out" "ops = ao_ops out @ ops1" "only_applied ops1"
    "r = ao_response out" "mm_delq_next m1 = mm_delq_next m + 1"
    by (auto simp: flat_entry_ops_def Let_def only_applied_def split: sum.splits prod.splits)
  then show ?thesis using s
    by (intro exI [of _ out] exI [of _ "ops1 @ extra"]) (auto simp: only_applied_def)
qed

lemma flat_entry_run:
  assumes "serde_ok j" "flat_wf j st" "delq_below (mm_delq_next m) st" "re_payload e = Normal (FlatEntry op)" "flat_op_ok st op"
    and "size (store_refs j st) + size (flat_op_refs op) < 2 ^ 31" "mm_delq_next m < - 1" "apply_entry j rs h l e st m = (Ok r, st', m')"
  shows "store_refs j st' = store_refs j st + (if r = RNone then flat_op_refs op else {#})
    \<and> flat_wf j st' \<and> delq_below (mm_delq_next m') st'"
proof -
  obtain out ops where o: "flat_apply j h st op (mm_delq_next m) = Ok out" "st' = store_apply (ao_ops out @ ops) st" "only_applied ops"
    "r = ao_response out" "mm_delq_next m' = mm_delq_next m + 1"
    using flat_entry_shape [OF assms(8,4)] by blast
  let ?st1 = "store_apply (ao_ops out) st"
  have fresh: "delq_fresh (mm_delq_next m) st" using assms(3) by (simp add: delq_below_def)
  note step = flat_step [OF assms(1,2) fresh assms(5,6) o(1)]
  have "delq_fresh s ?st1" if "mm_delq_next m + 1 \<le> s" for s
    using delq_fresh_grows [OF _ step(3), of s] word_less_Suc [OF assms(7) that] assms(3) by (auto simp: delq_below_def)
  then have "delq_below (mm_delq_next m') st'"
    using only_applied_lookup [OF o(3), of Delq] by (simp add: delq_below_def delq_fresh_def o(2,5))
  then show ?thesis using step(1,2) only_applied_refs [OF o(3)] only_applied_wf [OF o(3)] by (simp add: o(2,4))
qed

lemma dequeue_run:
  assumes "flat_wf j st" "delq_below n st" "re_payload e = Normal (StoreOps (deletes Delq ks))" "distinct ks"
    and "apply_entry j rs h l e st m = (Ok r, st', m')"
  shows "store_refs j st' + (\<Sum>k \<leftarrow> ks. held j st Delq k) = store_refs j st \<and> flat_wf j st' \<and> delq_below n st' \<and> mm_delq_next m' = mm_delq_next m"
proof -
  obtain ops m1 extra where s: "entry_ops j rs h st e m = (Ok (ops, r), m1)" "only_applied extra" "st' = store_apply (ops @ extra) st"
    "mm_delq_next m' = mm_delq_next m1" using apply_entry_shape [OF assms(5)] by blast
  have o: "ops = deletes Delq ks" "m1 = m" using s(1) assms(3) by (auto simp: entry_ops_def)
  let ?st = "store_apply (deletes Delq ks) st"
  have "flat_wf j ?st" using assms(1) by (simp add: flat_wf_def segs_owned_def uploads_wf_def lookup_deletes)
  moreover have "delq_below n ?st" using assms(2) by (simp add: delq_below_def delq_fresh_def lookup_deletes)
  then have "delq_below n st'" using only_applied_lookup [OF s(2), of Delq] by (simp add: delq_below_def delq_fresh_def s(3) o(1))
  ultimately show ?thesis using store_refs_deletes [OF assms(4), of j Delq st] only_applied_refs [OF s(2)] only_applied_wf [OF s(2)] s(4) o
    by (simp add: s(3))
qed

lemma store_refs_empty: "store_refs j empty_store = {#}"
  by (simp add: store_refs_def kv_sum_def empty_store_def)

lemma flat_run_inv:
  "flat_run j rs h refs st m \<Longrightarrow> serde_ok j \<Longrightarrow> store_refs j st = refs \<and> flat_wf j st \<and> delq_below (mm_delq_next m) st"
proof (induction rule: flat_run.induct)
  case (init m)
  then show ?case
    by (simp add: store_refs_empty flat_wf_def segs_owned_def uploads_wf_def delq_below_def delq_fresh_def) (simp add: empty_store_def)
next
  case (flat refs st m e op l r st' m')
  then show ?case using flat_entry_run [OF flat.prems, of st m e op rs h l r st' m'] by simp
next
  case (dequeue refs st m e ks l r st' m')
  then show ?case using dequeue_run [where j = j and st = st and n = "mm_delq_next m" and e = e and ks = ks and rs = rs and h = h and l = l and m = m and r = r and st' = st' and m' = m'] by (metis add_diff_cancel_right')
qed



text \<open>An entry that is applied twice, as a replay of a prefix whose applied record was not yet written does, puts the
  references of the live object into the queue.\<close>

lemma replayed_put_enqueues_live:
  assumes "serde_ok j" "flat_wf j st" "delq_below (mm_delq_next m) st" "re_payload e = Normal (FlatEntry (FPut b key head ts))"
    and "size (store_refs j st) + 2 * length (into_slices (oh_content head)) < 2 ^ 31" "mm_delq_next m < - 1" "mm_delq_next m1 < - 1"
    and "apply_entry j rs h l e st m = (Ok r, st1, m1)" "apply_entry j rs h l e st1 m1 = (Ok r', st2, m2)"
  shows "store_refs j st2 = store_refs j st + mset (into_slices (oh_content head)) + mset (into_slices (oh_content head))"
proof -
  have resp: "r = RNone" if run: "apply_entry j rs h l e st m = (Ok r, st1, m1)" for r st m st1 m1
  proof -
    obtain packed segs where pk: "pack head = (packed, segs)" by (cases "pack head")
    obtain out where "apply_put j st b key head (mm_delq_next m) ts = Ok out" "r = ao_response out"
      using flat_entry_shape [OF run assms(4)] by auto
    then show ?thesis using apply_put_ok [OF assms(1) pk, of st b key "mm_delq_next m" ts] by auto
  qed
  have one: "store_refs j st1 = store_refs j st + mset (into_slices (oh_content head))" "flat_wf j st1" "delq_below (mm_delq_next m1) st1"
    using flat_entry_run [OF assms(1-4) _ _ assms(6,8)] assms(5) resp [OF assms(8)] by simp_all
  then show ?thesis using flat_entry_run [OF assms(1) one(2,3) assms(4) _ _ assms(7,9)] assms(5) resp [OF assms(9)] by simp
qed

end
