(* ===== verification/Meta_Get.thy ===== *)
theory Meta_Get
  imports Meta_Flat_Inv Meta_Sample
begin

text \<open>
  Reading objects back: the head and the overflow segments that a put writes give the complete slice list again,
  and objects whose keys are not prefixes of each other do not disturb each other.
\<close>

lemma read_segments_ok:
  "\<forall>n \<in> set ns. get_segment j st b key (of_nat n) = Ok (Some (f n)) \<Longrightarrow>
     read_segments j st b key ns = Ok (concat (map (\<lambda>n. sg_slices (f n)) ns))"
  by (induction ns) simp_all

lemma puts_lookup_nth:
  assumes "map fst kvs = map k [0..<length kvs]" "inj_on k {0..<length kvs}" "n < length kvs"
  shows "fmlookup (store_apply (puts cf kvs) st cf) (k n) = Some (snd (kvs ! n))"
proof -
  have "map fst (rev kvs) = rev (map k [0..<length kvs])" unfolding rev_map [symmetric] assms(1) ..
  then have "distinct (map fst (rev kvs))" using assms(2) by (simp add: distinct_map)
  moreover have "map fst kvs ! n = map k [0..<length kvs] ! n" unfolding assms(1) ..
  then have "(k n, snd (kvs ! n)) = kvs ! n" using assms(3) by (simp add: prod_eq_iff)
  then have "(k n, snd (kvs ! n)) \<in> set (rev kvs)" using nth_mem [OF assms(3)] by simp
  ultimately have "map_of (rev kvs) (k n) = Some (snd (kvs ! n))" by (rule map_of_is_SomeI)
  then show ?thesis by (simp add: lookup_puts)
qed

lemma get_segment_put:
  assumes "map fst kvs = map (seg_key b key) [0..<length segs]" "map (\<lambda>(_, v). from_slice (sd_segment j) v) kvs = map Some segs"
    and "length segs < 2 ^ 32" "n < length segs"
  shows "get_segment j (store_apply (puts MetaSeg kvs) st) b key (of_nat n) = Ok (Some (segs ! n))"
proof -
  have len: "length kvs = length segs" using arg_cong [OF assms(2), of length] by simp
  have "inj_on (seg_key b key) {0..<length kvs}" using assms(3) len by (auto simp: inj_on_def seg_key_inject)
  then have "fmlookup (store_apply (puts MetaSeg kvs) st MetaSeg) (seg_key b key n) = Some (snd (kvs ! n))"
    using assms(1,4) len by (intro puts_lookup_nth) simp_all
  moreover have "from_slice (sd_segment j) (snd (kvs ! n)) = Some (segs ! n)"
    using arg_cong [OF assms(2), of "\<lambda>l. l ! n"] assms(4) len by (simp add: case_prod_unfold)
  ultimately show ?thesis by (simp add: get_segment_def store_get_def seg_key_def decode_def)
qed

lemma get_object_cong:
  assumes "fmlookup (st Meta) (flat_key Meta b key []) = fmlookup (st' Meta) (flat_key Meta b key [])"
    and "\<And>n. fmlookup (st MetaSeg) (seg_key b key n) = fmlookup (st' MetaSeg) (seg_key b key n)"
  shows "get_object_meta j st b key = get_object_meta j st' b key"
proof -
  have "read_segments j st b key ns = read_segments j st' b key ns" for ns
    using assms(2) by (induction ns) (simp_all add: get_segment_def store_get_def seg_key_def)
  then have r: "read_segments j st b key = read_segments j st' b key" by (rule ext)
  have h: "get_head j st b key = get_head j st' b key" using assms(1) by (simp add: get_head_def store_get_def)
  show ?thesis unfolding get_object_meta_def r h ..
qed

text \<open>Two object keys of which none extends the other.\<close>

definition apart :: "bucket_id \<Rightarrow> bytes \<Rightarrow> bucket_id \<Rightarrow> bytes \<Rightarrow> bool" where
  "apart b key b' key' \<longleftrightarrow> b \<noteq> b' \<or> (\<not> prefix key key' \<and> \<not> prefix key' key)"

lemma apart_seg: "apart b key b' key' \<Longrightarrow> \<not> prefix (flat_key MetaSeg b key []) (seg_key b' key' n)"
  unfolding apart_def prefix_flat_key seg_key_def flat_key_eq
  by (metis append_Nil2 prefixI prefix_same_cases)

lemma apart_lookup:
  assumes "apart b key b' key'" "map fst skvs = map (seg_key b key) ns"
  shows "fmlookup (store_apply ((deletes MetaSeg (captured_segs st b key) @ puts Delq kvs) @ op_put Meta (flat_key Meta b key []) v # puts MetaSeg skvs) st MetaSeg)
      (seg_key b' key' n) = fmlookup (st MetaSeg) (seg_key b' key' n)"
proof -
  have "seg_key b' key' n \<notin> set (captured_segs st b key)" using apart_seg [OF assms(1)] by (simp add: set_captured_segs)
  moreover have "seg_key b' key' n \<notin> fst ` set skvs"
  proof
    assume "seg_key b' key' n \<in> fst ` set skvs"
    then have "seg_key b' key' n \<in> set (map fst skvs)" by simp
    then obtain i where "seg_key b' key' n = seg_key b key i" unfolding assms(2) by auto
    then show False using apart_seg [OF assms(1)] prefix_seg_key by metis
  qed
  ultimately show ?thesis by (simp add: puts_lookup_neq puts_other lookup_deletes)
qed

lemma apart_meta: "apart b key b' key' \<Longrightarrow> flat_key Meta b' key' [] \<noteq> flat_key Meta b key []"
  by (auto simp: flat_key_eq apart_def)

text \<open>C35: An object reads back as it was put, however many slices it has: the head, and the inline bytes or the whole
  slice list over head and segments. Objects whose keys do not extend each other read as before. A deleted object is
  gone, and again the others read as before.\<close>

theorem put_get_roundtrip:
  assumes "serde_ok j" "length (into_slices (oh_content head)) < 2 ^ 32"
    and "apply_put j st b key head sq ts = Ok out" "apply_delete j st2 b key sq2 ts2 = Ok out2"
  shows "get_object_meta j (store_apply (ao_ops out) st) b key = Ok (Some (fst (pack head), oh_content head))
    \<and> get_object_meta j (store_apply (ao_ops out2) st2) b key = Ok None
    \<and> (\<forall>b' key'. apart b key b' key' \<longrightarrow> get_object_meta j (store_apply (ao_ops out) st) b' key' = get_object_meta j st b' key'
         \<and> get_object_meta j (store_apply (ao_ops out2) st2) b' key' = get_object_meta j st2 b' key')"
proof -
  obtain packed segs where pk: "pack head = (packed, segs)" by (cases "pack head")
  obtain kvs v skvs where o: "ao_ops out = (deletes MetaSeg (captured_segs st b key) @ puts Delq kvs) @ op_put Meta (flat_key Meta b key []) v # puts MetaSeg skvs"
    "from_slice (sd_head j) v = Some packed" "map fst skvs = map (seg_key b key) [0..<length segs]"
    "map (\<lambda>(_, v). from_slice (sd_segment j) v) skvs = map Some segs"
    using apply_put_ok [OF assms(1) pk, of st b key sq ts] assms(3) by auto
  obtain kvs2 where o2: "ao_ops out2 = (deletes MetaSeg (captured_segs st2 b key) @ puts Delq kvs2) @ [op_delete Meta (flat_key Meta b key [])]"
    using apply_delete_ok [OF assms(1), of st2 b key sq2 ts2] assms(4) by auto
  let ?st = "store_apply (ao_ops out) st" and ?st2 = "store_apply (ao_ops out2) st2"
  have n: "length segs < 2 ^ 32" using pack_ok(3) [OF pk] assms(2) by simp
  have cnt: "unat (oh_seg_count packed) = length segs" using pack_ok(2) [OF pk] n by (simp add: unsigned_of_nat take_bit_nat_eq_self)
  have head: "get_head j ?st b key = Ok (Some packed)"
    by (simp add: get_head_def store_get_def o(1) decode_def o(2) puts_other)
  have "get_segment j ?st b key (of_nat i) = Ok (Some (segs ! i))" if "i < length segs" for i
    unfolding o(1) store_apply_append store_apply_Cons using get_segment_put [OF o(3,4) n that] .
  then have "read_segments j ?st b key [0..<length segs] = Ok (concat (map (\<lambda>i. sg_slices (segs ! i)) [0..<length segs]))"
    by (intro read_segments_ok) simp
  moreover have "map (\<lambda>i. sg_slices (segs ! i)) [0..<length segs] = map sg_slices segs" by (rule nth_equalityI) simp_all
  ultimately have segs: "read_segments j ?st b key [0..<length segs] = Ok (concat (map sg_slices segs))" by simp
  have "get_object_meta j ?st b key = Ok (Some (packed, oh_content head))"
  proof (cases "oh_content head")
    case (Inline bs)
    then show ?thesis using pack_ok(5) [OF pk] head by (simp add: get_object_meta_def)
  next
    case (Slices ss)
    then obtain emb where emb: "oh_content packed = Slices emb" using pack_ok(6) [OF pk] by blast
    have "emb @ concat (map sg_slices segs) = ss" using pack_ok(1) [OF pk] Slices emb by (simp add: into_slices_def)
    then show ?thesis using head emb segs cnt Slices by (simp add: get_object_meta_def)
  qed
  moreover have "get_object_meta j ?st2 b key = Ok None"
    by (simp add: get_object_meta_def get_head_def store_get_def o2)
  moreover have "get_object_meta j ?st b' key' = get_object_meta j st b' key' \<and> get_object_meta j ?st2 b' key' = get_object_meta j st2 b' key'"
    if a: "apart b key b' key'" for b' key'
  proof
    show "get_object_meta j ?st b' key' = get_object_meta j st b' key'"
      using apart_lookup [OF a o(3), of st kvs v] apart_meta [OF a]
      by (intro get_object_cong) (simp_all add: o(1) puts_other lookup_deletes)
    show "get_object_meta j ?st2 b' key' = get_object_meta j st2 b' key'"
      using apart_seg [OF a] apart_meta [OF a]
      by (intro get_object_cong) (simp_all add: o2 puts_other lookup_deletes set_captured_segs)
  qed
  ultimately show ?thesis by (simp add: pk)
qed

definition demo_slice :: slice where
  "demo_slice = \<lparr>sl_chunk_id = ChunkId 4, sl_blob_ids = [BlobId 9], sl_blob_size = 3\<rparr>"

definition demo_big :: object_head where
  "demo_big = \<lparr>oh_size = 300, oh_etag = [], oh_mtime = 5, oh_storage = Standard, oh_content = Slices (replicate 100 demo_slice),
     oh_seg_count = 0, oh_http = http_default\<rparr>"

theorem put_get_roundtrip_witness:
  "\<exists>out. apply_put sample_serde empty_store (BucketId 1) [97] demo_big 0 5 = Ok out
     \<and> get_object_meta sample_serde (store_apply (ao_ops out) empty_store) (BucketId 1) [97]
         = Ok (Some (fst (pack demo_big), Slices (replicate 100 demo_slice)))"
proof -
  obtain out where o: "apply_put sample_serde empty_store (BucketId 1) [97] demo_big 0 5 = Ok out"
    using apply_put_ok [OF sample_serde_ok, of demo_big "fst (pack demo_big)" "snd (pack demo_big)" empty_store "BucketId 1" "[97]" 0 5] by auto
  obtain out2 where o2: "apply_delete sample_serde empty_store (BucketId 1) [97] 0 5 = Ok out2"
    using apply_delete_ok [OF sample_serde_ok, of empty_store "BucketId 1" "[97]" 0 5] by blast
  have "length (into_slices (oh_content demo_big)) < 2 ^ 32" by (simp add: demo_big_def into_slices_def)
  from put_get_roundtrip [OF sample_serde_ok this o o2] show ?thesis using o by (simp add: demo_big_def)
qed

text \<open>Overwriting an object removes the segments of every object whose key extends its key: reading such an object then
  fails at its first segment.\<close>

lemma overwrite_breaks_extension:
  assumes "serde_ok j" "fmlookup (st Meta) (flat_key Meta b key []) \<noteq> None" "apply_put j st b key head sq ts = Ok out"
    and "x \<noteq> []" "get_head j st b (key @ x) = Ok (Some other)" "oh_content other = Slices emb" "0 < oh_seg_count other"
  shows "get_object_meta j (store_apply (ao_ops out) st) b (key @ x) = Err (SegmentAbsent 0)"
proof -
  obtain packed segs where pk: "pack head = (packed, segs)" by (cases "pack head")
  obtain kvs v skvs where o: "ao_ops out = (deletes MetaSeg (captured_segs st b key) @ puts Delq kvs) @ op_put Meta (flat_key Meta b key []) v # puts MetaSeg skvs"
    "map fst skvs = map (seg_key b key) [0..<length segs]"
    using apply_put_ok [OF assms(1) pk, of st b key sq ts] assms(3) by auto
  let ?st = "store_apply (ao_ops out) st" and ?k = "seg_key b (key @ x) 0"
  have "?k \<notin> fst ` set skvs"
  proof
    assume "?k \<in> fst ` set skvs"
    then have "?k \<in> set (map fst skvs)" by simp
    then obtain i where "?k = seg_key b key i" unfolding o(2) by auto
    then show False using seg_key_eq [of b "key @ x" 0 b key i] assms(4) by simp
  qed
  moreover have "prefix (flat_key MetaSeg b key []) ?k" by (auto simp: prefix_flat_key seg_key_def flat_key_eq)
  ultimately have "fmlookup (?st MetaSeg) ?k = None"
    using assms(2) by (simp add: o(1) puts_lookup_neq puts_other lookup_deletes set_captured_segs)
  then have "get_segment j ?st b (key @ x) 0 = Ok None"
    by (simp add: get_segment_def store_get_def seg_key_def)
  moreover have "get_head j ?st b (key @ x) = Ok (Some other)"
    using assms(4,5) by (simp add: get_head_def store_get_def o(1) puts_other lookup_deletes flat_key_eq)
  moreover have "[0..<unat (oh_seg_count other)] = 0 # [1..<unat (oh_seg_count other)]"
    using assms(7) by (simp add: upt_conv_Cons word_less_nat_alt)
  ultimately show ?thesis using assms(6) by (simp add: get_object_meta_def)
qed

end
