(* ===== verification/Spec2Isabelle.thy ===== *)
theory Spec2Isabelle
  imports Worker_Rebuild Store_Steps Store_Qos Meta_Machine_Inv Meta_Get
begin

text \<open>
  A verification library of epochIO.
\<close>

end
